(* ===== verification/Prelude.thy ===== *)
theory Prelude
  imports Main "HOL-Library.Word" "HOL-Library.Monad_Syntax"
begin

text \<open>
  Shared vocabulary of the development: machine integers, C arrays, little-endian storage of
  16, 32 and 64 bit values, flat memory, and the lemmas on them that the component theories use.

  Conventions of the whole development:
  \<^item> \<open>uchar\<close>, \<open>ushort\<close>, \<open>uint\<close> and \<open>uint64\<close> of \<^verbatim>\<open>kernel/types.h\<close> are words of 8, 16, 32 and
    64 bits; arithmetic on them wraps as in C;
  \<^item> a C \<open>int\<close> is an integer; where the code counts without a bound, \<open>c_int\<close> wraps the result to 32 bits in
    two's complement, as the instructions of the machine do;
  \<^item> a C array of a fixed size is a function from indices to elements, only the indices below
    the size matter; copying a whole array is then an assignment;
  \<^item> memory reached through pointers that may alias is a function from 64-bit addresses to bytes;
  \<^item> a kernel function that may fail to return (\<open>panic\<close>, or a sleep that nothing in the same
    thread can end) has an \<open>option\<close> result and \<open>None\<close> stands for not returning.
\<close>

unbundle bit_operations_syntax

type_synonym u8 = "8 word"
type_synonym u16 = "16 word"
type_synonym u32 = "32 word"
type_synonym u64 = "64 word"

type_synonym bytes = "nat \<Rightarrow> u8"
type_synonym memory = "u64 \<Rightarrow> u8"

named_theorems codec \<open>round trips and frames of stored integers\<close>
named_theorems page_simps \<open>facts about addresses and pages\<close>

section \<open>Signed integers\<close>

definition c_int :: "int \<Rightarrow> int" where
  "c_int x = signed_take_bit 31 x"

lemma c_int_small: "- (2 ^ 31) \<le> x \<Longrightarrow> x < 2 ^ 31 \<Longrightarrow> c_int x = x"
  by (simp add: c_int_def signed_take_bit_int_eq_self)

section \<open>Little-endian integers\<close>

definition byte_of :: "nat \<Rightarrow> 'a::len word \<Rightarrow> u8" where
  "byte_of k v = ucast (drop_bit (8 * k) v)"

definition le16 :: "u8 \<Rightarrow> u8 \<Rightarrow> u16" where
  "le16 b0 b1 = ucast b0 OR push_bit 8 (ucast b1)"

definition le32 :: "u8 \<Rightarrow> u8 \<Rightarrow> u8 \<Rightarrow> u8 \<Rightarrow> u32" where
  "le32 b0 b1 b2 b3 =
     ucast b0 OR push_bit 8 (ucast b1) OR push_bit 16 (ucast b2) OR push_bit 24 (ucast b3)"

definition le64 :: "(nat \<Rightarrow> u8) \<Rightarrow> u64" where
  "le64 b = ucast (b 0) OR push_bit 8 (ucast (b 1)) OR push_bit 16 (ucast (b 2))
     OR push_bit 24 (ucast (b 3)) OR push_bit 32 (ucast (b 4)) OR push_bit 40 (ucast (b 5))
     OR push_bit 48 (ucast (b 6)) OR push_bit 56 (ucast (b 7))"

text \<open>The byte a bit position belongs to.\<close>

lemma byte_ranges:
  "(n::nat) < 64 \<Longrightarrow> n < 8 \<or> (8 \<le> n \<and> n < 16) \<or> (16 \<le> n \<and> n < 24) \<or> (24 \<le> n \<and> n < 32)
     \<or> (32 \<le> n \<and> n < 40) \<or> (40 \<le> n \<and> n < 48) \<or> (48 \<le> n \<and> n < 56) \<or> (56 \<le> n \<and> n < 64)"
  by linarith

lemma bit_byte_of: "bit (byte_of k v) n \<longleftrightarrow> n < 8 \<and> bit v (8 * k + n)"
  by (simp add: byte_of_def bit_simps)

lemma bit_u8_high: "8 \<le> n \<Longrightarrow> \<not> bit (b :: u8) n"
  using bit_imp_le_length by fastforce

lemma le16_byte_of [codec, simp]: "le16 (byte_of 0 v) (byte_of 1 v) = v"
  by (rule bit_word_eqI) (auto simp: le16_def byte_of_def bit_simps)

lemma le32_byte_of [codec, simp]:
  "le32 (byte_of 0 v) (byte_of 1 v) (byte_of 2 v) (byte_of 3 v) = v"
proof (rule bit_word_eqI)
  fix n assume "n < LENGTH(32)"
  then have "n < 8 \<or> (8 \<le> n \<and> n < 16) \<or> (16 \<le> n \<and> n < 24) \<or> (24 \<le> n \<and> n < 32)" by auto
  then show "bit (le32 (byte_of 0 v) (byte_of 1 v) (byte_of 2 v) (byte_of 3 v)) n = bit v n"
    by (elim disjE) (simp_all add: le32_def bit_simps bit_byte_of less_diff_conv2)
qed

lemma le64_byte_of [codec, simp]: "le64 (\<lambda>k. byte_of k v) = v"
proof (rule bit_word_eqI)
  fix n assume "n < LENGTH(64)"
  then have "n < 64" by simp
  then show "bit (le64 (\<lambda>k. byte_of k v)) n = bit v n"
    by (elim byte_ranges [elim_format] disjE)
      (simp_all add: le64_def bit_simps bit_byte_of less_diff_conv2)
qed

lemma le64_cong: "(\<And>k. k < 8 \<Longrightarrow> f k = g k) \<Longrightarrow> le64 f = le64 g"
  by (simp add: le64_def)

lemma byte_of_zero [simp]: "byte_of k 0 = 0"
  by (simp add: byte_of_def)

lemma le32_zero [simp]: "le32 0 0 0 0 = 0"
  by (simp add: le32_def)

lemma le16_zero [simp]: "le16 0 0 = 0"
  by (simp add: le16_def)

lemma byte_of_le32 [codec]:
  "byte_of 0 (le32 b0 b1 b2 b3) = b0" "byte_of 1 (le32 b0 b1 b2 b3) = b1"
  "byte_of 2 (le32 b0 b1 b2 b3) = b2" "byte_of 3 (le32 b0 b1 b2 b3) = b3"
  by (rule bit_word_eqI; simp add: le32_def bit_byte_of bit_simps bit_u8_high)+

section \<open>Integers inside a C array of bytes\<close>

definition get16 :: "bytes \<Rightarrow> nat \<Rightarrow> u16" where
  "get16 d i = le16 (d i) (d (i + 1))"

definition put16 :: "bytes \<Rightarrow> nat \<Rightarrow> u16 \<Rightarrow> bytes" where
  "put16 d i v = d(i := byte_of 0 v, i + 1 := byte_of 1 v)"

definition get32 :: "bytes \<Rightarrow> nat \<Rightarrow> u32" where
  "get32 d i = le32 (d i) (d (i + 1)) (d (i + 2)) (d (i + 3))"

definition put32 :: "bytes \<Rightarrow> nat \<Rightarrow> u32 \<Rightarrow> bytes" where
  "put32 d i v =
     d(i := byte_of 0 v, i + 1 := byte_of 1 v, i + 2 := byte_of 2 v, i + 3 := byte_of 3 v)"

lemma get16_put16 [codec, simp]: "get16 (put16 d i v) i = v"
  by (simp add: get16_def put16_def del: One_nat_def)

lemma get32_put32 [codec, simp]: "get32 (put32 d i v) i = v"
  by (simp add: get32_def put32_def del: One_nat_def)

lemma get32_put32_other [codec]:
  "i + 4 \<le> j \<or> j + 4 \<le> i \<Longrightarrow> get32 (put32 d i v) j = get32 d j"
  by (auto simp: get32_def put32_def)

lemma get16_put16_other [codec]:
  "i + 2 \<le> j \<or> j + 2 \<le> i \<Longrightarrow> get16 (put16 d i v) j = get16 d j"
  by (auto simp: get16_def put16_def)

lemma get16_put32_other [codec]:
  "i + 4 \<le> j \<or> j + 2 \<le> i \<Longrightarrow> get16 (put32 d i v) j = get16 d j"
  by (auto simp: get16_def put32_def)

lemma get32_put16_other [codec]:
  "i + 2 \<le> j \<or> j + 4 \<le> i \<Longrightarrow> get32 (put16 d i v) j = get32 d j"
  by (auto simp: get32_def put16_def)

lemma put32_apply_other [codec]: "j < i \<or> i + 4 \<le> j \<Longrightarrow> put32 d i v j = d j"
  by (auto simp: put32_def)

lemma put16_apply_other [codec]: "j < i \<or> i + 2 \<le> j \<Longrightarrow> put16 d i v j = d j"
  by (auto simp: put16_def)

section \<open>Flat memory\<close>

definition load64 :: "memory \<Rightarrow> u64 \<Rightarrow> u64" where
  "load64 m a = le64 (\<lambda>k. m (a + of_nat k))"

definition store64 :: "memory \<Rightarrow> u64 \<Rightarrow> u64 \<Rightarrow> memory" where
  "store64 m a v = (\<lambda>x. if x - a < 8 then byte_of (unat (x - a)) v else m x)"

lemma load64_store64 [codec, simp]: "load64 (store64 m a v) a = v"
proof -
  have "le64 (\<lambda>k. store64 m a v (a + of_nat k)) = le64 (\<lambda>k. byte_of k v)"
    by (rule le64_cong) (simp add: store64_def word_less_nat_alt unat_of_nat)
  then show ?thesis by (simp add: load64_def)
qed

lemma load64_cong: "(\<And>k. k < 8 \<Longrightarrow> m (a + of_nat k) = m' (a + of_nat k)) \<Longrightarrow> load64 m a = load64 m' a"
  by (auto simp: load64_def intro: le64_cong)

text \<open>Reading or writing \<open>n\<close> bytes of memory at an address.\<close>

definition mem_read :: "memory \<Rightarrow> u64 \<Rightarrow> nat \<Rightarrow> u8 list" where
  "mem_read m a n = map (\<lambda>i. m (a + of_nat i)) [0..<n]"

lemma length_mem_read [simp]: "length (mem_read m a n) = n"
  by (simp add: mem_read_def)

lemma nth_mem_read [simp]: "i < n \<Longrightarrow> mem_read m a n ! i = m (a + of_nat i)"
  by (simp add: mem_read_def)

lemma mem_read_add: "mem_read m a (n + k) = mem_read m a n @ mem_read m (a + of_nat n) k"
  by (induction k) (simp_all add: mem_read_def add.assoc)

section \<open>Words and their values\<close>

lemma uint_diff_0 [simp]: "uint (a :: u8) - uint b = 0 \<longleftrightarrow> a = b"
  by (simp add: word_uint_eq_iff)

lemma unat_diff_iff: "i < 2 ^ 64 \<Longrightarrow> unat (a - d) = i \<longleftrightarrow> a = d + of_nat i" for a d :: u64
proof -
  assume "i < 2 ^ 64"
  then have "unat (of_nat i :: u64) = i" by (simp add: unat_of_nat)
  then show ?thesis
    by (metis add_diff_cancel_left' diff_add_cancel add.commute of_nat_unat ucast_id)
qed

lemma unat_u32_less: "unat (n :: u32) < 4294967296"
  using unsigned_less [of n] by (simp add: unsigned_less)

lemma unat_ucast_u32_u64 [simp]: "unat (ucast (n :: u32) :: u64) = unat n"
  using unat_u32_less [of n] by (simp add: unsigned_ucast_eq take_bit_nat_eq_self)

lemma sorted_wrt_upt_iff: "sorted_wrt P [0..<n] \<longleftrightarrow> (\<forall>i j. i < j \<longrightarrow> j < n \<longrightarrow> P i j)"
  by (auto simp: sorted_wrt_iff_nth_less)

end
