(* ===== verification/CString.thy ===== *)
theory CString
  imports Prelude
begin

text \<open>
  The string routines of \<^verbatim>\<open>kernel/string.c\<close> and \<^verbatim>\<open>user/ulib.c\<close>.

  A routine whose arguments may overlap (\<open>memmove\<close>) works on flat memory; the others
  work on C arrays of bytes. A \<open>for\<close> loop over a counter is a \<open>fold\<close> over its values, in the
  order in which the loop takes them. A loop that stops only at a NUL byte is a
  \<open>partial_function\<close>: \<open>None\<close> when there is none.
\<close>

section \<open>Memory routines\<close>

definition memset :: "memory \<Rightarrow> u64 \<Rightarrow> u32 \<Rightarrow> u32 \<Rightarrow> memory" where
  "memset m dst c n = fold (\<lambda>i m. m(dst + of_nat i := ucast c)) [0..<unat n] m"

definition copy_byte :: "u64 \<Rightarrow> u64 \<Rightarrow> nat \<Rightarrow> memory \<Rightarrow> memory" where
  "copy_byte dst src i m = m(dst + of_nat i := m (src + of_nat i))"

definition memmove :: "memory \<Rightarrow> u64 \<Rightarrow> u64 \<Rightarrow> u32 \<Rightarrow> memory" where
  "memmove m dst src n =
     (if n = 0 then m
      else if src < dst \<and> src + ucast n > dst
      then fold (copy_byte dst src) (rev [0..<unat n]) m
      else fold (copy_byte dst src) [0..<unat n] m)"

definition memcpy :: "memory \<Rightarrow> u64 \<Rightarrow> u64 \<Rightarrow> u32 \<Rightarrow> memory" where
  "memcpy m dst src n = memmove m dst src n"

text \<open>
  \<open>user/ulib.c\<close> has its own \<open>memmove\<close>, which chooses the direction by the pointers alone. Its length is an \<open>int\<close>:
  the loops do nothing when it is negative.
\<close>

definition ulib_memmove :: "memory \<Rightarrow> u64 \<Rightarrow> u64 \<Rightarrow> u32 \<Rightarrow> memory" where
  "ulib_memmove m vdst vsrc n =
     (if vsrc > vdst then fold (copy_byte vdst vsrc) [0..<nat (sint n)] m
      else fold (copy_byte vdst vsrc) (rev [0..<nat (sint n)]) m)"

definition ulib_memset :: "memory \<Rightarrow> u64 \<Rightarrow> u32 \<Rightarrow> u32 \<Rightarrow> memory" where
  "ulib_memset m dst c n = fold (\<lambda>i m. m(dst + of_nat i := ucast c)) [0..<unat n] m"

text \<open>The \<open>uint\<close> of \<open>memcpy\<close> becomes the \<open>int\<close> of \<open>memmove\<close> with the same bits.\<close>

definition ulib_memcpy :: "memory \<Rightarrow> u64 \<Rightarrow> u64 \<Rightarrow> u32 \<Rightarrow> memory" where
  "ulib_memcpy m dst src n = ulib_memmove m dst src n"

text \<open>Advancing a pointer into an array.\<close>

definition adv :: "bytes \<Rightarrow> bytes" where
  "adv p = (\<lambda>i. p (Suc i))"

fun memcmp :: "bytes \<Rightarrow> bytes \<Rightarrow> nat \<Rightarrow> int" where
  "memcmp s1 s2 0 = 0"
| "memcmp s1 s2 (Suc n) =
     (if s1 0 \<noteq> s2 0 then uint (s1 0) - uint (s2 0) else memcmp (adv s1) (adv s2) n)"

text \<open>The same loop in \<open>user/ulib.c\<close>, over \<open>char\<close>, which is unsigned on RISC-V.\<close>

fun ulib_memcmp :: "bytes \<Rightarrow> bytes \<Rightarrow> nat \<Rightarrow> int" where
  "ulib_memcmp p1 p2 0 = 0"
| "ulib_memcmp p1 p2 (Suc n) =
     (if p1 0 \<noteq> p2 0 then uint (p1 0) - uint (p2 0) else ulib_memcmp (adv p1) (adv p2) n)"

section \<open>String routines\<close>

fun strncmp :: "bytes \<Rightarrow> bytes \<Rightarrow> nat \<Rightarrow> int" where
  "strncmp p q 0 = 0"
| "strncmp p q (Suc n) =
     (if p 0 \<noteq> 0 \<and> p 0 = q 0 then strncmp (adv p) (adv q) n else uint (p 0) - uint (q 0))"

text \<open>
  \<open>strncpy\<close> copies up to and including the first NUL, then pads with NULs. The copying loop
  returns the array, the position and the count that is left.
\<close>

fun strncpy_copy :: "bytes \<Rightarrow> bytes \<Rightarrow> nat \<Rightarrow> nat \<Rightarrow> bytes \<times> nat \<times> nat" where
  "strncpy_copy s t i 0 = (s, i, 0)"
| "strncpy_copy s t i (Suc n) =
     (if t i \<noteq> 0 then strncpy_copy (s(i := t i)) t (Suc i) n else (s(i := t i), Suc i, n))"

fun strncpy_pad :: "bytes \<Rightarrow> nat \<Rightarrow> nat \<Rightarrow> bytes" where
  "strncpy_pad s i 0 = s"
| "strncpy_pad s i (Suc n) = strncpy_pad (s(i := 0)) (Suc i) n"

definition strncpy :: "bytes \<Rightarrow> bytes \<Rightarrow> int \<Rightarrow> bytes" where
  "strncpy s t n = (case strncpy_copy s t 0 (nat n) of (s, i, k) \<Rightarrow> strncpy_pad s i k)"

fun safestrcpy_copy :: "bytes \<Rightarrow> bytes \<Rightarrow> nat \<Rightarrow> nat \<Rightarrow> bytes \<times> nat" where
  "safestrcpy_copy s t i 0 = (s, i)"
| "safestrcpy_copy s t i (Suc n) =
     (if t i \<noteq> 0 then safestrcpy_copy (s(i := t i)) t (Suc i) n else (s(i := t i), Suc i))"

definition safestrcpy :: "bytes \<Rightarrow> bytes \<Rightarrow> int \<Rightarrow> bytes" where
  "safestrcpy s t n =
     (if n \<le> 0 then s
      else (case safestrcpy_copy s t 0 (nat (n - 1)) of (s, i) \<Rightarrow> s(i := 0)))"

partial_function (option) strlen_from :: "bytes \<Rightarrow> nat \<Rightarrow> nat option" where
  "strlen_from s n = (if s n = 0 then Some n else strlen_from s (Suc n))"

definition strlen :: "bytes \<Rightarrow> nat option" where
  "strlen s = strlen_from s 0"

partial_function (option) ulib_strlen_from :: "bytes \<Rightarrow> nat \<Rightarrow> nat option" where
  "ulib_strlen_from s n = (if s n = 0 then Some n else ulib_strlen_from s (Suc n))"

definition ulib_strlen :: "bytes \<Rightarrow> nat option" where
  "ulib_strlen s = ulib_strlen_from s 0"

partial_function (option) strcpy_from :: "bytes \<Rightarrow> bytes \<Rightarrow> nat \<Rightarrow> bytes option" where
  "strcpy_from s t i =
     (if t i \<noteq> 0 then strcpy_from (s(i := t i)) t (Suc i) else Some (s(i := t i)))"

definition strcpy :: "bytes \<Rightarrow> bytes \<Rightarrow> bytes option" where
  "strcpy s t = strcpy_from s t 0"

partial_function (option) strcmp :: "bytes \<Rightarrow> bytes \<Rightarrow> int option" where
  "strcmp p q =
     (if p 0 \<noteq> 0 \<and> p 0 = q 0 then strcmp (adv p) (adv q) else Some (uint (p 0) - uint (q 0)))"

text \<open>\<open>strchr\<close> returns a pointer into \<open>s\<close>, here its offset, or the null pointer.\<close>

partial_function (option) strchr_from :: "bytes \<Rightarrow> u8 \<Rightarrow> nat \<Rightarrow> nat option option" where
  "strchr_from s c i =
     (if s i \<noteq> 0 then (if s i = c then Some (Some i) else strchr_from s c (Suc i))
      else Some None)"

definition strchr :: "bytes \<Rightarrow> u8 \<Rightarrow> nat option option" where
  "strchr s c = strchr_from s c 0"

partial_function (option) atoi_from :: "bytes \<Rightarrow> nat \<Rightarrow> u32 \<Rightarrow> u32 option" where
  "atoi_from s i n =
     (if 0x30 \<le> s i \<and> s i \<le> 0x39 then atoi_from s (Suc i) (n * 10 + ucast (s i) - 0x30)
      else Some n)"

definition atoi :: "bytes \<Rightarrow> u32 option" where
  "atoi s = atoi_from s 0 0"

text \<open>
  \<open>gets\<close> reads standard input one byte at a time. The bytes \<open>read\<close> will still deliver are a list,
  empty when \<open>read\<close> returns less than 1.
\<close>

function gets_loop :: "u8 list \<Rightarrow> bytes \<Rightarrow> nat \<Rightarrow> nat \<Rightarrow> bytes \<times> nat \<times> u8 list" where
  "gets_loop inp buf i mx =
     (if i + 1 < mx then
        (case inp of
           [] \<Rightarrow> (buf, i, [])
         | c # inp' \<Rightarrow>
             (if c = 0x0a \<or> c = 0x0d then (buf(i := c), Suc i, inp')
              else gets_loop inp' (buf(i := c)) (Suc i) mx))
      else (buf, i, inp))"
  by pat_completeness auto
termination
  by (relation "measure (\<lambda>(inp, buf, i, mx). length inp)") auto

definition gets :: "u8 list \<Rightarrow> bytes \<Rightarrow> nat \<Rightarrow> bytes \<times> u8 list" where
  "gets inp buf mx = (case gets_loop inp buf 0 mx of (buf, i, inp) \<Rightarrow> (buf(i := 0), inp))"

section \<open>Copying\<close>

text \<open>The reference: \<open>n\<close> bytes at \<open>dst\<close> become what \<open>src\<close> held before, the rest stays.\<close>

definition copy_mem :: "memory \<Rightarrow> u64 \<Rightarrow> u64 \<Rightarrow> nat \<Rightarrow> memory" where
  "copy_mem m dst src n = (\<lambda>a. if unat (a - dst) < n then m (src + (a - dst)) else m a)"

lemma fold_copy_byte:
  assumes "\<forall>i \<in> set is. i < 2 ^ 64" and "distinct is"
    and "sorted_wrt (\<lambda>i j. src + of_nat j \<noteq> dst + of_nat i) is"
  shows "fold (copy_byte dst src) is m =
     (\<lambda>a. if unat (a - dst) \<in> set is then m (src + (a - dst)) else m a)"
  using assms
proof (induction "is" arbitrary: m)
  case Nil
  then show ?case by simp
next
  case (Cons i "is")
  have IH: "fold (copy_byte dst src) is (copy_byte dst src i m) =
     (\<lambda>a. if unat (a - dst) \<in> set is then copy_byte dst src i m (src + (a - dst)) else copy_byte dst src i m a)"
    using Cons by simp
  have i: "i < 2 ^ 64" using Cons.prems by simp
  show ?case
  proof
    fix a
    show "fold (copy_byte dst src) (i # is) m a =
      (if unat (a - dst) \<in> set (i # is) then m (src + (a - dst)) else m a)"
    proof (cases "unat (a - dst) \<in> set is")
      case True
      then have "src + of_nat (unat (a - dst)) \<noteq> dst + of_nat i"
        using Cons.prems(3) by auto
      then have "copy_byte dst src i m (src + (a - dst)) = m (src + (a - dst))"
        by (simp add: copy_byte_def)
      with True show ?thesis by (simp add: IH)
    next
      case False
      have "unat (a - dst) = i \<longleftrightarrow> a = dst + of_nat i"
        using i by (rule unat_diff_iff)
      then show ?thesis using False by (auto simp: IH) (auto simp: copy_byte_def)
    qed
  qed
qed

lemma memset_eq:
  "memset m dst c n = (\<lambda>a. if a - dst < ucast n then ucast c else m a)"
proof -
  have *: "fold (\<lambda>i m. m(dst + of_nat i := ucast c)) [0..<k] m =
     (\<lambda>a. if unat (a - dst) < k then ucast c else m a)" if "k < 2 ^ 32" for k
    using that
  proof (induction k)
    case (Suc k)
    have "unat (a - dst) < Suc k \<longleftrightarrow> a = dst + of_nat k \<or> unat (a - dst) < k" for a
      using Suc.prems unat_diff_iff [of k a dst] by (auto simp: less_Suc_eq)
    with Suc show ?case by (auto simp: fun_eq_iff)
  qed simp
  have "unat n < 2 ^ 32" using unat_u32_less [of n] by simp
  from * [OF this] show ?thesis
    by (simp add: memset_def word_less_nat_alt)
qed

lemma fold_copy_forward:
  assumes "n \<le> 2 ^ 64" "\<And>i j. i < j \<Longrightarrow> j < n \<Longrightarrow> src + of_nat j \<noteq> dst + of_nat i"
  shows "fold (copy_byte dst src) [0..<n] m =
     (\<lambda>a. if unat (a - dst) < n then m (src + (a - dst)) else m a)"
  by (subst fold_copy_byte) (use assms in \<open>auto simp: sorted_wrt_upt_iff\<close>)

lemma fold_copy_backward:
  assumes "n \<le> 2 ^ 64" "\<And>i j. i < j \<Longrightarrow> j < n \<Longrightarrow> src + of_nat i \<noteq> dst + of_nat j"
  shows "fold (copy_byte dst src) (rev [0..<n]) m =
     (\<lambda>a. if unat (a - dst) < n then m (src + (a - dst)) else m a)"
  by (subst fold_copy_byte) (use assms in \<open>auto simp: sorted_wrt_rev sorted_wrt_upt_iff\<close>)

lemma addr_neq_forward:
  fixes src dst :: u64
  assumes "src \<ge> dst \<or> unat src + n \<le> unat dst" "unat src + n \<le> 2 ^ 64" "unat dst + n \<le> 2 ^ 64"
    and "i < j" "j < n"
  shows "src + of_nat j \<noteq> dst + of_nat i"
proof
  assume "src + of_nat j = dst + of_nat i"
  then have "unat (src + of_nat j) = unat (dst + of_nat i)" by simp
  moreover have "unat (src + of_nat j) = unat src + j" "unat (dst + of_nat i) = unat dst + i"
    using assms by (simp_all add: unat_word_ariths unat_of_nat)
  ultimately show False using assms by (auto simp: word_le_nat_alt)
qed

lemma addr_neq_backward:
  fixes src dst :: u64
  assumes "src \<le> dst" "unat src + n \<le> 2 ^ 64" "unat dst + n \<le> 2 ^ 64"
    and "i < j" "j < n"
  shows "src + of_nat i \<noteq> dst + of_nat j"
proof
  assume "src + of_nat i = dst + of_nat j"
  then have "unat (src + of_nat i) = unat (dst + of_nat j)" by simp
  moreover have "unat (src + of_nat i) = unat src + i" "unat (dst + of_nat j) = unat dst + j"
    using assms by (simp_all add: unat_word_ariths unat_of_nat)
  ultimately show False using assms by (auto simp: word_le_nat_alt)
qed

lemma memmove_eq:
  assumes "unat src + unat n \<le> 2 ^ 64" "unat dst + unat n \<le> 2 ^ 64"
  shows "memmove m dst src n = copy_mem m dst src (unat n)"
proof -
  have n: "unat n \<le> 2 ^ 64" using unat_u32_less [of n] by simp
  consider "n = 0" | "n \<noteq> 0" "src < dst" "src + ucast n > dst"
    | "n \<noteq> 0" "\<not> (src < dst \<and> src + ucast n > dst)" by blast
  then show ?thesis
  proof cases
    case 2
    then show ?thesis
      using fold_copy_backward [OF n addr_neq_backward [of src dst "unat n"]] assms
      by (simp add: memmove_def copy_mem_def)
  next
    case 3
    have "src \<ge> dst \<or> unat src + unat n \<le> unat dst"
    proof (cases "src \<ge> dst")
      case False
      then have "unat src + unat n < 2 ^ 64" and "\<not> src + ucast n > dst"
        using 3 assms by (auto simp: word_le_nat_alt word_less_nat_alt)
      then show ?thesis
        by (simp add: word_less_nat_alt unat_word_ariths)
    qed simp
    then show ?thesis
      using 3 fold_copy_forward [OF n addr_neq_forward [of dst src "unat n"]] assms
      by (auto simp: memmove_def copy_mem_def)
  qed (simp add: memmove_def copy_mem_def)
qed

lemma nat_sint: "nat (sint (n :: u32)) = (if n < 2 ^ 31 then unat n else 0)"
proof (cases "n < 2 ^ 31")
  case True
  then have "uint n < 2 ^ 31" by (simp add: word_less_def)
  then have "sint n = uint n" using signed_take_bit_int_eq_self [of 31 "uint n"] order_trans [of "- (2 ^ 31)" 0 "uint n"] by (simp add: sint_uint)
  then show ?thesis using True by simp
next
  case False
  then have "2 ^ 31 \<le> uint n" by (simp add: word_less_def)
  moreover have "uint n < 2 ^ 32" using unsigned_less [of n, where ?'a = int] by simp
  ultimately have "signed_take_bit 31 (uint n) = uint n - 2 ^ 32"
    using signed_take_bit_int_eq_self [of 31 "uint n - 2 ^ 32"] signed_take_bit_diff [of 31 "uint n" "2 ^ 32"] by simp
  then have "sint n < 0" using \<open>uint n < 2 ^ 32\<close> by (simp add: sint_uint)
  then show ?thesis using False by simp
qed

lemma ulib_memmove_eq:
  assumes "unat vsrc + unat n \<le> 2 ^ 64" "unat vdst + unat n \<le> 2 ^ 64" "k = (if n < 2 ^ 31 then unat n else 0)"
  shows "ulib_memmove m vdst vsrc n = copy_mem m vdst vsrc k"
proof -
  have k: "k \<le> 2 ^ 64" "unat vsrc + k \<le> 2 ^ 64" "unat vdst + k \<le> 2 ^ 64" "nat (sint n) = k"
    using assms nat_sint [of n] by (auto split: if_splits)
  show ?thesis
  proof (cases "vsrc > vdst")
    case True
    then show ?thesis
      using fold_copy_forward [OF k(1) addr_neq_forward [of vdst vsrc k]] k
      by (simp add: ulib_memmove_def copy_mem_def order_less_imp_le)
  next
    case False
    then show ?thesis
      using fold_copy_backward [OF k(1) addr_neq_backward [of vsrc vdst k]] k
      by (simp add: ulib_memmove_def copy_mem_def)
  qed
qed

section \<open>NUL-terminated strings\<close>

text \<open>The string an array of \<open>n\<close> bytes holds: its bytes up to the first NUL.\<close>

definition cstr_n :: "bytes \<Rightarrow> nat \<Rightarrow> u8 list" where
  "cstr_n p n = takeWhile (\<lambda>c. c \<noteq> 0) (map p [0..<n])"

lemma map_upt_Suc_adv: "map p [0..<Suc n] = p 0 # map (adv p) [0..<n]"
  by (simp add: map_upt_Suc adv_def del: upt_Suc)

lemma cstr_n_Suc: "cstr_n p (Suc n) = (if p 0 = 0 then [] else p 0 # cstr_n (adv p) n)"
  by (simp add: cstr_n_def map_upt_Suc_adv del: upt_Suc)

lemma cstr_n_0 [simp]: "cstr_n p 0 = []"
  by (simp add: cstr_n_def)

lemma cstr_n_cong:
  "(\<And>x. x < n \<Longrightarrow> (\<forall>j < x. p j \<noteq> 0) \<Longrightarrow> p x = q x) \<Longrightarrow> cstr_n p n = cstr_n q n"
proof (induction n arbitrary: p q)
  case (Suc n)
  have 0: "p 0 = q 0" using Suc.prems [of 0] by simp
  have "cstr_n (adv p) n = cstr_n (adv q) n" if "p 0 \<noteq> 0"
  proof (rule Suc.IH)
    fix x assume "x < n" "\<forall>j < x. adv p j \<noteq> 0"
    then have "\<forall>j < Suc x. p j \<noteq> 0" using that by (auto simp: adv_def less_Suc_eq_0_disj)
    then show "adv p x = adv q x" using Suc.prems [of "Suc x"] \<open>x < n\<close> by (simp add: adv_def)
  qed
  with 0 show ?case by (auto simp: cstr_n_Suc)
qed simp

lemma cstr_n_stop: "(\<forall>j < k. p j \<noteq> 0) \<Longrightarrow> k \<le> n \<Longrightarrow> k < n \<longrightarrow> p k = 0 \<Longrightarrow> cstr_n p n = map p [0..<k]"
proof (induction k arbitrary: p n)
  case (Suc k)
  then obtain m where m: "n = Suc m" by (cases n) auto
  have "cstr_n (adv p) m = map (adv p) [0..<k]"
    by (rule Suc.IH) (use Suc.prems m in \<open>auto simp: adv_def\<close>)
  moreover have "p 0 \<noteq> 0" using Suc.prems by auto
  ultimately show ?case using m by (simp add: cstr_n_Suc map_upt_Suc_adv del: upt_Suc)
next
  case 0
  then show ?case by (cases n) (auto simp: cstr_n_Suc)
qed

lemma strncmp_less: "strncmp p q n < 0 \<longleftrightarrow> (cstr_n p n, cstr_n q n) \<in> lexord {(a, b). a < b}"
proof (induction p q n rule: strncmp.induct)
  case (2 p q n)
  then show ?case by (auto simp: cstr_n_Suc word_less_def uint_0_iff order_less_le)
qed simp

lemma strncmp_eq_0: "strncmp p q n = 0 \<longleftrightarrow> cstr_n p n = cstr_n q n"
proof (induction p q n rule: strncmp.induct)
  case (2 p q n)
  then show ?case by (auto simp: cstr_n_Suc uint_0_iff dest: word_uint_eqI)
qed simp

lemma memcmp_eq_0: "memcmp s1 s2 n = 0 \<longleftrightarrow> map s1 [0..<n] = map s2 [0..<n]"
proof (induction n arbitrary: s1 s2)
  case (Suc n)
  show ?case
    by (cases "s1 0 = s2 0") (simp_all only: memcmp.simps map_upt_Suc_adv Suc.IH if_True if_False
        simp_thms list.inject uint_diff_0)
qed simp

lemma strncpy_pad_apply: "strncpy_pad s i n x = (if i \<le> x \<and> x < i + n then 0 else s x)"
  by (induction n arbitrary: s i) auto

lemma strncpy_loops_apply:
  "(case strncpy_copy s t i n of (s, i, k) \<Rightarrow> strncpy_pad s i k) x =
     (if i \<le> x \<and> x < i + n then (if \<forall>j \<in> {i..x}. t j \<noteq> 0 then t x else 0) else s x)"
proof (induction n arbitrary: s i)
  case (Suc n)
  show ?case
  proof (cases "t i = 0")
    case True
    then show ?thesis by (auto simp: strncpy_pad_apply)
  next
    case False
    have "{i..x} = (if i \<le> x then insert i {Suc i..x} else {})"
      by auto
    with False show ?thesis by (simp add: Suc.IH)
  qed
qed auto

lemma strncpy_copies_and_pads:
  "strncpy s t n =
     (\<lambda>x. if x < nat n then (if \<forall>j \<in> {0..x}. t j \<noteq> 0 then t x else 0) else s x)"
  by (rule ext) (simp add: strncpy_def strncpy_loops_apply)

lemma strncpy_strncmp: "strncmp (strncpy s t (int n)) t n = 0"
proof (subst strncmp_eq_0, rule cstr_n_cong)
  fix x assume "x < n" and nz: "\<forall>j < x. strncpy s t (int n) j \<noteq> 0"
  then have "\<forall>j < x. t j \<noteq> 0"
    by (auto simp: strncpy_copies_and_pads split: if_splits)
  then show "strncpy s t (int n) x = t x"
    using \<open>x < n\<close> by (auto simp: strncpy_copies_and_pads le_less)
qed

lemma strlen_from_Some:
  assumes "s n = 0" "i \<le> n" "\<And>j. i \<le> j \<Longrightarrow> j < n \<Longrightarrow> s j \<noteq> 0"
  shows "strlen_from s i = Some n"
  using assms(2,3)
proof (induction rule: inc_induct)
  case base
  then show ?case using assms(1) by (simp add: strlen_from.simps)
next
  case (step i)
  then show ?case by (simp add: strlen_from.simps [of s i])
qed

lemma strlen_from_SomeD:
  assumes "strlen_from s i = Some n"
  shows "s n = 0 \<and> i \<le> n \<and> (\<forall>j. i \<le> j \<and> j < n \<longrightarrow> s j \<noteq> 0)"
proof (rule strlen_from.raw_induct [where P = "\<lambda>s i n. s n = 0 \<and> i \<le> n \<and> (\<forall>j. i \<le> j \<and> j < n \<longrightarrow> s j \<noteq> 0)", OF _ assms])
  fix f s i n
  assume IH: "\<And>s i n. f s i = Some n \<Longrightarrow> s n = 0 \<and> i \<le> n \<and> (\<forall>j. i \<le> j \<and> j < n \<longrightarrow> s j \<noteq> 0)"
    and eq: "(if s i = 0 then Some i else f s (Suc i)) = Some n"
  show "s n = 0 \<and> i \<le> n \<and> (\<forall>j. i \<le> j \<and> j < n \<longrightarrow> s j \<noteq> 0)"
  proof (cases "s i = 0")
    case False
    with eq have *: "s n = 0 \<and> Suc i \<le> n \<and> (\<forall>j. Suc i \<le> j \<and> j < n \<longrightarrow> s j \<noteq> 0)"
      by (intro IH) simp
    have "s j \<noteq> 0" if "i \<le> j" "j < n" for j
      using * that False by (cases "j = i") auto
    with * show ?thesis by simp
  qed (use eq in auto)
qed

lemma strlen_iff: "strlen s = Some n \<longleftrightarrow> s n = 0 \<and> (\<forall>i < n. s i \<noteq> 0)"
proof
  assume "strlen s = Some n"
  then show "s n = 0 \<and> (\<forall>i < n. s i \<noteq> 0)"
    using strlen_from_SomeD [of s 0 n] by (simp add: strlen_def)
next
  assume "s n = 0 \<and> (\<forall>i < n. s i \<noteq> 0)"
  then show "strlen s = Some n"
    unfolding strlen_def by (intro strlen_from_Some) simp_all
qed

lemma atoi_from_digits:
  assumes "\<And>j. i \<le> j \<Longrightarrow> j < k \<Longrightarrow> 0x30 \<le> s j \<and> s j \<le> 0x39" "i \<le> k" "\<not> (0x30 \<le> s k \<and> s k \<le> 0x39)"
  shows "atoi_from s i n = Some (foldl (\<lambda>v j. v * 10 + (ucast (s j) - 0x30)) n [i..<k])"
  using assms(2,1)
proof (induction arbitrary: n rule: inc_induct)
  case base
  then show ?case using assms(3) by (subst atoi_from.simps) auto
next
  case (step i)
  then show ?case by (subst atoi_from.simps) (simp add: upt_conv_Cons algebra_simps)
qed

lemma safestrcpy_copy_no_nul:
  "(\<forall>j \<in> {i..<i + n}. t j \<noteq> 0) \<Longrightarrow>
     safestrcpy_copy s t i n = (\<lambda>x. if i \<le> x \<and> x < i + n then t x else s x, i + n)"
proof (induction n arbitrary: s i)
  case (Suc n)
  then have "t i \<noteq> 0" "\<forall>j \<in> {Suc i..<Suc i + n}. t j \<noteq> 0" by auto
  then show ?case by (auto simp: Suc.IH fun_eq_iff)
qed (auto simp: fun_eq_iff)

lemma safestrcpy_copy_nul:
  "t k = 0 \<Longrightarrow> i \<le> k \<Longrightarrow> k < i + n \<Longrightarrow> (\<forall>j \<in> {i..<k}. t j \<noteq> 0) \<Longrightarrow>
     safestrcpy_copy s t i n = (\<lambda>x. if i \<le> x \<and> x \<le> k then t x else s x, Suc k)"
proof (induction n arbitrary: s i)
  case (Suc n)
  show ?case
  proof (cases "i = k")
    case True
    with Suc.prems show ?thesis by (auto simp: fun_eq_iff)
  next
    case False
    with Suc.prems have "t i \<noteq> 0" "Suc i \<le> k" "k < Suc i + n" "\<forall>j \<in> {Suc i..<k}. t j \<noteq> 0" by auto
    with Suc.prems(1) show ?thesis by (auto simp: Suc.IH fun_eq_iff)
  qed
qed simp

lemma safestrcpy_terminates:
  assumes "0 < n"
  shows "cstr_n (safestrcpy s t n) (nat n) = cstr_n t (nat n - 1)"
    and "length (cstr_n (safestrcpy s t n) (nat n)) < nat n"
    and "nat n \<le> x \<Longrightarrow> safestrcpy s t n x = s x"
proof -
  define m where "m = nat n - 1"
  have n: "nat n = Suc m" "nat (n - 1) = m" using assms by (auto simp: m_def)
  have eq: "safestrcpy s t n = (case safestrcpy_copy s t 0 m of (s, i) \<Rightarrow> s(i := 0))"
    using assms n by (simp add: safestrcpy_def)
  consider (no) "\<forall>j \<in> {0..<0 + m}. t j \<noteq> 0"
    | (nul) k where "k < m" "t k = 0" "\<forall>j \<in> {0..<k}. t j \<noteq> 0"
    using exists_least_iff [of "\<lambda>k. t k = 0 \<and> k < m"] by fastforce
  then have "cstr_n (safestrcpy s t n) (Suc m) = cstr_n t m \<and> length (cstr_n t m) \<le> m \<and>
    (Suc m \<le> x \<longrightarrow> safestrcpy s t n x = s x)"
  proof cases
    case no
    have "cstr_n (safestrcpy s t n) (Suc m) = map (safestrcpy s t n) [0..<m]"
      by (rule cstr_n_stop) (use no in \<open>auto simp: eq safestrcpy_copy_no_nul [OF no]\<close>)
    moreover have "cstr_n t m = map t [0..<m]"
      by (rule cstr_n_stop) (use no in auto)
    ultimately show ?thesis by (auto simp: eq safestrcpy_copy_no_nul [OF no])
  next
    case nul
    note copy = safestrcpy_copy_nul [OF nul(2) _ _ nul(3), of m s]
    have "cstr_n (safestrcpy s t n) (Suc m) = map (safestrcpy s t n) [0..<k]"
      by (rule cstr_n_stop) (use nul in \<open>auto simp: eq copy\<close>)
    moreover have "cstr_n t m = map t [0..<k]"
      by (rule cstr_n_stop) (use nul in auto)
    ultimately show ?thesis using nul by (auto simp: eq copy)
  qed
  then show "cstr_n (safestrcpy s t n) (nat n) = cstr_n t (nat n - 1)"
    "length (cstr_n (safestrcpy s t n) (nat n)) < nat n"
    "nat n \<le> x \<Longrightarrow> safestrcpy s t n x = s x"
    using n by auto
qed

section \<open>Properties\<close>

text \<open>
  C38: \<open>memmove\<close> of the kernel and \<open>memmove\<close> of the user library both give the
  destination the bytes the source held before the call and change nothing else, also when the
  two regions overlap in either direction, as long as neither region wraps around the
  address space. The length of the one of the user library is an \<open>int\<close>: a length of \<open>2 ^ 31\<close> or more is negative
  there and nothing is copied, also when \<open>memcpy\<close> is called with it as a \<open>uint\<close>.
\<close>

theorem memmove_overlap:
  assumes "unat src + unat n \<le> 2 ^ 64" and "unat dst + unat n \<le> 2 ^ 64"
  shows "memmove m dst src n = copy_mem m dst src (unat n)
    \<and> ulib_memmove m dst src n = (if n < 2 ^ 31 then copy_mem m dst src (unat n) else m)
    \<and> ulib_memcpy m dst src n = ulib_memmove m dst src n"
  using memmove_eq [OF assms] ulib_memmove_eq [OF assms refl] by (simp add: ulib_memcpy_def copy_mem_def)

theorem memmove_overlap_witness:
  "unat (0x1000 :: u64) + unat (8 :: u32) \<le> 2 ^ 64
   \<and> memmove (\<lambda>a. ucast a) 0x1004 0x1000 8 0x1007 = 3
   \<and> ulib_memmove (\<lambda>a. ucast a) 0x1004 0x1000 8 0x1007 = 3
   \<and> ulib_memcpy (\<lambda>a. ucast a) 0x1004 0x1000 0x80000000 0x1007 = 7"
proof -
  have "memmove (\<lambda>a. ucast a) 0x1004 0x1000 8 = copy_mem (\<lambda>a. ucast a) 0x1004 0x1000 (unat (8 :: u32))
    \<and> ulib_memmove (\<lambda>a. ucast a) 0x1004 0x1000 8 =
        (if (8 :: u32) < 2 ^ 31 then copy_mem (\<lambda>a. ucast a) 0x1004 0x1000 (unat (8 :: u32)) else (\<lambda>a. ucast a))
    \<and> ulib_memcpy (\<lambda>a. ucast a) 0x1004 0x1000 8 = ulib_memmove (\<lambda>a. ucast a) 0x1004 0x1000 8"
    by (rule memmove_overlap) simp_all
  moreover have "ulib_memcpy (\<lambda>a. ucast a) 0x1004 0x1000 0x80000000 = (\<lambda>a. ucast a)"
    using memmove_overlap [where src = "0x1000" and n = "0x80000000" and dst = "0x1004" and m = "\<lambda>a. ucast a"] by simp
  ultimately show ?thesis by (simp add: copy_mem_def)
qed

text \<open>
  C39: \<open>strncmp p q n\<close> compares the strings in the first \<open>n\<close> bytes of its arguments: it is
  zero exactly when they are equal and negative exactly when the first is before the second in
  lexicographic order of unsigned bytes; and a name stored with \<open>strncpy\<close> compares equal to
  the name it was copied from, so that a directory entry is found again.
\<close>

theorem strncmp_orders_names:
  "(strncmp p q n = 0 \<longleftrightarrow> cstr_n p n = cstr_n q n)
   \<and> (strncmp p q n < 0 \<longleftrightarrow> (cstr_n p n, cstr_n q n) \<in> lexord {(a, b). a < b})
   \<and> strncmp (strncpy s p (int n)) p n = 0"
  by (simp add: strncmp_eq_0 strncmp_less strncpy_strncmp)

text \<open>
  C40: \<open>safestrcpy\<close> into a buffer of \<open>n > 0\<close> bytes leaves a NUL-terminated string there,
  namely the source's first \<open>n - 1\<close> bytes up to its NUL, and writes nothing outside the buffer.
\<close>

theorem safestrcpy_bounded:
  assumes "0 < n"
  shows "cstr_n (safestrcpy s t n) (nat n) = cstr_n t (nat n - 1)
    \<and> length (cstr_n (safestrcpy s t n) (nat n)) < nat n
    \<and> (nat n \<le> x \<longrightarrow> safestrcpy s t n x = s x)"
  using safestrcpy_terminates [OF assms, where s = s and t = t] by blast

theorem safestrcpy_bounded_witness:
  "cstr_n (safestrcpy (\<lambda>_. 7) (\<lambda>i. if i < 20 then 0x61 else 0) 16) 16 = replicate 15 0x61
   \<and> safestrcpy (\<lambda>_. 7) (\<lambda>i. if i < 20 then 0x61 else 0) 16 16 = 7"
proof -
  have "cstr_n (safestrcpy (\<lambda>_. 7) (\<lambda>i. if i < 20 then 0x61 else 0) 16) (nat 16) =
      cstr_n (\<lambda>i. if i < 20 then 0x61 else 0) (nat 16 - 1)
    \<and> length (cstr_n (safestrcpy (\<lambda>_. 7) (\<lambda>i. if i < 20 then 0x61 else 0) 16) (nat 16)) < nat 16
    \<and> (nat 16 \<le> 16 \<longrightarrow> safestrcpy (\<lambda>_. 7) (\<lambda>i. if i < 20 then 0x61 else 0) 16 16 = 7)"
    by (rule safestrcpy_bounded) simp
  moreover have "cstr_n (\<lambda>i. if i < 20 then 0x61 else 0) 15 = replicate 15 0x61"
    by (subst cstr_n_stop [of 15]) (auto intro: nth_equalityI)
  ultimately show ?thesis by simp
qed

end
