(* ===== verification/Layout.thy ===== *)
theory Layout
  imports CString
begin

text \<open>
  The constants and address macros of \<^verbatim>\<open>kernel/param.h\<close>, \<^verbatim>\<open>kernel/memlayout.h\<close> and the end
  of \<^verbatim>\<open>kernel/riscv.h\<close>, the machine state every component shares, and the arithmetic of pages.
\<close>

section \<open>Parameters\<close>

definition NPROC :: nat where [simp]: "NPROC = 64"
definition NCPU :: nat where [simp]: "NCPU = 8"
definition NOFILE :: nat where [simp]: "NOFILE = 16"
definition NFILE :: nat where [simp]: "NFILE = 100"
definition NINODE :: nat where [simp]: "NINODE = 50"
definition NDEV :: nat where [simp]: "NDEV = 10"
definition ROOTDEV :: u32 where [simp]: "ROOTDEV = 1"
definition MAXARG :: nat where [simp]: "MAXARG = 32"
definition MAXOPBLOCKS :: nat where [simp]: "MAXOPBLOCKS = 10"
definition LOGSIZE :: nat where [simp]: "LOGSIZE = MAXOPBLOCKS * 3"
definition NBUF :: nat where [simp]: "NBUF = MAXOPBLOCKS * 3"
definition FSSIZE :: nat where [simp]: "FSSIZE = 2000"
definition MAXPATH :: nat where [simp]: "MAXPATH = 128"

section \<open>Pages and addresses\<close>

definition PGSIZE :: u64 where [simp]: "PGSIZE = 4096"
definition PGSHIFT :: nat where [simp]: "PGSHIFT = 12"

definition PGROUNDUP :: "u64 \<Rightarrow> u64" where
  "PGROUNDUP sz = (sz + PGSIZE - 1) AND NOT (PGSIZE - 1)"

definition PGROUNDDOWN :: "u64 \<Rightarrow> u64" where
  "PGROUNDDOWN a = a AND NOT (PGSIZE - 1)"

definition MAXVA :: u64 where [simp]: "MAXVA = 0x4000000000"

definition KERNBASE :: u64 where [simp]: "KERNBASE = 0x80000000"
definition PHYSTOP :: u64 where [simp]: "PHYSTOP = KERNBASE + 128 * 1024 * 1024"
definition TRAMPOLINE :: u64 where [simp]: "TRAMPOLINE = MAXVA - PGSIZE"
definition TRAPFRAME :: u64 where [simp]: "TRAPFRAME = TRAMPOLINE - PGSIZE"

definition KSTACK :: "nat \<Rightarrow> u64" where
  "KSTACK p = TRAMPOLINE - (of_nat p + 1) * 2 * PGSIZE"

definition UART0 :: u64 where [simp]: "UART0 = 0x10000000"
definition VIRTIO0 :: u64 where [simp]: "VIRTIO0 = 0x10001000"
definition PLIC :: u64 where [simp]: "PLIC = 0x0c000000"

section \<open>The machine\<close>

text \<open>
  Physical memory, and the addresses the linker gives to the symbols \<open>end\<close>, \<open>etext\<close> and
  \<open>trampoline\<close>.
\<close>

record machine =
  mem :: memory
  k_end :: u64
  k_etext :: u64
  k_trampoline :: u64

section \<open>Arithmetic of pages\<close>

definition page_of :: "u64 \<Rightarrow> nat" where
  "page_of a = unat a div 4096"

definition page_aligned :: "u64 \<Rightarrow> bool" where
  "page_aligned p \<longleftrightarrow> p mod PGSIZE = 0"

lemma unat_u64_less: "unat (a :: u64) < 18446744073709551616"
  using unsigned_less [of a] by (simp add: unsigned_less)

lemma page_aligned_unat: "page_aligned p \<longleftrightarrow> unat p mod 4096 = 0"
  by (simp add: page_aligned_def word_unat_eq_iff unat_mod_distrib)

lemma PGROUNDDOWN_shift: "PGROUNDDOWN a = push_bit 12 (drop_bit 12 a)"
proof -
  have "PGSIZE - 1 = mask 12" by (simp add: mask_eq_exp_minus_1)
  then have "PGROUNDDOWN a = a AND NOT (mask 12)" by (simp only: PGROUNDDOWN_def)
  also have "\<dots> = push_bit 12 (drop_bit 12 a)"
    by (rule bit_word_eqI) (auto simp: bit_simps)
  finally show ?thesis .
qed

lemma unat_PGROUNDDOWN [page_simps]: "unat (PGROUNDDOWN a) = 4096 * (unat a div 4096)"
proof -
  have "unat a div 4096 * 4096 < 18446744073709551616"
    using unat_u64_less [of a] by linarith
  then show ?thesis
    by (simp only: PGROUNDDOWN_shift unsigned_push_bit_eq unat_drop_bit_eq)
      (simp add: push_bit_eq_mult drop_bit_eq_div take_bit_nat_eq_self)
qed

lemma unat_PGROUNDUP [page_simps]:
  "unat sz \<le> 18446744073709551616 - 4096 \<Longrightarrow> unat (PGROUNDUP sz) = 4096 * ((unat sz + 4095) div 4096)"
proof -
  assume "unat sz \<le> 18446744073709551616 - 4096"
  then have "unat (sz + 4095) = unat sz + 4095"
    by (simp add: unat_word_ariths)
  moreover have "PGROUNDUP sz = PGROUNDDOWN (sz + 4095)"
    by (simp add: PGROUNDUP_def PGROUNDDOWN_def add.commute)
  ultimately show ?thesis by (simp add: unat_PGROUNDDOWN)
qed

lemma page_aligned_PGROUNDDOWN [page_simps, simp]: "page_aligned (PGROUNDDOWN a)"
  by (simp add: page_aligned_unat unat_PGROUNDDOWN)

lemma page_aligned_PGROUNDUP [page_simps, simp]: "page_aligned (PGROUNDUP a)"
  using page_aligned_PGROUNDDOWN [of "a + 4095"] by (simp add: PGROUNDUP_def PGROUNDDOWN_def add.commute)

lemma page_of_PGROUNDDOWN [page_simps, simp]: "page_of (PGROUNDDOWN a) = page_of a"
  by (simp add: page_of_def unat_PGROUNDDOWN)

lemma PGROUNDDOWN_le: "unat (PGROUNDDOWN a) \<le> unat a"
  by (simp add: unat_PGROUNDDOWN)

lemma page_of_inject: "page_aligned p \<Longrightarrow> page_aligned q \<Longrightarrow> page_of p = page_of q \<longleftrightarrow> p = q"
  by (auto simp: page_of_def page_aligned_unat word_unat_eq_iff)

lemma page_offset_unat:
  "page_aligned p \<Longrightarrow> i < 4096 \<Longrightarrow> unat (p + of_nat i) = unat p + i"
proof -
  assume "page_aligned p" "i < 4096"
  moreover have "unat p < 18446744073709551616" by (rule unat_u64_less)
  ultimately have "unat p + i < 18446744073709551616"
    by (auto simp: page_aligned_unat simp flip: dvd_eq_mod_eq_0)
  then show ?thesis using \<open>i < 4096\<close> by (simp add: unat_word_ariths unat_of_nat)
qed

lemma page_of_offset [page_simps]:
  "page_aligned p \<Longrightarrow> i < 4096 \<Longrightarrow> page_of (p + of_nat i) = page_of p"
  by (auto simp: page_of_def page_offset_unat page_aligned_unat simp flip: dvd_eq_mod_eq_0)

lemma diff_less_page [page_simps]:
  "page_aligned p \<Longrightarrow> a - p < 4096 \<longleftrightarrow> page_of a = page_of p"
proof
  assume p: "page_aligned p" and "a - p < 4096"
  then have "unat (a - p) < 4096" by (simp add: word_less_nat_alt)
  then have "page_of (p + of_nat (unat (a - p))) = page_of p" by (rule page_of_offset [OF p])
  then show "page_of a = page_of p" by simp
next
  assume p: "page_aligned p" and "page_of a = page_of p"
  then have "unat a = unat p + unat a mod 4096"
    by (metis page_of_def page_aligned_unat add_0_right mult_div_mod_eq)
  then have "a = p + of_nat (unat a mod 4096)"
    using page_offset_unat [OF p, of "unat a mod 4096"] by (simp add: word_unat_eq_iff)
  then have "unat (a - p) = unat a mod 4096"
    using unat_diff_iff [of "unat a mod 4096" a p] by simp
  then show "a - p < 4096" by (simp add: word_less_nat_alt)
qed

end
