(* ===== verification/Spinlock.thy ===== *)
theory Spinlock
  imports Layout
begin

text \<open>
  Spin locks, \<^verbatim>\<open>kernel/spinlock.c\<close>, and the per-CPU state of \<^verbatim>\<open>kernel/proc.h\<close> that they use. CPUs run
  concurrently: \<open>lock_step\<close> interleaves the atomic actions of \<open>acquire\<close> and \<open>release\<close> on any number
  of CPUs and locks. Its invariant gives mutual exclusion, which is what lets the other
  theories treat a critical section as one step. Memory is sequentially consistent here; the
  fences of the code are what makes that adequate on RISC-V.

  A lock is named by its offset in the physical memory between \<open>KERNBASE\<close> and \<open>PHYSTOP\<close>, which has
  \<open>2 ^ 27\<close> bytes. There are thus fewer locks than an \<open>int\<close> can count, and \<open>noff\<close>, which wraps like one, does not
  overflow by holding locks.
\<close>

section \<open>Model\<close>

type_synonym lockaddr = "27 word"

record kcontext =
  c_ra :: u64
  c_sp :: u64
  c_s :: "nat \<Rightarrow> u64"

record cpu =
  cproc :: "nat option"
  ccontext :: kcontext
  noff :: int
  intena :: bool
  sie :: bool

record spinlock =
  locked :: u32
  lname :: string
  lcpu :: "nat option"

definition initlock :: "spinlock \<Rightarrow> string \<Rightarrow> spinlock" where
  "initlock lk nm = lk\<lparr>lname := nm, locked := 0, lcpu := None\<rparr>"

text \<open>\<open>holding\<close>, on CPU \<open>c\<close>.\<close>

definition holding :: "spinlock \<Rightarrow> nat \<Rightarrow> bool" where
  "holding lk c \<longleftrightarrow> locked lk \<noteq> 0 \<and> lcpu lk = Some c"

definition push_off :: "cpu \<Rightarrow> cpu" where
  "push_off c =
     (let old = sie c;
          c = c\<lparr>sie := False\<rparr>;
          c = (if noff c = 0 then c\<lparr>intena := old\<rparr> else c)
      in c\<lparr>noff := c_int (noff c + 1)\<rparr>)"

definition pop_off :: "cpu \<Rightarrow> cpu option" where
  "pop_off c =
     (if sie c then None
      else if noff c < 1 then None
      else let c = c\<lparr>noff := c_int (noff c - 1)\<rparr> in
        Some (if noff c = 0 \<and> intena c then c\<lparr>sie := True\<rparr> else c))"

text \<open>
  Where a CPU is: \<open>Out\<close> of the lock routines, or before the named action of \<open>acquire\<close> or
  \<open>release\<close> on a lock. \<open>owned\<close> is a history variable: the locks a CPU has taken by its swap and
  not yet given back.
\<close>

datatype pc = Out
  | Acq_holding lockaddr | Acq_swap lockaddr | Acq_cpu lockaddr
  | Rel_holding lockaddr | Rel_cpu lockaddr | Rel_unlock lockaddr | Rel_pop
  | Panicked

record sys =
  locks :: "lockaddr \<Rightarrow> spinlock"
  cpus :: "nat \<Rightarrow> cpu"
  pcs :: "nat \<Rightarrow> pc"
  owned :: "nat \<Rightarrow> lockaddr set"

abbreviation set_lock :: "lockaddr \<Rightarrow> spinlock \<Rightarrow> sys \<Rightarrow> sys" where
  "set_lock l v s \<equiv> s\<lparr>locks := (locks s)(l := v)\<rparr>"

abbreviation set_cpu :: "nat \<Rightarrow> cpu \<Rightarrow> sys \<Rightarrow> sys" where
  "set_cpu c v s \<equiv> s\<lparr>cpus := (cpus s)(c := v)\<rparr>"

abbreviation goto :: "nat \<Rightarrow> pc \<Rightarrow> sys \<Rightarrow> sys" where
  "goto c v s \<equiv> s\<lparr>pcs := (pcs s)(c := v)\<rparr>"

abbreviation set_owned :: "nat \<Rightarrow> lockaddr set \<Rightarrow> sys \<Rightarrow> sys" where
  "set_owned c v s \<equiv> s\<lparr>owned := (owned s)(c := v)\<rparr>"

inductive lock_step :: "sys \<Rightarrow> sys \<Rightarrow> bool" where
  acquire_push: "pcs s c = Out \<Longrightarrow>
    lock_step s (goto c (Acq_holding l) (set_cpu c (push_off (cpus s c)) s))"
| acquire_panic: "pcs s c = Acq_holding l \<Longrightarrow> holding (locks s l) c \<Longrightarrow> lock_step s (goto c Panicked s)"
| acquire_ok: "pcs s c = Acq_holding l \<Longrightarrow> \<not> holding (locks s l) c \<Longrightarrow> lock_step s (goto c (Acq_swap l) s)"
| acquire_spin: "pcs s c = Acq_swap l \<Longrightarrow> locked (locks s l) \<noteq> 0 \<Longrightarrow>
    lock_step s (set_lock l ((locks s l)\<lparr>locked := 1\<rparr>) s)"
| acquire_swap: "pcs s c = Acq_swap l \<Longrightarrow> locked (locks s l) = 0 \<Longrightarrow>
    lock_step s (goto c (Acq_cpu l) (set_owned c (insert l (owned s c))
      (set_lock l ((locks s l)\<lparr>locked := 1\<rparr>) s)))"
| acquire_cpu: "pcs s c = Acq_cpu l \<Longrightarrow>
    lock_step s (goto c Out (set_lock l ((locks s l)\<lparr>lcpu := Some c\<rparr>) s))"
| release_call: "pcs s c = Out \<Longrightarrow> lock_step s (goto c (Rel_holding l) s)"
| release_panic: "pcs s c = Rel_holding l \<Longrightarrow> \<not> holding (locks s l) c \<Longrightarrow> lock_step s (goto c Panicked s)"
| release_ok: "pcs s c = Rel_holding l \<Longrightarrow> holding (locks s l) c \<Longrightarrow> lock_step s (goto c (Rel_cpu l) s)"
| release_cpu: "pcs s c = Rel_cpu l \<Longrightarrow>
    lock_step s (goto c (Rel_unlock l) (set_lock l ((locks s l)\<lparr>lcpu := None\<rparr>) s))"
| release_unlock: "pcs s c = Rel_unlock l \<Longrightarrow>
    lock_step s (goto c Rel_pop (set_owned c (owned s c - {l}) (set_lock l ((locks s l)\<lparr>locked := 0\<rparr>) s)))"
| release_pop: "pcs s c = Rel_pop \<Longrightarrow> pop_off (cpus s c) = Some v \<Longrightarrow> lock_step s (goto c Out (set_cpu c v s))"
| release_pop_panic: "pcs s c = Rel_pop \<Longrightarrow> pop_off (cpus s c) = None \<Longrightarrow> lock_step s (goto c Panicked s)"
| interrupts: "pcs s c = Out \<Longrightarrow> noff (cpus s c) = 0 \<Longrightarrow>
    lock_step s (set_cpu c ((cpus s c)\<lparr>sie := b\<rparr>) s)"

inductive_cases lock_stepE: "lock_step s s'"

text \<open>All locks initialised, no CPU in the lock routines.\<close>

definition lock_start :: "sys \<Rightarrow> bool" where
  "lock_start s \<longleftrightarrow> (\<forall>l. \<exists>lk nm. locks s l = initlock lk nm)
     \<and> (\<forall>c. noff (cpus s c) = 0 \<and> pcs s c = Out \<and> owned s c = {})"

section \<open>Invariant\<close>

text \<open>A push that is not yet matched by an owned lock.\<close>

fun pending :: "pc \<Rightarrow> int" where
  "pending (Acq_holding l) = 1"
| "pending (Acq_swap l) = 1"
| "pending Rel_pop = 1"
| "pending _ = 0"

text \<open>The actions during which an owner is not recorded in the lock's \<open>cpu\<close> field.\<close>

definition unrecorded :: "pc \<Rightarrow> lockaddr \<Rightarrow> bool" where
  "unrecorded p l \<longleftrightarrow> p = Acq_cpu l \<or> p = Rel_unlock l"

definition lock_inv :: "sys \<Rightarrow> bool" where
  "lock_inv s \<longleftrightarrow>
     (\<forall>l c d. l \<in> owned s c \<longrightarrow> l \<in> owned s d \<longrightarrow> c = d)
     \<and> (\<forall>l. locked (locks s l) \<noteq> 0 \<longleftrightarrow> (\<exists>c. l \<in> owned s c))
     \<and> (\<forall>l c. lcpu (locks s l) = Some c \<longleftrightarrow> l \<in> owned s c \<and> \<not> unrecorded (pcs s c) l)
     \<and> (\<forall>l c. pcs s c = Acq_cpu l \<or> pcs s c = Rel_cpu l \<or> pcs s c = Rel_unlock l \<longrightarrow> l \<in> owned s c)
     \<and> (\<forall>l c. pcs s c = Acq_swap l \<longrightarrow> l \<notin> owned s c)
     \<and> (\<forall>c. finite (owned s c))
     \<and> (\<forall>c. pcs s c \<noteq> Panicked \<longrightarrow> noff (cpus s c) = int (card (owned s c)) + pending (pcs s c))
     \<and> (\<forall>c. 0 < noff (cpus s c) \<longrightarrow> \<not> sie (cpus s c))"

lemma lock_start_inv: "lock_start s \<Longrightarrow> lock_inv s"
proof -
  assume s: "lock_start s"
  have "locked (locks s l) = 0 \<and> lcpu (locks s l) = None" for l
  proof -
    obtain lk nm where "locks s l = initlock lk nm" using s unfolding lock_start_def by blast
    then show ?thesis by (simp add: initlock_def)
  qed
  with s show ?thesis by (simp add: lock_inv_def lock_start_def)
qed

lemma push_off_simps [simp]:
  "0 \<le> noff c \<Longrightarrow> noff c < 2 ^ 31 - 1 \<Longrightarrow> noff (push_off c) = noff c + 1" "sie (push_off c) = False"
  by (simp_all add: push_off_def Let_def c_int_small)

lemma pop_off_simps:
  "pop_off c = Some c' \<Longrightarrow> noff c < 2 ^ 31 \<Longrightarrow> noff c' = noff c - 1 \<and> 0 < noff c \<and> (0 < noff c' \<longrightarrow> \<not> sie c')"
  by (auto simp: pop_off_def Let_def c_int_small split: if_splits)

text \<open>Fewer locks than an \<open>int\<close> can count.\<close>

lemma owned_less: "int (card (X :: lockaddr set)) < 2 ^ 30"
proof -
  have "card X \<le> card (UNIV :: lockaddr set)" by (rule card_mono) simp_all
  also have "\<dots> = 2 ^ 27" by (simp add: card_word)
  finally show ?thesis by simp
qed

lemma lock_inv_step:
  assumes "lock_step s s'" "lock_inv s"
  shows "lock_inv s'"
  using assms
proof (induction rule: lock_step.induct)
  case (acquire_push s c l)
  then have "noff (cpus s c) = int (card (owned s c))" by (auto simp: lock_inv_def)
  then have "noff (push_off (cpus s c)) = int (card (owned s c)) + 1" using owned_less [of "owned s c"] by simp
  with acquire_push show ?case by (auto simp: lock_inv_def unrecorded_def)
next
  case (acquire_panic s c l)
  then show ?case by (auto simp: lock_inv_def unrecorded_def)
next
  case (acquire_ok s c l)
  then show ?case by (auto simp: lock_inv_def unrecorded_def holding_def)
next
  case (acquire_spin s c l)
  then show ?case by (auto simp: lock_inv_def unrecorded_def)
next
  case (acquire_swap s c l)
  then show ?case by (auto simp: lock_inv_def unrecorded_def)
next
  case (acquire_cpu s c l)
  then show ?case by (auto simp: lock_inv_def unrecorded_def)
next
  case (release_call s c l)
  then show ?case by (auto simp: lock_inv_def unrecorded_def)
next
  case (release_panic s c l)
  then show ?case by (auto simp: lock_inv_def unrecorded_def)
next
  case (release_ok s c l)
  then show ?case by (auto simp: lock_inv_def unrecorded_def holding_def)
next
  case (release_cpu s c l)
  then show ?case by (auto simp: lock_inv_def unrecorded_def)
next
  case (release_unlock s c l)
  then have "l \<in> owned s c" "finite (owned s c)" unfolding lock_inv_def by blast+
  then have "0 < card (owned s c)" by (auto simp: card_gt_0_iff)
  with release_unlock show ?case by (auto simp: lock_inv_def unrecorded_def)
next
  case (release_pop s c v)
  then have "noff (cpus s c) = int (card (owned s c)) + 1" by (auto simp: lock_inv_def)
  then have "noff (cpus s c) < 2 ^ 31" using owned_less [of "owned s c"] by simp
  note pop_off_simps [OF release_pop(2) this]
  with release_pop show ?case by (auto simp: lock_inv_def unrecorded_def)
next
  case (release_pop_panic s c)
  then show ?case by (auto simp: lock_inv_def unrecorded_def)
next
  case (interrupts s c b)
  then show ?case by (auto simp: lock_inv_def unrecorded_def)
qed


lemma lock_inv_reachable: "lock_step\<^sup>*\<^sup>* s t \<Longrightarrow> lock_start s \<Longrightarrow> lock_inv t"
  by (induction rule: rtranclp_induct) (auto intro: lock_start_inv lock_inv_step)

section \<open>Properties\<close>

text \<open>
  C2: whatever the interleaving, a lock has at most one owner. A CPU that is not inside a lock
  operation sees \<open>holding\<close> exactly for the locks it owns, so \<open>acquire\<close> panics only on a lock the
  same CPU already holds and \<open>release\<close> only on one it does not hold. An owner runs with
  interrupts disabled, and \<open>pop_off\<close> inside \<open>release\<close> never panics.
\<close>

theorem spinlock_mutual_exclusion:
  assumes "lock_start s" and "lock_step\<^sup>*\<^sup>* s t"
  shows "(l \<in> owned t c \<and> l \<in> owned t d \<longrightarrow> c = d)
    \<and> (pcs t c \<in> {Out, Acq_holding l, Rel_holding l} \<longrightarrow> holding (locks t l) c = (l \<in> owned t c))
    \<and> (pcs t c \<noteq> Panicked \<and> l \<in> owned t c \<longrightarrow> \<not> sie (cpus t c))
    \<and> (pcs t c = Rel_pop \<longrightarrow> pop_off (cpus t c) \<noteq> None)"
proof -
  have inv: "lock_inv t" using assms lock_inv_reachable by blast
  have "0 \<le> pending p" for p by (cases p) auto
  then have pos: "0 < noff (cpus t c)" if "pcs t c \<noteq> Panicked" "l \<in> owned t c \<or> pcs t c = Rel_pop"
  proof -
    have "noff (cpus t c) = int (card (owned t c)) + pending (pcs t c)" "finite (owned t c)"
      using inv that(1) by (auto simp: lock_inv_def)
    moreover have "0 < card (owned t c) \<or> pending (pcs t c) = 1"
      using that(2) \<open>finite (owned t c)\<close> by (auto simp: card_gt_0_iff)
    ultimately show ?thesis using \<open>\<And>p. 0 \<le> pending p\<close> [of "pcs t c"] by linarith
  qed
  have "\<not> sie (cpus t c)" if "0 < noff (cpus t c)" using inv that by (simp add: lock_inv_def)
  moreover from this have "pop_off (cpus t c) \<noteq> None" if "pcs t c = Rel_pop"
    using pos that by (simp add: pop_off_def Let_def)
  moreover have "holding (locks t l) c = (l \<in> owned t c)" if "pcs t c \<in> {Out, Acq_holding l, Rel_holding l}"
  proof -
    have "locked (locks t l) \<noteq> 0 \<longleftrightarrow> (\<exists>c. l \<in> owned t c)"
      "lcpu (locks t l) = Some c \<longleftrightarrow> l \<in> owned t c \<and> \<not> unrecorded (pcs t c) l"
      using inv unfolding lock_inv_def by blast+
    moreover have "\<not> unrecorded (pcs t c) l" using that by (auto simp: unrecorded_def)
    ultimately show ?thesis by (auto simp: holding_def)
  qed
  ultimately show ?thesis using inv pos unfolding lock_inv_def by blast
qed

definition idle :: sys where
  "idle = \<lparr>locks = (\<lambda>_. \<lparr>locked = 0, lname = ''lk'', lcpu = None\<rparr>),
     cpus = (\<lambda>_. \<lparr>cproc = None, ccontext = \<lparr>c_ra = 0, c_sp = 0, c_s = (\<lambda>_. 0)\<rparr>,
       noff = 0, intena = False, sie = True\<rparr>),
     pcs = (\<lambda>_. Out), owned = (\<lambda>_. {})\<rparr>"

lemma idle_start: "lock_start idle"
  unfolding lock_start_def
proof (intro conjI allI)
  show "\<exists>lk nm. locks idle l = initlock lk nm" for l
    by (intro exI [of _ "locks idle l"] exI [of _ "''lk''"]) (simp add: idle_def initlock_def)
qed (simp_all add: idle_def)

lemma idle_acquire: "\<exists>t. lock_step\<^sup>*\<^sup>* idle t \<and> owned t 0 = {5} \<and> pcs t 0 = Out"
proof -
  define s1 where "s1 = goto 0 (Acq_holding 5) (set_cpu 0 (push_off (cpus idle 0)) idle)"
  define s2 where "s2 = goto 0 (Acq_swap 5) s1"
  define s3 where "s3 = goto 0 (Acq_cpu 5) (set_owned 0 (insert 5 (owned s2 0)) (set_lock 5 ((locks s2 5)\<lparr>locked := 1\<rparr>) s2))"
  define s4 where "s4 = goto 0 Out (set_lock 5 ((locks s3 5)\<lparr>lcpu := Some 0\<rparr>) s3)"
  have "lock_step idle s1" unfolding s1_def by (rule acquire_push) (simp add: idle_def)
  moreover have "lock_step s1 s2" unfolding s2_def by (rule acquire_ok) (simp_all add: idle_def s1_def holding_def)
  moreover have "lock_step s2 s3" unfolding s3_def by (rule acquire_swap) (simp_all add: idle_def s1_def s2_def)
  moreover have "lock_step s3 s4" unfolding s4_def by (rule acquire_cpu) (simp add: s3_def)
  ultimately have "lock_step\<^sup>*\<^sup>* idle s4" by (meson r_into_rtranclp rtranclp_trans)
  moreover have "owned s4 0 = {5}" "pcs s4 0 = Out" by (simp_all add: s4_def s3_def s2_def s1_def idle_def)
  ultimately show ?thesis by blast
qed

theorem spinlock_mutual_exclusion_witness:
  "\<exists>t. lock_step\<^sup>*\<^sup>* idle t \<and> 5 \<in> owned t 0 \<and> 5 \<notin> owned t 1 \<and> holding (locks t 5) 0 \<and> \<not> sie (cpus t 0)"
proof -
  obtain t where t: "lock_step\<^sup>*\<^sup>* idle t" "owned t 0 = {5}" "pcs t 0 = Out" using idle_acquire by blast
  show ?thesis
    using t spinlock_mutual_exclusion [OF idle_start t(1), of 5 0 1] by (intro exI [of _ t]) auto
qed

primrec pop_offs :: "nat \<Rightarrow> cpu \<Rightarrow> cpu option" where
  "pop_offs 0 c = Some c"
| "pop_offs (Suc n) c = do { c \<leftarrow> pop_off c; pop_offs n c }"

lemma push_offs:
  "0 \<le> noff c \<Longrightarrow> noff c + int n < 2 ^ 31 \<Longrightarrow> let d = (push_off ^^ n) c in
     noff d = noff c + int n \<and> (0 < n \<longrightarrow> \<not> sie d \<and> (noff c = 0 \<longrightarrow> intena d = sie c)) \<and> (n = 0 \<longrightarrow> d = c)"
proof (induction n)
  case (Suc n)
  let ?d = "(push_off ^^ n) c"
  have IH: "noff ?d = noff c + int n" "0 < n \<Longrightarrow> \<not> sie ?d \<and> (noff c = 0 \<longrightarrow> intena ?d = sie c)" "n = 0 \<Longrightarrow> ?d = c"
    using Suc by (auto simp: Let_def)
  have "noff (push_off ?d) = noff c + int (Suc n)" using IH(1) Suc.prems by simp
  moreover have "noff c = 0 \<longrightarrow> intena (push_off ?d) = sie c"
    using IH by (cases "n = 0") (auto simp: push_off_def Let_def)
  ultimately show ?case by (simp add: Let_def)
qed simp

lemma pop_offs_down:
  "0 \<le> k \<Longrightarrow> noff d = k + int n \<Longrightarrow> noff d < 2 ^ 31 \<Longrightarrow> 0 < n \<Longrightarrow> \<not> sie d \<Longrightarrow>
   \<exists>e. pop_offs n d = Some e \<and> noff e = k \<and> sie e = (k = 0 \<and> intena d)"
proof (induction n arbitrary: d)
  case (Suc n)
  have c: "c_int (noff d - 1) = noff d - 1" using Suc.prems by (intro c_int_small) simp_all
  show ?case
  proof (cases "n = 0")
    case True
    then show ?thesis using Suc.prems c by (auto simp: pop_off_def Let_def)
  next
    case False
    let ?d = "d\<lparr>noff := noff d - 1\<rparr>"
    have "pop_off d = Some ?d" using False Suc.prems c by (simp add: pop_off_def Let_def)
    then show ?thesis using Suc.IH [of ?d] Suc.prems False by simp
  qed
qed simp

text \<open>
  C31: \<open>push_off\<close> and \<open>pop_off\<close> nest: after any number of \<open>push_off\<close> calls, as long as the depth fits the \<open>int\<close> that
  counts it, interrupts are off, and the same number of \<open>pop_off\<close> calls returns without a panic and restores the
  interrupt state and the nesting depth. At the largest \<open>int\<close> a further \<open>push_off\<close> wraps the depth, and the \<open>pop_off\<close>
  after it panics.
\<close>

theorem push_pop_nest:
  assumes "0 \<le> noff c" and "noff c = 0 \<or> \<not> sie c"
  shows "(noff c + int n < 2 ^ 31 \<longrightarrow> (0 < n \<longrightarrow> \<not> sie ((push_off ^^ n) c)) \<and>
      (\<exists>e. pop_offs n ((push_off ^^ n) c) = Some e \<and> noff e = noff c \<and> sie e = sie c)) \<and>
    (noff c = 2 ^ 31 - 1 \<longrightarrow> pop_off (push_off c) = None)"
proof (intro conjI impI)
  assume b: "noff c + int n < 2 ^ 31"
  have "(0 < n \<longrightarrow> \<not> sie ((push_off ^^ n) c)) \<and> (\<exists>e. pop_offs n ((push_off ^^ n) c) = Some e \<and> noff e = noff c \<and> sie e = sie c)"
  proof (cases "n = 0")
    case False
    with push_offs [OF assms(1) b] pop_offs_down [OF assms(1), of "(push_off ^^ n) c" n] assms b
    show ?thesis by (auto simp: Let_def)
  qed simp
  then show "0 < n \<Longrightarrow> \<not> sie ((push_off ^^ n) c)" "\<exists>e. pop_offs n ((push_off ^^ n) c) = Some e \<and> noff e = noff c \<and> sie e = sie c"
    by blast+
next
  assume "noff c = 2 ^ 31 - 1"
  then have "noff (push_off c) = - (2 ^ 31)" by (simp add: push_off_def Let_def c_int_def)
  then show "pop_off (push_off c) = None" by (simp add: pop_off_def)
qed

theorem push_pop_nest_witness:
  "\<exists>e. pop_offs 3 ((push_off ^^ 3) (cpus idle 0)) = Some e \<and> noff e = 0 \<and> sie e"
proof -
  have "noff (cpus idle 0) = 0" "sie (cpus idle 0)" by (simp_all add: idle_def)
  then show ?thesis using push_pop_nest [of "cpus idle 0" 3] by auto
qed

end
