(* ===== verification/Kalloc.thy ===== *)
theory Kalloc
  imports Layout
begin

text \<open>
  The physical page allocator of \<^verbatim>\<open>kernel/kalloc.c\<close>: free pages are linked through their first
  eight bytes, as \<open>struct run\<close> does, inside the same flat memory that the rest of the kernel
  uses. The spin lock \<open>kmem.lock\<close> brackets each list operation, which is one step here.
  The interface of the allocator is the locale \<open>page_allocator\<close>.
\<close>

section \<open>Model\<close>

record kmem = machine +
  freelist :: u64

definition kfree :: "u64 \<Rightarrow> 'a kmem_scheme \<Rightarrow> 'a kmem_scheme option" where
  "kfree pa s =
     (if pa mod PGSIZE \<noteq> 0 \<or> pa < k_end s \<or> pa \<ge> PHYSTOP then None
      else Some (s\<lparr>mem := store64 (memset (mem s) pa 1 4096) pa (freelist s), freelist := pa\<rparr>))"

definition kalloc :: "'a kmem_scheme \<Rightarrow> u64 \<times> 'a kmem_scheme" where
  "kalloc s =
     (let r = freelist s;
          s = (if r \<noteq> 0 then s\<lparr>freelist := load64 (mem s) r\<rparr> else s);
          s = (if r \<noteq> 0 then s\<lparr>mem := memset (mem s) r 5 4096\<rparr> else s)
      in (r, s))"

partial_function (option) freerange_loop :: "u64 \<Rightarrow> u64 \<Rightarrow> 'a kmem_scheme \<Rightarrow> 'a kmem_scheme option" where
  "freerange_loop p pa_end s =
     (if p + PGSIZE \<le> pa_end
      then do { s \<leftarrow> kfree p s; freerange_loop (p + PGSIZE) pa_end s }
      else Some s)"

definition freerange :: "u64 \<Rightarrow> u64 \<Rightarrow> 'a kmem_scheme \<Rightarrow> 'a kmem_scheme option" where
  "freerange pa_start pa_end s = freerange_loop (PGROUNDUP pa_start) pa_end s"

definition kinit :: "'a kmem_scheme \<Rightarrow> 'a kmem_scheme option" where
  "kinit s = freerange (k_end s) PHYSTOP s"

section \<open>The free list\<close>

text \<open>\<open>free_chain m p ps\<close>: following \<open>next\<close> pointers from \<open>p\<close> visits the pages \<open>ps\<close> and ends at 0.\<close>

fun free_chain :: "memory \<Rightarrow> u64 \<Rightarrow> u64 list \<Rightarrow> bool" where
  "free_chain m p [] \<longleftrightarrow> p = 0"
| "free_chain m p (q # qs) \<longleftrightarrow> p = q \<and> q \<noteq> 0 \<and> free_chain m (load64 m q) qs"

definition kpage :: "'a kmem_scheme \<Rightarrow> u64 \<Rightarrow> bool" where
  "kpage s p \<longleftrightarrow> page_aligned p \<and> k_end s \<le> p \<and> p < PHYSTOP"

definition kmem_pool :: "'a kmem_scheme \<Rightarrow> u64 list \<Rightarrow> bool" where
  "kmem_pool s ps \<longleftrightarrow>
     free_chain (mem s) (freelist s) ps \<and> distinct ps \<and> 0 < k_end s \<and> (\<forall>p \<in> set ps. kpage s p)"

lemma free_chain_cong:
  "(\<And>p a. p \<in> set ps \<Longrightarrow> page_of a = page_of p \<Longrightarrow> m a = m' a) \<Longrightarrow>
   (\<And>p. p \<in> set ps \<Longrightarrow> page_aligned p) \<Longrightarrow> free_chain m r ps \<longleftrightarrow> free_chain m' r ps"
proof (induction ps arbitrary: r)
  case (Cons p ps)
  have "load64 m p = load64 m' p"
    by (rule load64_cong, rule Cons.prems(1) [of p]) (auto simp: Cons.prems(2) page_of_offset)
  with Cons show ?case by auto
qed simp

lemma memset_page:
  "page_aligned p \<Longrightarrow> memset m p c 4096 = (\<lambda>a. if page_of a = page_of p then ucast c else m a)"
  by (rule ext) (simp add: memset_eq diff_less_page)

lemma store64_other_page:
  "page_aligned p \<Longrightarrow> page_of a \<noteq> page_of p \<Longrightarrow> store64 m p v a = m a"
  using diff_less_page [of p a] by (auto simp: store64_def word_less_nat_alt)

lemma kmem_pool_empty: "kmem_pool s [] \<Longrightarrow> kalloc s = (0, s)"
  by (simp add: kmem_pool_def kalloc_def)

lemma kmem_pool_frame:
  assumes "kmem_pool s ps" "k_end s' = k_end s" "freelist s' = freelist s"
    and "\<And>p a. p \<in> set ps \<Longrightarrow> page_of a = page_of p \<Longrightarrow> mem s' a = mem s a"
  shows "kmem_pool s' ps"
  using assms free_chain_cong [of ps "mem s" "mem s'" "freelist s"]
  by (auto simp: kmem_pool_def kpage_def)

lemma kalloc_pool:
  assumes "kmem_pool s (p # ps)"
  shows "kalloc s = (p, s\<lparr>freelist := load64 (mem s) p, mem := memset (mem s) p 5 4096\<rparr>)"
    and "kmem_pool (snd (kalloc s)) ps"
proof -
  show eq: "kalloc s = (p, s\<lparr>freelist := load64 (mem s) p, mem := memset (mem s) p 5 4096\<rparr>)"
    using assms by (simp add: kmem_pool_def kalloc_def)
  have al: "page_aligned p" "\<And>q. q \<in> set ps \<Longrightarrow> page_aligned q"
    using assms by (auto simp: kmem_pool_def kpage_def)
  have ne: "page_of q \<noteq> page_of p" if "q \<in> set ps" for q
    using assms that al by (auto simp: kmem_pool_def page_of_inject)
  have "free_chain (mem s) (load64 (mem s) p) ps" using assms by (simp add: kmem_pool_def)
  then have "free_chain (memset (mem s) p 5 4096) (load64 (mem s) p) ps"
    using free_chain_cong [of ps "mem s" "memset (mem s) p 5 4096"] al ne by (simp add: memset_page)
  then show "kmem_pool (snd (kalloc s)) ps"
    using assms by (simp add: eq kmem_pool_def kpage_def)
qed

lemma kfree_pool:
  assumes "kmem_pool s ps" "kpage s p" "p \<notin> set ps"
  shows "kfree p s = Some (s\<lparr>mem := store64 (memset (mem s) p 1 4096) p (freelist s), freelist := p\<rparr>)"
    and "kmem_pool (the (kfree p s)) (p # ps)"
proof -
  show eq: "kfree p s = Some (s\<lparr>mem := store64 (memset (mem s) p 1 4096) p (freelist s), freelist := p\<rparr>)"
    using assms by (auto simp: kfree_def kpage_def page_aligned_def)
  have al: "page_aligned p" "\<And>q. q \<in> set ps \<Longrightarrow> page_aligned q"
    using assms by (auto simp: kmem_pool_def kpage_def)
  have ne: "page_of q \<noteq> page_of p" if "q \<in> set ps" for q
    using assms that al by (auto simp: kmem_pool_def page_of_inject)
  let ?m = "store64 (memset (mem s) p 1 4096) p (freelist s)"
  have "free_chain ?m (freelist s) ps"
    using assms(1) free_chain_cong [of ps "mem s" ?m] al ne
    by (simp add: memset_page store64_other_page kmem_pool_def)
  moreover have "p \<noteq> 0" using assms by (auto simp: kmem_pool_def kpage_def)
  ultimately show "kmem_pool (the (kfree p s)) (p # ps)"
    using assms by (simp add: eq kmem_pool_def kpage_def)
qed

definition page_range :: "u64 \<Rightarrow> nat \<Rightarrow> u64 list" where
  "page_range p n = map (\<lambda>i. p + of_nat i * PGSIZE) [0..<n]"

lemma page_range_Suc: "page_range p (Suc n) = p # page_range (p + PGSIZE) n"
  by (simp add: page_range_def map_upt_Suc algebra_simps del: upt_Suc)

lemma freerange_loop_pool:
  assumes "kmem_pool s ps" "page_aligned p" "k_end s \<le> p" "pa_end \<le> PHYSTOP" "p \<le> PHYSTOP"
    and "(unat pa_end - unat p) div 4096 = n" "\<forall>q \<in> set ps. q < p"
  shows "\<exists>s'. freerange_loop p pa_end s = Some s' \<and> kmem_pool s' (rev (page_range p n) @ ps) \<and> k_end s' = k_end s"
  using assms
proof (induction n arbitrary: s ps p)
  case 0
  then have "unat pa_end < unat p + 4096" by linarith
  moreover have "unat p \<le> 2281701376" using 0 by (simp add: word_le_nat_alt)
  ultimately have "\<not> p + PGSIZE \<le> pa_end"
    by (simp add: word_le_nat_alt unat_word_ariths)
  then show ?case using 0 by (subst freerange_loop.simps) (simp add: page_range_def)
next
  case (Suc n)
  have le: "unat p + 4096 \<le> unat pa_end" using Suc.prems(6) by linarith
  have pe: "unat pa_end \<le> 2281701376" using Suc.prems by (simp add: word_le_nat_alt)
  have p4: "unat (p + PGSIZE) = unat p + 4096"
    using le pe by (simp add: unat_word_ariths)
  have "kpage s p" using Suc.prems le pe by (simp add: kpage_def word_less_nat_alt)
  moreover have "p \<notin> set ps" using Suc.prems by auto
  ultimately obtain s1 where s1: "kfree p s = Some s1" "kmem_pool s1 (p # ps)" "k_end s1 = k_end s"
    using kfree_pool [OF Suc.prems(1)] by auto
  have "\<exists>s'. freerange_loop (p + PGSIZE) pa_end s1 = Some s' \<and>
      kmem_pool s' (rev (page_range (p + PGSIZE) n) @ (p # ps)) \<and> k_end s' = k_end s1"
  proof (rule Suc.IH [OF s1(2)])
    show "page_aligned (p + PGSIZE)" using Suc.prems(2) p4 by (simp add: page_aligned_unat)
    show "k_end s1 \<le> p + PGSIZE" using Suc.prems(3) s1(3) p4 by (simp add: word_le_nat_alt)
    show "p + PGSIZE \<le> PHYSTOP" using p4 le pe by (simp add: word_le_nat_alt)
    show "(unat pa_end - unat (p + PGSIZE)) div 4096 = n" using Suc.prems(6) unfolding p4 by linarith
    show "\<forall>q\<in>set (p # ps). q < p + PGSIZE" using Suc.prems(7) p4 by (auto simp: word_less_nat_alt)
  qed (fact Suc.prems)
  moreover have "p + PGSIZE \<le> pa_end" using p4 le by (simp add: word_le_nat_alt)
  ultimately show ?case
    using s1 by (subst freerange_loop.simps) (auto simp: page_range_Suc)
qed

lemma kinit_pool:
  assumes "freelist s = 0" "0 < k_end s" "k_end s \<le> PHYSTOP"
  shows "\<exists>s'. kinit s = Some s' \<and> kmem_pool s' (rev (page_range (PGROUNDUP (k_end s))
      ((unat PHYSTOP - unat (PGROUNDUP (k_end s))) div 4096)))"
proof -
  have le: "unat (k_end s) \<le> 2281701376" using assms by (simp add: word_le_nat_alt)
  then have u: "unat (PGROUNDUP (k_end s)) = 4096 * ((unat (k_end s) + 4095) div 4096)"
    by (intro unat_PGROUNDUP) simp
  have "kmem_pool s []" using assms by (simp add: kmem_pool_def)
  then have "\<exists>s'. freerange_loop (PGROUNDUP (k_end s)) PHYSTOP s = Some s' \<and>
      kmem_pool s' (rev (page_range (PGROUNDUP (k_end s))
        ((unat PHYSTOP - unat (PGROUNDUP (k_end s))) div 4096)) @ []) \<and> k_end s' = k_end s"
    by (rule freerange_loop_pool) (use u le in \<open>auto simp: word_le_nat_alt\<close>)
  then show ?thesis by (auto simp: kinit_def freerange_def)
qed

section \<open>The interface\<close>

locale page_allocator =
  fixes alloc :: "'s \<Rightarrow> u64 \<times> 's"
    and free :: "u64 \<Rightarrow> 's \<Rightarrow> 's option"
    and pool :: "'s \<Rightarrow> u64 list \<Rightarrow> bool"
    and valid :: "'s \<Rightarrow> u64 \<Rightarrow> bool"
    and bytes_of :: "'s \<Rightarrow> memory"
  assumes alloc_empty: "pool s [] \<Longrightarrow> alloc s = (0, s)"
    and alloc_page: "pool s (p # ps) \<Longrightarrow> fst (alloc s) = p \<and> pool (snd (alloc s)) ps"
    and alloc_frame: "pool s (p # ps) \<Longrightarrow> page_of a \<noteq> page_of p \<Longrightarrow>
      bytes_of (snd (alloc s)) a = bytes_of s a"
    and free_page: "pool s ps \<Longrightarrow> valid s p \<Longrightarrow> p \<notin> set ps \<Longrightarrow>
      \<exists>s'. free p s = Some s' \<and> pool s' (p # ps)"
    and free_invalid: "\<not> valid s p \<Longrightarrow> free p s = None"
    and pool_pages: "pool s ps \<Longrightarrow> distinct ps \<and> 0 \<notin> set ps \<and> (\<forall>p \<in> set ps. valid s p)"
begin

primrec alloc_n :: "nat \<Rightarrow> 's \<Rightarrow> u64 list \<times> 's" where
  "alloc_n 0 s = ([], s)"
| "alloc_n (Suc n) s = (let (p, s) = alloc s; (ps, s) = alloc_n n s in (p # ps, s))"

lemma alloc_n_takes:
  "pool s ps \<Longrightarrow> n \<le> length ps \<Longrightarrow>
     fst (alloc_n n s) = take n ps \<and> pool (snd (alloc_n n s)) (drop n ps)"
proof (induction n arbitrary: s ps)
  case (Suc n)
  then obtain p qs where ps: "ps = p # qs" by (cases ps) auto
  obtain s' where s': "alloc s = (p, s')" "pool s' qs"
    using alloc_page [of s p qs] Suc.prems ps by (metis prod.collapse)
  show ?case using Suc.IH [OF s'(2)] Suc.prems ps s' by (auto simp: split_beta)
qed simp

lemma alloc_n_distinct:
  "pool s ps \<Longrightarrow> n \<le> length ps \<Longrightarrow> distinct (fst (alloc_n n s)) \<and> 0 \<notin> set (fst (alloc_n n s))"
  using alloc_n_takes [of s ps n] pool_pages [of s ps] by (auto dest: in_set_takeD)

end

interpretation kp: page_allocator kalloc kfree kmem_pool kpage mem
proof
  fix s :: "'a kmem_scheme" and p ps a
  show "kmem_pool s [] \<Longrightarrow> kalloc s = (0, s)" by (rule kmem_pool_empty)
  show "kmem_pool s (p # ps) \<Longrightarrow> fst (kalloc s) = p \<and> kmem_pool (snd (kalloc s)) ps"
    using kalloc_pool [of s p ps] by simp
  show "kmem_pool s (p # ps) \<Longrightarrow> page_of a \<noteq> page_of p \<Longrightarrow> mem (snd (kalloc s)) a = mem s a"
    using kalloc_pool(1) [of s p ps] by (auto simp: kmem_pool_def kpage_def memset_page)
  show "kmem_pool s ps \<Longrightarrow> kpage s p \<Longrightarrow> p \<notin> set ps \<Longrightarrow>
      \<exists>s'. kfree p s = Some s' \<and> kmem_pool s' (p # ps)"
    using kfree_pool [of s ps p] by simp
  show "\<not> kpage s p \<Longrightarrow> kfree p s = None"
    unfolding kpage_def kfree_def page_aligned_def by (simp only: not_le de_Morgan_conj) auto
  show "kmem_pool s ps \<Longrightarrow> distinct ps \<and> 0 \<notin> set ps \<and> (\<forall>p \<in> set ps. kpage s p)"
    by (auto simp: kmem_pool_def kpage_def)
qed

section \<open>Properties\<close>

text \<open>
  C26: \<open>kinit\<close> does not panic and puts every whole page between the end of the kernel and
  \<open>PHYSTOP\<close> on the free list, each once, the highest first.
\<close>

theorem kinit_frees_all_pages:
  assumes "freelist s = 0" and "0 < k_end s" and "k_end s \<le> PHYSTOP"
  shows "\<exists>s'. kinit s = Some s' \<and> kmem_pool s' (rev (page_range (PGROUNDUP (k_end s))
      ((unat PHYSTOP - unat (PGROUNDUP (k_end s))) div 4096)))"
  using assms by (rule kinit_pool)

theorem kinit_frees_all_pages_witness:
  "\<exists>s'. kinit \<lparr>mem = (\<lambda>_. 0), k_end = 0x87ffd800, k_etext = 0, k_trampoline = 0, freelist = 0\<rparr> = Some s'
     \<and> kmem_pool s' [0x87fff000, 0x87ffe000]"
proof -
  let ?s = "\<lparr>mem = (\<lambda>_. 0), k_end = 0x87ffd800, k_etext = 0, k_trampoline = 0, freelist = 0\<rparr> :: kmem"
  have "\<exists>s'. kinit ?s = Some s' \<and> kmem_pool s' (rev (page_range (PGROUNDUP (k_end ?s))
      ((unat PHYSTOP - unat (PGROUNDUP (k_end ?s))) div 4096)))"
    by (rule kinit_frees_all_pages) simp_all
  moreover have "PGROUNDUP 0x87ffd800 = 0x87ffe000" by (simp add: PGROUNDUP_def)
  moreover have "[0..<2] = [0, Suc 0]" by (simp add: upt_rec)
  ultimately show ?thesis by (simp add: page_range_def)
qed

text \<open>
  C27: from a well-formed free list \<open>kalloc\<close> returns the first free page, filled with junk and
  no longer on the list, and changes no other byte of memory; from an empty list it returns
  0 and changes nothing. Successive allocations are pairwise different pages.
\<close>

theorem kalloc_hands_out_fresh_pages:
  assumes "kmem_pool s ps"
  shows "(ps = [] \<longrightarrow> kalloc s = (0, s))
    \<and> (\<forall>p qs. ps = p # qs \<longrightarrow>
         fst (kalloc s) = p \<and> p \<notin> set qs \<and> kmem_pool (snd (kalloc s)) qs \<and>
         (\<forall>a. mem (snd (kalloc s)) a = (if page_of a = page_of p then 5 else mem s a)))
    \<and> (n \<le> length ps \<longrightarrow> distinct (fst (kp.alloc_n n s)) \<and> 0 \<notin> set (fst (kp.alloc_n n s)))"
proof (intro conjI allI impI)
  fix p qs assume ps: "ps = p # qs"
  with assms have pool: "kmem_pool s (p # qs)" by simp
  show "fst (kalloc s) = p" "kmem_pool (snd (kalloc s)) qs" using kalloc_pool [OF pool] by auto
  show "p \<notin> set qs" using kp.pool_pages [OF pool] by simp
  show "mem (snd (kalloc s)) a = (if page_of a = page_of p then 5 else mem s a)" for a
    using kalloc_pool(1) [OF pool] pool by (simp add: kmem_pool_def kpage_def memset_page)
next
  show "kalloc s = (0, s)" if "ps = []" using assms that kp.alloc_empty by simp
  show "distinct (fst (kp.alloc_n n s))" "0 \<notin> set (fst (kp.alloc_n n s))" if "n \<le> length ps"
    using kp.alloc_n_distinct [OF assms that] by auto
qed

text \<open>A pool of two pages for the witnesses.\<close>

definition two_pages :: kmem where
  "two_pages = \<lparr>mem = store64 (\<lambda>_. 0) 0x80200000 0x80201000, k_end = 0x80100000, k_etext = 0x80010000,
     k_trampoline = 0x80008000, freelist = 0x80200000\<rparr>"

lemma two_pages_pool: "kmem_pool two_pages [0x80200000, 0x80201000]"
proof -
  have al: "page_aligned 0x80200000" "page_aligned 0x80201000" by (simp_all add: page_aligned_unat)
  have "load64 (store64 (\<lambda>_. 0) 0x80200000 0x80201000) 0x80201000 = load64 (\<lambda>_. 0) 0x80201000"
    by (rule load64_cong, rule store64_other_page [OF al(1)], subst page_of_offset [OF al(2)])
      (simp_all add: page_of_def)
  also have "\<dots> = 0" by (simp add: load64_def le64_def)
  finally have "free_chain (mem two_pages) (freelist two_pages) [0x80200000, 0x80201000]"
    by (simp add: two_pages_def)
  with al show ?thesis by (simp add: kmem_pool_def kpage_def, simp add: two_pages_def)
qed

theorem kalloc_hands_out_fresh_pages_witness:
  "fst (kalloc two_pages) = 0x80200000 \<and> kmem_pool (snd (kalloc two_pages)) [0x80201000]
   \<and> distinct (fst (kp.alloc_n 2 two_pages))"
  using kalloc_hands_out_fresh_pages [OF two_pages_pool, of 2] by simp

text \<open>
  C28: \<open>kfree\<close> panics on an address that is not a page of allocatable memory; on a page that is
  not already free it puts the page back, and the next \<open>kalloc\<close> returns that page and leaves
  the free list as it was.
\<close>

theorem kfree_then_kalloc:
  assumes "kmem_pool s ps" and "p \<notin> set ps"
  shows "(\<not> kpage s p \<longrightarrow> kfree p s = None)
    \<and> (kpage s p \<longrightarrow> (\<exists>s'. kfree p s = Some s' \<and> kmem_pool s' (p # ps) \<and>
          fst (kalloc s') = p \<and> kmem_pool (snd (kalloc s')) ps))"
proof (intro conjI impI)
  show "kfree p s = None" if "\<not> kpage s p" using that by (rule kp.free_invalid)
  show "\<exists>s'. kfree p s = Some s' \<and> kmem_pool s' (p # ps) \<and>
      fst (kalloc s') = p \<and> kmem_pool (snd (kalloc s')) ps" if "kpage s p"
  proof -
    from kp.free_page [OF assms(1) that assms(2)] obtain s'
      where "kfree p s = Some s'" "kmem_pool s' (p # ps)" by auto
    with kp.alloc_page [of s' p ps] show ?thesis by auto
  qed
qed

theorem kfree_then_kalloc_witness:
  "kfree 0x80300001 two_pages = None
   \<and> (\<exists>s'. kfree 0x80300000 two_pages = Some s' \<and> fst (kalloc s') = 0x80300000)"
proof -
  have "kpage two_pages 0x80300000" "\<not> kpage two_pages 0x80300001"
    by (simp_all add: two_pages_def kpage_def page_aligned_unat)
  moreover have "0x80300000 \<notin> set [0x80200000, 0x80201000 :: u64]"
    "0x80300001 \<notin> set [0x80200000, 0x80201000 :: u64]" by simp_all
  ultimately show ?thesis
    using kfree_then_kalloc [OF two_pages_pool] by blast
qed

end
