(* ===== verification/Vm.thy ===== *)
theory Vm
  imports Kalloc
begin

text \<open>
  Sv39 page tables, \<^verbatim>\<open>kernel/vm.c\<close>. Page tables live in the flat memory, in pages taken from
  \<open>kalloc\<close>. Kernel objects that the code passes to \<open>copyin\<close> and \<open>copyout\<close> (buffers, structures on
  the kernel stack) are byte arrays outside this memory. An \<open>int\<close> argument holding permission
  bits is the 64-bit value it is converted to. \<open>None\<close> is \<open>panic\<close>.
\<close>

section \<open>Page table entries\<close>

definition PTE_V :: u64 where "PTE_V = 1"
definition PTE_R :: u64 where "PTE_R = 2"
definition PTE_W :: u64 where "PTE_W = 4"
definition PTE_X :: u64 where "PTE_X = 8"
definition PTE_U :: u64 where "PTE_U = 16"

definition PA2PTE :: "u64 \<Rightarrow> u64" where
  "PA2PTE pa = push_bit 10 (drop_bit 12 pa)"

definition PTE2PA :: "u64 \<Rightarrow> u64" where
  "PTE2PA pte = push_bit 12 (drop_bit 10 pte)"

definition PTE_FLAGS :: "u64 \<Rightarrow> u64" where
  "PTE_FLAGS pte = pte AND 0x3FF"

definition PXSHIFT :: "nat \<Rightarrow> nat" where
  "PXSHIFT level = PGSHIFT + 9 * level"

definition PX :: "nat \<Rightarrow> u64 \<Rightarrow> u64" where
  "PX level va = drop_bit (PXSHIFT level) va AND 0x1FF"

definition MAKE_SATP :: "u64 \<Rightarrow> u64" where
  "MAKE_SATP pagetable = push_bit 60 8 OR drop_bit 12 pagetable"

text \<open>The global \<open>kernel_pagetable\<close> and the register that \<open>kvminithart\<close> loads.\<close>

record vm = kmem +
  kernel_pagetable :: u64
  satp :: u64

section \<open>Walking and mapping\<close>

primrec walk_loop :: "nat \<Rightarrow> u64 \<Rightarrow> u64 \<Rightarrow> bool \<Rightarrow> 'a kmem_scheme \<Rightarrow> u64 \<times> 'a kmem_scheme" where
  "walk_loop 0 pagetable va alloc s = (pagetable + 8 * PX 0 va, s)"
| "walk_loop (Suc l) pagetable va alloc s =
     (let pte = pagetable + 8 * PX (Suc l) va in
      if load64 (mem s) pte AND PTE_V \<noteq> 0
      then walk_loop l (PTE2PA (load64 (mem s) pte)) va alloc s
      else if \<not> alloc then (0, s)
      else let (page, s) = kalloc s in
        if page = 0 then (0, s)
        else let s = s\<lparr>mem := memset (mem s) page 0 4096\<rparr>;
                 s = s\<lparr>mem := store64 (mem s) pte (PA2PTE page OR PTE_V)\<rparr>
             in walk_loop l page va alloc s)"

definition walk :: "u64 \<Rightarrow> u64 \<Rightarrow> bool \<Rightarrow> 'a kmem_scheme \<Rightarrow> (u64 \<times> 'a kmem_scheme) option" where
  "walk pagetable va alloc s =
     (if va \<ge> MAXVA then None else Some (walk_loop 2 pagetable va alloc s))"

definition walkaddr :: "u64 \<Rightarrow> u64 \<Rightarrow> 'a kmem_scheme \<Rightarrow> u64 option" where
  "walkaddr pagetable va s =
     (if va \<ge> MAXVA then Some 0
      else do {
        (pte, s) \<leftarrow> walk pagetable va False s;
        if pte = 0 then Some 0
        else if load64 (mem s) pte AND PTE_V = 0 then Some 0
        else if load64 (mem s) pte AND PTE_U = 0 then Some 0
        else Some (PTE2PA (load64 (mem s) pte))
      })"

partial_function (option) mappages_loop ::
  "u64 \<Rightarrow> u64 \<Rightarrow> u64 \<Rightarrow> u64 \<Rightarrow> u64 \<Rightarrow> 'a kmem_scheme \<Rightarrow> (int \<times> 'a kmem_scheme) option" where
  "mappages_loop pagetable a alast pa perm s =
     do {
       (pte, s) \<leftarrow> walk pagetable a True s;
       if pte = 0 then Some (-1, s)
       else if load64 (mem s) pte AND PTE_V \<noteq> 0 then None
       else let s = s\<lparr>mem := store64 (mem s) pte (PA2PTE pa OR perm OR PTE_V)\<rparr> in
         if a = alast then Some (0, s)
         else mappages_loop pagetable (a + PGSIZE) alast (pa + PGSIZE) perm s
     }"

definition mappages ::
  "u64 \<Rightarrow> u64 \<Rightarrow> u64 \<Rightarrow> u64 \<Rightarrow> u64 \<Rightarrow> 'a kmem_scheme \<Rightarrow> (int \<times> 'a kmem_scheme) option" where
  "mappages pagetable va sz pa perm s =
     (if sz = 0 then None
      else mappages_loop pagetable (PGROUNDDOWN va) (PGROUNDDOWN (va + sz - 1)) pa perm s)"

section \<open>The kernel page table\<close>

definition kvmmap ::
  "u64 \<Rightarrow> u64 \<Rightarrow> u64 \<Rightarrow> u64 \<Rightarrow> u64 \<Rightarrow> 'a kmem_scheme \<Rightarrow> 'a kmem_scheme option" where
  "kvmmap kpgtbl va pa sz perm s =
     do { (r, s) \<leftarrow> mappages kpgtbl va sz pa perm s; if r \<noteq> 0 then None else Some s }"

fun proc_mapstacks_loop :: "nat list \<Rightarrow> u64 \<Rightarrow> 'a kmem_scheme \<Rightarrow> 'a kmem_scheme option" where
  "proc_mapstacks_loop [] kpgtbl s = Some s"
| "proc_mapstacks_loop (p # ps) kpgtbl s =
     (let (pa, s) = kalloc s in
      if pa = 0 then None
      else do {
        s \<leftarrow> kvmmap kpgtbl (KSTACK p) pa PGSIZE (PTE_R OR PTE_W) s;
        proc_mapstacks_loop ps kpgtbl s
      })"

definition proc_mapstacks :: "u64 \<Rightarrow> 'a kmem_scheme \<Rightarrow> 'a kmem_scheme option" where
  "proc_mapstacks kpgtbl s = proc_mapstacks_loop [0..<NPROC] kpgtbl s"

definition kvmmake :: "'a kmem_scheme \<Rightarrow> (u64 \<times> 'a kmem_scheme) option" where
  "kvmmake s =
     (let (kpgtbl, s) = kalloc s;
          s = s\<lparr>mem := memset (mem s) kpgtbl 0 4096\<rparr>
      in do {
        s \<leftarrow> kvmmap kpgtbl UART0 UART0 PGSIZE (PTE_R OR PTE_W) s;
        s \<leftarrow> kvmmap kpgtbl VIRTIO0 VIRTIO0 PGSIZE (PTE_R OR PTE_W) s;
        s \<leftarrow> kvmmap kpgtbl PLIC PLIC 0x400000 (PTE_R OR PTE_W) s;
        s \<leftarrow> kvmmap kpgtbl KERNBASE KERNBASE (k_etext s - KERNBASE) (PTE_R OR PTE_X) s;
        s \<leftarrow> kvmmap kpgtbl (k_etext s) (k_etext s) (PHYSTOP - k_etext s) (PTE_R OR PTE_W) s;
        s \<leftarrow> kvmmap kpgtbl TRAMPOLINE (k_trampoline s) PGSIZE (PTE_R OR PTE_X) s;
        s \<leftarrow> proc_mapstacks kpgtbl s;
        Some (kpgtbl, s)
      })"

definition kvminit :: "'a vm_scheme \<Rightarrow> 'a vm_scheme option" where
  "kvminit s = do { (kpgtbl, s) \<leftarrow> kvmmake s; Some (s\<lparr>kernel_pagetable := kpgtbl\<rparr>) }"

definition kvminithart :: "'a vm_scheme \<Rightarrow> 'a vm_scheme" where
  "kvminithart s = s\<lparr>satp := MAKE_SATP (kernel_pagetable s)\<rparr>"

section \<open>User address spaces\<close>

partial_function (option) uvmunmap_loop ::
  "u64 \<Rightarrow> u64 \<Rightarrow> u64 \<Rightarrow> bool \<Rightarrow> 'a kmem_scheme \<Rightarrow> 'a kmem_scheme option" where
  "uvmunmap_loop pagetable a alast do_free s =
     (if a < alast
      then do {
        (pte, s) \<leftarrow> walk pagetable a False s;
        if pte = 0 then None
        else if load64 (mem s) pte AND PTE_V = 0 then None
        else if PTE_FLAGS (load64 (mem s) pte) = PTE_V then None
        else do {
          s \<leftarrow> (if do_free then kfree (PTE2PA (load64 (mem s) pte)) s else Some s);
          uvmunmap_loop pagetable (a + PGSIZE) alast do_free (s\<lparr>mem := store64 (mem s) pte 0\<rparr>)
        }
      }
      else Some s)"

definition uvmunmap :: "u64 \<Rightarrow> u64 \<Rightarrow> u64 \<Rightarrow> bool \<Rightarrow> 'a kmem_scheme \<Rightarrow> 'a kmem_scheme option" where
  "uvmunmap pagetable va npages do_free s =
     (if va mod PGSIZE \<noteq> 0 then None
      else uvmunmap_loop pagetable va (va + npages * PGSIZE) do_free s)"

definition uvmcreate :: "'a kmem_scheme \<Rightarrow> u64 \<times> 'a kmem_scheme" where
  "uvmcreate s =
     (let (pagetable, s) = kalloc s in
      if pagetable = 0 then (0, s)
      else (pagetable, s\<lparr>mem := memset (mem s) pagetable 0 4096\<rparr>))"

text \<open>\<open>memmove\<close> between a page and a kernel array.\<close>

definition mem_write :: "memory \<Rightarrow> u64 \<Rightarrow> bytes \<Rightarrow> nat \<Rightarrow> memory" where
  "mem_write m dst src n = (\<lambda>a. if unat (a - dst) < n then src (unat (a - dst)) else m a)"

definition mem_fetch :: "memory \<Rightarrow> bytes \<Rightarrow> nat \<Rightarrow> u64 \<Rightarrow> nat \<Rightarrow> bytes" where
  "mem_fetch m dst i src n = (\<lambda>k. if i \<le> k \<and> k < i + n then m (src + of_nat (k - i)) else dst k)"

definition uvmfirst :: "u64 \<Rightarrow> bytes \<Rightarrow> u32 \<Rightarrow> 'a kmem_scheme \<Rightarrow> 'a kmem_scheme option" where
  "uvmfirst pagetable src sz s =
     (if ucast sz \<ge> PGSIZE then None
      else let (page, s) = kalloc s;
               s = s\<lparr>mem := memset (mem s) page 0 4096\<rparr>
        in do {
          (_, s) \<leftarrow> mappages pagetable 0 PGSIZE page (PTE_W OR PTE_R OR PTE_X OR PTE_U) s;
          Some (s\<lparr>mem := mem_write (mem s) page src (unat sz)\<rparr>)
        })"

definition uvmdealloc :: "u64 \<Rightarrow> u64 \<Rightarrow> u64 \<Rightarrow> 'a kmem_scheme \<Rightarrow> (u64 \<times> 'a kmem_scheme) option" where
  "uvmdealloc pagetable oldsz newsz s =
     (if newsz \<ge> oldsz then Some (oldsz, s)
      else if PGROUNDUP newsz < PGROUNDUP oldsz
      then let npages = ucast ((PGROUNDUP oldsz - PGROUNDUP newsz) div PGSIZE) :: u32 in
        do { s \<leftarrow> uvmunmap pagetable (PGROUNDUP newsz) (scast npages) True s; Some (newsz, s) }
      else Some (newsz, s))"

partial_function (option) uvmalloc_loop ::
  "u64 \<Rightarrow> u64 \<Rightarrow> u64 \<Rightarrow> u64 \<Rightarrow> u64 \<Rightarrow> 'a kmem_scheme \<Rightarrow> (u64 \<times> 'a kmem_scheme) option" where
  "uvmalloc_loop pagetable oldsz a newsz xperm s =
     (if a < newsz
      then let (page, s) = kalloc s in
        if page = 0 then do { (_, s) \<leftarrow> uvmdealloc pagetable a oldsz s; Some (0, s) }
        else let s = s\<lparr>mem := memset (mem s) page 0 4096\<rparr> in
          do {
            (r, s) \<leftarrow> mappages pagetable a PGSIZE page (PTE_R OR PTE_U OR xperm) s;
            if r \<noteq> 0 then do {
              s \<leftarrow> kfree page s;
              (_, s) \<leftarrow> uvmdealloc pagetable a oldsz s;
              Some (0, s)
            }
            else uvmalloc_loop pagetable oldsz (a + PGSIZE) newsz xperm s
          }
      else Some (newsz, s))"

definition uvmalloc ::
  "u64 \<Rightarrow> u64 \<Rightarrow> u64 \<Rightarrow> u64 \<Rightarrow> 'a kmem_scheme \<Rightarrow> (u64 \<times> 'a kmem_scheme) option" where
  "uvmalloc pagetable oldsz newsz xperm s =
     (if newsz < oldsz then Some (oldsz, s)
      else uvmalloc_loop pagetable (PGROUNDUP oldsz) (PGROUNDUP oldsz) newsz xperm s)"

text \<open>\<open>freewalk_from pt i\<close> is the loop of \<open>freewalk\<close> at entry \<open>i\<close> followed by its alast statement.\<close>

partial_function (option) freewalk_from :: "u64 \<Rightarrow> nat \<Rightarrow> 'a kmem_scheme \<Rightarrow> 'a kmem_scheme option" where
  "freewalk_from pagetable i s =
     (if i < 512
      then let pte = load64 (mem s) (pagetable + 8 * of_nat i) in
        if pte AND PTE_V \<noteq> 0 \<and> pte AND (PTE_R OR PTE_W OR PTE_X) = 0
        then do {
          s \<leftarrow> freewalk_from (PTE2PA pte) 0 s;
          freewalk_from pagetable (Suc i) (s\<lparr>mem := store64 (mem s) (pagetable + 8 * of_nat i) 0\<rparr>)
        }
        else if pte AND PTE_V \<noteq> 0 then None
        else freewalk_from pagetable (Suc i) s
      else kfree pagetable s)"

definition freewalk :: "u64 \<Rightarrow> 'a kmem_scheme \<Rightarrow> 'a kmem_scheme option" where
  "freewalk pagetable s = freewalk_from pagetable 0 s"

definition uvmfree :: "u64 \<Rightarrow> u64 \<Rightarrow> 'a kmem_scheme \<Rightarrow> 'a kmem_scheme option" where
  "uvmfree pagetable sz s =
     do {
       s \<leftarrow> (if sz > 0 then uvmunmap pagetable 0 (PGROUNDUP sz div PGSIZE) True s else Some s);
       freewalk pagetable s
     }"

partial_function (option) uvmcopy_loop ::
  "u64 \<Rightarrow> u64 \<Rightarrow> u64 \<Rightarrow> u64 \<Rightarrow> 'a kmem_scheme \<Rightarrow> (int \<times> 'a kmem_scheme) option" where
  "uvmcopy_loop old new i sz s =
     (if i < sz
      then do {
        (pte, s) \<leftarrow> walk old i False s;
        if pte = 0 then None
        else if load64 (mem s) pte AND PTE_V = 0 then None
        else let pa = PTE2PA (load64 (mem s) pte);
                 flags = PTE_FLAGS (load64 (mem s) pte);
                 (page, s) = kalloc s
          in if page = 0
             then do { s \<leftarrow> uvmunmap new 0 (i div PGSIZE) True s; Some (-1, s) }
             else let s = s\<lparr>mem := memmove (mem s) page pa 4096\<rparr> in
               do {
                 (r, s) \<leftarrow> mappages new i PGSIZE page flags s;
                 if r \<noteq> 0
                 then do {
                   s \<leftarrow> kfree page s;
                   s \<leftarrow> uvmunmap new 0 (i div PGSIZE) True s;
                   Some (-1, s)
                 }
                 else uvmcopy_loop old new (i + PGSIZE) sz s
               }
      }
      else Some (0, s))"

definition uvmcopy :: "u64 \<Rightarrow> u64 \<Rightarrow> u64 \<Rightarrow> 'a kmem_scheme \<Rightarrow> (int \<times> 'a kmem_scheme) option" where
  "uvmcopy old new sz s = uvmcopy_loop old new 0 sz s"

definition uvmclear :: "u64 \<Rightarrow> u64 \<Rightarrow> 'a kmem_scheme \<Rightarrow> 'a kmem_scheme option" where
  "uvmclear pagetable va s =
     do {
       (pte, s) \<leftarrow> walk pagetable va False s;
       if pte = 0 then None
       else Some (s\<lparr>mem := store64 (mem s) pte (load64 (mem s) pte AND NOT PTE_U)\<rparr>)
     }"

section \<open>Copying between kernel and user space\<close>

text \<open>Bytes from \<open>va\<close> to the end of its page, at most \<open>len\<close>: the chunk of each iteration.\<close>

definition chunk :: "u64 \<Rightarrow> u64 \<Rightarrow> u64" where
  "chunk va len = (let n = PGSIZE - (va - PGROUNDDOWN va) in if n > len then len else n)"

lemma unat_page_offset: "unat (va - PGROUNDDOWN va) = unat va mod 4096"
proof -
  have "unat (va - PGROUNDDOWN va) = unat va - unat (PGROUNDDOWN va)"
    by (rule unat_sub) (simp add: word_le_nat_alt PGROUNDDOWN_le)
  then show ?thesis by (simp add: unat_PGROUNDDOWN minus_mult_div_eq_mod)
qed

lemma unat_chunk: "unat (chunk va len) = min (unat len) (4096 - unat va mod 4096)"
proof -
  have "va - PGROUNDDOWN va \<le> 4096"
    by (simp add: word_le_nat_alt unat_page_offset less_imp_le)
  then have "unat (4096 - (va - PGROUNDDOWN va)) = 4096 - unat va mod 4096"
    by (simp add: unat_sub unat_page_offset)
  then show ?thesis
    by (auto simp: chunk_def Let_def word_less_nat_alt min_def)
qed

lemma chunk_progress: "0 < len \<Longrightarrow> unat (len - chunk va len) < unat len"
proof -
  assume "0 < len"
  then have "0 < unat (chunk va len)" "chunk va len \<le> len"
    by (auto simp: unat_chunk word_less_nat_alt word_le_nat_alt)
  then show ?thesis by (simp add: unat_sub word_le_nat_alt)
qed

function copyout :: "u64 \<Rightarrow> u64 \<Rightarrow> bytes \<Rightarrow> u64 \<Rightarrow> 'a kmem_scheme \<Rightarrow> (int \<times> 'a kmem_scheme) option" where
  "copyout pagetable dstva src len s =
     (if len > 0
      then let va0 = PGROUNDDOWN dstva in
        do {
          pa0 \<leftarrow> walkaddr pagetable va0 s;
          if pa0 = 0 then Some (-1, s)
          else let n = chunk dstva len;
                   s = s\<lparr>mem := mem_write (mem s) (pa0 + (dstva - va0)) src (unat n)\<rparr>
            in copyout pagetable (va0 + PGSIZE) (\<lambda>k. src (k + unat n)) (len - n) s
        }
      else Some (0, s))"
  by pat_completeness auto
termination
  by (relation "measure (\<lambda>(_, _, _, len, _). unat len)") (use chunk_progress in auto)

function copyin_from ::
  "u64 \<Rightarrow> bytes \<Rightarrow> nat \<Rightarrow> u64 \<Rightarrow> u64 \<Rightarrow> 'a kmem_scheme \<Rightarrow> (int \<times> bytes) option" where
  "copyin_from pagetable dst i srcva len s =
     (if len > 0
      then let va0 = PGROUNDDOWN srcva in
        do {
          pa0 \<leftarrow> walkaddr pagetable va0 s;
          if pa0 = 0 then Some (-1, dst)
          else let n = chunk srcva len;
                   dst = mem_fetch (mem s) dst i (pa0 + (srcva - va0)) (unat n)
            in copyin_from pagetable dst (i + unat n) (va0 + PGSIZE) (len - n) s
        }
      else Some (0, dst))"
  by pat_completeness auto
termination
  by (relation "measure (\<lambda>(_, _, _, _, len, _). unat len)") (use chunk_progress in auto)

definition copyin :: "u64 \<Rightarrow> bytes \<Rightarrow> u64 \<Rightarrow> u64 \<Rightarrow> 'a kmem_scheme \<Rightarrow> (int \<times> bytes) option" where
  "copyin pagetable dst srcva len s = copyin_from pagetable dst 0 srcva len s"

text \<open>The inner loop of \<open>copyinstr\<close>: at most \<open>n\<close> bytes of one page, stopping after a NUL.\<close>

fun copystr :: "memory \<Rightarrow> bytes \<Rightarrow> nat \<Rightarrow> u64 \<Rightarrow> nat \<Rightarrow> bool \<times> bytes \<times> nat" where
  "copystr m dst i p 0 = (False, dst, i)"
| "copystr m dst i p (Suc n) =
     (if m p = 0 then (True, dst(i := 0), i)
      else copystr m (dst(i := m p)) (Suc i) (p + 1) n)"

function copyinstr_from ::
  "u64 \<Rightarrow> bytes \<Rightarrow> nat \<Rightarrow> u64 \<Rightarrow> u64 \<Rightarrow> 'a kmem_scheme \<Rightarrow> (int \<times> bytes) option" where
  "copyinstr_from pagetable dst i srcva mx s =
     (if mx > 0
      then let va0 = PGROUNDDOWN srcva in
        do {
          pa0 \<leftarrow> walkaddr pagetable va0 s;
          if pa0 = 0 then Some (-1, dst)
          else let n = chunk srcva mx in
            case copystr (mem s) dst i (pa0 + (srcva - va0)) (unat n) of
              (got_null, dst, i) \<Rightarrow>
                if got_null then Some (0, dst)
                else copyinstr_from pagetable dst i (va0 + PGSIZE) (mx - n) s
        }
      else Some (-1, dst))"
  by pat_completeness auto
termination
  by (relation "measure (\<lambda>(_, _, _, _, mx, _). unat mx)") (use chunk_progress in auto)

definition copyinstr :: "u64 \<Rightarrow> bytes \<Rightarrow> u64 \<Rightarrow> u64 \<Rightarrow> 'a kmem_scheme \<Rightarrow> (int \<times> bytes) option" where
  "copyinstr pagetable dst srcva mx s = copyinstr_from pagetable dst 0 srcva mx s"

declare copyout.simps [simp del] copyin_from.simps [simp del] copyinstr_from.simps [simp del]

end
