(* ===== verification/Vm_Walk.thy ===== *)
theory Vm_Walk
  imports Vm
begin

text \<open>
  Page tables as trees. The invariant \<open>vm_inv\<close> says that the pages reachable from the root are
  distinct, allocatable and off the free list; \<open>lookup\<close> is the map from virtual addresses to
  valid leaf entries that the table stands for. The lemmas lead to the specifications of
  \<open>walk\<close> and \<open>mappages\<close> over this abstraction.
\<close>

section \<open>Entries of a page table\<close>

lemma PTE2PA_of_pte [simp]:
  assumes "page_aligned pa" "perm < 1024"
  shows "PTE2PA (PA2PTE pa OR perm OR PTE_V) = pa"
proof (rule bit_word_eqI)
  fix n assume n: "n < LENGTH(64)"
  have low: "12 \<le> n" if "bit pa n"
  proof (rule ccontr)
    assume "\<not> 12 \<le> n"
    moreover have "take_bit 12 pa = 0" using assms(1)
      by (simp add: page_aligned_def take_bit_eq_mod)
    ultimately show False using that bit_take_bit_iff [of 12 pa n] by simp
  qed
  have hi: "\<not> bit perm k" if "10 \<le> k" for k
  proof
    assume b: "bit perm k"
    have "take_bit 10 perm = perm"
      using assms(2) by (simp only: word_unat_eq_iff unsigned_take_bit_eq)
        (simp add: take_bit_eq_mod word_less_nat_alt)
    then show False using b that by (metis bit_take_bit_iff not_le)
  qed
  have "\<not> bit (1::u64) k" if "10 \<le> k" for k using that by (simp add: bit_1_iff)
  with n low hi show "bit (PTE2PA (PA2PTE pa OR perm OR PTE_V)) n = bit pa n"
    by (auto simp: PTE2PA_def PA2PTE_def PTE_V_def bit_simps)
qed

lemma pte_valid_iff: "e AND PTE_V \<noteq> 0 \<longleftrightarrow> bit e 0"
  by (simp add: PTE_V_def and_one_eq odd_iff_mod_2_eq_one bit_0)

lemma pte_valid [simp]: "(x OR PTE_V) AND PTE_V \<noteq> 0" "(x OR y OR PTE_V) AND PTE_V \<noteq> 0"
  by (simp_all add: pte_valid_iff bit_or_iff) (simp_all add: PTE_V_def)

lemma PX_eq: "unat (PX l va) = unat va div 4096 div 512 ^ l mod 512"
proof -
  have "(0x1FF :: u64) = mask 9" by (simp add: mask_eq_exp_minus_1)
  then have "PX l va = take_bit 9 (drop_bit (12 + 9 * l) va)"
    by (simp add: PX_def PXSHIFT_def take_bit_eq_mask)
  then have "unat (PX l va) = unat va div 2 ^ (12 + 9 * l) mod 512"
    by (simp only: unsigned_take_bit_eq unat_drop_bit_eq) (simp add: take_bit_eq_mod drop_bit_eq_div)
  moreover have "(2::nat) ^ (12 + 9 * l) = 4096 * 512 ^ l"
    by (simp add: power_add power_mult)
  ultimately show ?thesis by (simp add: div_mult2_eq)
qed

lemma PX_less [simp]: "unat (PX l va) < 512"
  by (simp add: PX_eq)

lemma PX_inject:
  assumes "va < MAXVA" "vb < MAXVA"
  shows "PX 2 va = PX 2 vb \<and> PX 1 va = PX 1 vb \<and> PX 0 va = PX 0 vb \<longleftrightarrow> page_of va = page_of vb"
    (is "?l \<longleftrightarrow> ?r")
proof
  have split: "x = x mod 512 + 512 * (x div 512 mod 512) + 262144 * (x div 262144 mod 512)"
    if "x < 134217728" for x :: nat
  proof -
    have "x = y * 512 + c \<Longrightarrow> y = z * 512 + b \<Longrightarrow> x = c + 512 * b + 262144 * z" for y z b c :: nat
      by simp
    from this [of "x div 512" "x mod 512" "x div 512 div 512" "x div 512 mod 512"]
    have "x = x mod 512 + 512 * (x div 512 mod 512) + 262144 * (x div 512 div 512)" by simp
    moreover have "x div 512 div 512 = x div 262144" by (simp flip: div_mult2_eq)
    moreover have "x div 262144 < 512" using that by (simp add: less_mult_imp_div_less)
    ultimately show ?thesis by simp
  qed
  assume ?l
  then have "page_of va mod 512 = page_of vb mod 512"
    "page_of va div 512 mod 512 = page_of vb div 512 mod 512"
    "page_of va div 262144 mod 512 = page_of vb div 262144 mod 512"
    using PX_eq [of 0 va] PX_eq [of 0 vb] PX_eq [of 1 va] PX_eq [of 1 vb] PX_eq [of 2 va] PX_eq [of 2 vb]
    by (simp_all add: page_of_def)
  moreover have "page_of va < 134217728" "page_of vb < 134217728"
    using assms by (simp_all add: word_less_nat_alt page_of_def less_mult_imp_div_less)
  ultimately show ?r using split [of "page_of va"] split [of "page_of vb"] by metis
next
  assume ?r
  then have "PX l va = PX l vb" for l by (simp add: PX_eq page_of_def word_unat_eq_iff)
  then show ?l by simp
qed

lemma PX_PGROUNDDOWN [simp]: "PX l (PGROUNDDOWN va) = PX l va"
  by (simp add: word_unat_eq_iff PX_eq unat_PGROUNDDOWN)

text \<open>Entry \<open>i\<close> of the table in page \<open>p\<close>.\<close>

abbreviation entry :: "memory \<Rightarrow> u64 \<Rightarrow> u64 \<Rightarrow> u64" where
  "entry m p i \<equiv> load64 m (p + 8 * i)"

lemma entry_addr: "unat i < 512 \<Longrightarrow> p + 8 * i = p + of_nat (8 * unat i)"
  by simp

lemma unat_entry: "page_aligned p \<Longrightarrow> unat i < 512 \<Longrightarrow> unat (p + 8 * i) = unat p + 8 * unat i"
  using page_offset_unat [of p "8 * unat i"] by simp

lemma entry_nonzero: "page_aligned p \<Longrightarrow> p \<noteq> 0 \<Longrightarrow> unat i < 512 \<Longrightarrow> p + 8 * i \<noteq> 0"
  using unat_entry [of p i] by (metis add_is_0 unat_0 unat_eq_zero)

lemma entry_page: "page_aligned p \<Longrightarrow> unat i < 512 \<Longrightarrow> k < 8 \<Longrightarrow> page_of (p + 8 * i + of_nat k) = page_of p"
  using page_of_offset [of p "8 * unat i + k"] by (simp add: add.assoc)

lemma entry_cong:
  "page_aligned p \<Longrightarrow> unat i < 512 \<Longrightarrow> (\<And>a. page_of a = page_of p \<Longrightarrow> m a = m' a) \<Longrightarrow> entry m p i = entry m' p i"
  by (rule load64_cong) (simp add: entry_page)

lemma store_entry_frame:
  assumes "page_aligned p" "unat i < 512" "page_of a \<noteq> page_of p"
  shows "store64 m (p + 8 * i) v a = m a"
proof -
  have "\<not> a - (p + 8 * i) < 8"
  proof
    assume "a - (p + 8 * i) < 8"
    then have "page_of (p + 8 * i + of_nat (unat (a - (p + 8 * i)))) = page_of p"
      by (intro entry_page) (use assms in \<open>auto simp: word_less_nat_alt\<close>)
    with assms(3) show False by simp
  qed
  then show ?thesis by (simp add: store64_def)
qed

lemma store_entry_other:
  assumes "page_aligned p" "unat i < 512" "unat j < 512" "i \<noteq> j"
  shows "entry (store64 m (p + 8 * i) v) p j = entry m p j"
proof (rule load64_cong)
  fix k :: nat assume k: "k < 8"
  have ij: "unat i \<noteq> unat j" using assms(4) by (simp add: word_unat_eq_iff)
  have "\<not> p + 8 * j + of_nat k - (p + 8 * i) < 8"
  proof
    assume "p + 8 * j + of_nat k - (p + 8 * i) < 8"
    then obtain d where d: "d < 8" "p + 8 * j + of_nat k = p + 8 * i + of_nat d"
      by (intro that [of "unat (p + 8 * j + of_nat k - (p + 8 * i))"]) (simp_all add: word_less_nat_alt)
    have "unat (p + 8 * j + of_nat k) = unat p + (8 * unat j + k)"
      using page_offset_unat [of p "8 * unat j + k"] assms k by (simp add: add.assoc)
    moreover have "unat (p + 8 * i + of_nat d) = unat p + (8 * unat i + d)"
      using page_offset_unat [of p "8 * unat i + d"] assms d by (simp add: add.assoc)
    ultimately have "8 * unat j + k = 8 * unat i + d" using d(2) by simp
    then have "(8 * unat j + k) div 8 = (8 * unat i + d) div 8" by (rule arg_cong)
    then show False using d(1) ij k by simp
  qed
  then show "store64 m (p + 8 * i) v (p + 8 * j + of_nat k) = m (p + 8 * j + of_nat k)"
    by (simp add: store64_def)
qed

lemma entry_store_entry:
  assumes "page_aligned p" "page_aligned q" "unat i < 512" "unat j < 512"
  shows "entry (store64 m (p + 8 * i) v) q j = (if p = q \<and> i = j then v else entry m q j)"
proof (cases "p = q")
  case False
  then have "page_of a \<noteq> page_of p" if "page_of a = page_of q" for a
    using that assms page_of_inject by metis
  then show ?thesis using False assms by (auto intro!: entry_cong simp: store_entry_frame)
qed (use assms in \<open>auto simp: store_entry_other\<close>)

lemma entry_zero_page:
  "page_aligned p \<Longrightarrow> unat i < 512 \<Longrightarrow> entry (memset m p 0 4096) p i = 0"
proof -
  assume a: "page_aligned p" "unat i < 512"
  then have "entry (memset m p 0 4096) p i = entry (\<lambda>_. 0) p i"
    by (intro entry_cong) (simp_all add: memset_page)
  then show ?thesis by (simp add: load64_def le64_def)
qed

section \<open>The tree of table pages\<close>

text \<open>
  \<open>node m pt is\<close> is the table page reached from the root \<open>pt\<close> along the indices \<open>is\<close>; a path has
  at most two indices, and the tables at depth two hold the leaf entries.
\<close>

fun node :: "memory \<Rightarrow> u64 \<Rightarrow> u64 list \<Rightarrow> u64 option" where
  "node m pt [] = Some pt"
| "node m pt (i # is) = (if entry m pt i AND PTE_V \<noteq> 0 then node m (PTE2PA (entry m pt i)) is else None)"

definition path :: "u64 list \<Rightarrow> bool" where
  "path is \<longleftrightarrow> length is \<le> 2 \<and> (\<forall>i \<in> set is. unat i < 512)"

definition tables :: "memory \<Rightarrow> u64 \<Rightarrow> u64 set" where
  "tables m pt = {p. \<exists>is. path is \<and> node m pt is = Some p}"

definition tpath :: "u64 \<Rightarrow> u64 list" where
  "tpath va = [PX 2 va, PX 1 va]"

definition lookup :: "memory \<Rightarrow> u64 \<Rightarrow> u64 \<Rightarrow> u64 option" where
  "lookup m pt va =
     (case node m pt (tpath va) of
        None \<Rightarrow> None
      | Some p \<Rightarrow> if entry m p (PX 0 va) AND PTE_V \<noteq> 0 then Some (entry m p (PX 0 va)) else None)"

definition vm_inv :: "'a kmem_scheme \<Rightarrow> u64 \<Rightarrow> u64 list \<Rightarrow> bool" where
  "vm_inv s pt ps \<longleftrightarrow>
     kmem_pool s ps
     \<and> (\<forall>p \<in> tables (mem s) pt. kpage s p \<and> p \<notin> set ps)
     \<and> (\<forall>is js p. path is \<longrightarrow> path js \<longrightarrow> node (mem s) pt is = Some p \<longrightarrow> node (mem s) pt js = Some p \<longrightarrow> is = js)"

lemma node_append: "node m pt (is @ js) = (case node m pt is of None \<Rightarrow> None | Some p \<Rightarrow> node m p js)"
  by (induction "is" arbitrary: pt) auto

lemma node_snoc:
  "node m pt (is @ [i]) = (case node m pt is of None \<Rightarrow> None
     | Some p \<Rightarrow> if entry m p i AND PTE_V \<noteq> 0 then Some (PTE2PA (entry m p i)) else None)"
  by (simp add: node_append split: option.split)

lemma PTE_V_nonzero [simp]: "PTE_V \<noteq> 0"
  by (simp add: PTE_V_def)

lemma pte_nonzero [simp]: "x OR PTE_V \<noteq> 0" "x OR y OR PTE_V \<noteq> 0"
  by (metis pte_valid(1) zero_and_eq, metis pte_valid(2) zero_and_eq)

lemma path_simps [simp]:
  "path []" "path (tpath va)"
  "path (is @ js) \<longleftrightarrow> length is + length js \<le> 2 \<and> (\<forall>i \<in> set is \<union> set js. unat i < 512)"
  by (auto simp: path_def tpath_def)

lemma path_index: "path is \<Longrightarrow> i \<in> set is \<Longrightarrow> unat i < 512"
  by (simp add: path_def)

lemma tables_I: "path is \<Longrightarrow> node m pt is = Some p \<Longrightarrow> p \<in> tables m pt"
  by (auto simp: tables_def)

lemma kpage_facts:
  "kmem_pool s ps \<Longrightarrow> kpage s p \<Longrightarrow> page_aligned p \<and> p \<noteq> 0 \<and> p < PHYSTOP"
  by (auto simp: kmem_pool_def kpage_def)

lemma vm_inv_table:
  assumes "vm_inv s pt ps" "path is" "node (mem s) pt is = Some p"
  shows "page_aligned p" "p \<noteq> 0" "p \<notin> set ps" "kpage s p"
proof -
  have "kpage s p \<and> p \<notin> set ps" using assms tables_I by (auto simp: vm_inv_def)
  then show "page_aligned p" "p \<noteq> 0" "p \<notin> set ps" "kpage s p"
    using assms(1) kpage_facts by (auto simp: vm_inv_def)
qed

lemma vm_inv_unique:
  "vm_inv s pt ps \<Longrightarrow> path is \<Longrightarrow> path js \<Longrightarrow> node (mem s) pt is = Some p \<Longrightarrow>
   node (mem s) pt js = Some p \<Longrightarrow> is = js"
  by (simp add: vm_inv_def)

lemma node_cong:
  assumes "path is"
    and "\<And>js p i. path js \<Longrightarrow> length js < 2 \<Longrightarrow> node m pt js = Some p \<Longrightarrow> unat i < 512 \<Longrightarrow>
      entry m' p i = entry m p i"
  shows "node m' pt is = node m pt is"
  using assms(1)
proof (induction "is" rule: rev_induct)
  case (snoc i "is")
  then have IH: "node m' pt is = node m pt is" by (simp add: path_def)
  show ?case
  proof (cases "node m pt is")
    case (Some p)
    then have "entry m' p i = entry m p i"
      using snoc.prems by (intro assms(2) [of "is"]) (auto simp: path_def)
    then show ?thesis using IH Some by (simp add: node_append)
  qed (simp add: IH node_append)
qed simp

lemma tables_cong:
  assumes "\<And>is. path is \<Longrightarrow> node m' pt is = node m pt is"
  shows "tables m' pt = tables m pt"
  using assms by (auto simp: tables_def)

lemma vm_inv_cong:
  assumes "vm_inv s pt ps" "\<And>is. path is \<Longrightarrow> node (mem s') pt is = node (mem s) pt is"
    and "kmem_pool s' ps" "k_end s' = k_end s"
  shows "vm_inv s' pt ps"
  using assms tables_cong [OF assms(2)] by (auto simp: vm_inv_def kpage_def)

text \<open>Writing a leaf entry keeps the tree.\<close>

lemma vm_inv_leaf_store:
  fixes s :: "'a kmem_scheme" and v :: u64
  assumes inv: "vm_inv s pt ps" and p: "node (mem s) pt (tpath va) = Some p" and i: "unat i < 512"
  defines "s' \<equiv> s\<lparr>mem := store64 (mem s) (p + 8 * i) v\<rparr>"
  shows "vm_inv s' pt ps" "path is \<Longrightarrow> node (mem s') pt is = node (mem s) pt is"
proof -
  note pt = vm_inv_table [OF inv path_simps(2) p]
  have nd: "node (mem s') pt is = node (mem s) pt is" if "path is" for "is"
  proof (rule node_cong [OF that])
    fix js q and j :: u64 assume js: "path js" "length js < 2" "node (mem s) pt js = Some q" "unat j < 512"
    then have "q \<noteq> p" using vm_inv_unique [OF inv js(1) path_simps(2) js(3)] p
      by (auto simp: tpath_def)
    then show "entry (mem s') q j = entry (mem s) q j"
      using pt(1) i js vm_inv_table [OF inv js(1,3)] by (auto simp: s'_def entry_store_entry)
  qed
  then show "path is \<Longrightarrow> node (mem s') pt is = node (mem s) pt is" .
  have pool: "kmem_pool s' ps"
  proof (rule kmem_pool_frame)
    show "kmem_pool s ps" using inv by (simp add: vm_inv_def)
    show "mem s' a = mem s a" if "q \<in> set ps" "page_of a = page_of q" for q a
    proof -
      have "page_aligned q" using inv that by (auto simp: vm_inv_def kmem_pool_def kpage_def)
      then have "page_of q \<noteq> page_of p" using that pt page_of_inject by metis
      then show ?thesis using that pt(1) i by (simp add: s'_def store_entry_frame)
    qed
  qed (simp_all add: s'_def)
  show "vm_inv s' pt ps" by (rule vm_inv_cong [OF inv nd pool]) (simp_all add: s'_def)
qed


text \<open>Adding an empty table below an existing one.\<close>

definition new_table :: "u64 \<Rightarrow> u64 \<Rightarrow> 'a kmem_scheme \<Rightarrow> 'a kmem_scheme" where
  "new_table a q s = (let s = snd (kalloc s);
      s = s\<lparr>mem := memset (mem s) q 0 4096\<rparr>
      in s\<lparr>mem := store64 (mem s) a (PA2PTE q OR PTE_V)\<rparr>)"

lemma PTE2PA_table [simp]: "page_aligned q \<Longrightarrow> PTE2PA (PA2PTE q OR PTE_V) = q"
  using PTE2PA_of_pte [of q 0] by simp

lemma new_table_mem:
  assumes pool: "kmem_pool s (q # ps)" and p: "page_aligned p" and i: "unat i < 512"
  shows "mem (new_table (p + 8 * i) q s) =
    store64 (\<lambda>a. if page_of a = page_of q then 0 else mem s a) (p + 8 * i) (PA2PTE q OR PTE_V)"
proof -
  have q: "page_aligned q" using pool by (simp add: kmem_pool_def kpage_def)
  have "(\<lambda>a. if page_of a = page_of q then 0 else if page_of a = page_of q then 5 else mem s a) =
      (\<lambda>a. if page_of a = page_of q then 0 else mem s a)" by auto
  then show ?thesis
    using kalloc_pool(1) [OF pool] by (simp add: new_table_def memset_page [OF q] cong: if_cong)
qed

lemma new_table_frame:
  assumes pool: "kmem_pool s (q # ps)" and p: "page_aligned p" and i: "unat i < 512"
    and "page_of a \<noteq> page_of p" "page_of a \<noteq> page_of q"
  shows "mem (new_table (p + 8 * i) q s) a = mem s a"
  using assms by (simp add: new_table_mem store_entry_frame)

lemma new_table_entry:
  assumes pool: "kmem_pool s (q # ps)" and p: "page_aligned p" "p \<noteq> q" and i: "unat i < 512"
    and r: "page_aligned r" and k: "unat k < 512"
  shows "entry (mem (new_table (p + 8 * i) q s)) r k =
    (if r = q then 0 else if r = p \<and> k = i then PA2PTE q OR PTE_V else entry (mem s) r k)"
proof -
  let ?z = "\<lambda>a. if page_of a = page_of q then 0 else mem s a"
  have q: "page_aligned q" using pool by (simp add: kmem_pool_def kpage_def)
  have "entry ?z r k = (if r = q then 0 else entry (mem s) r k)"
  proof (cases "r = q")
    case True
    then have "entry ?z r k = entry (\<lambda>_. 0) r k" using r k by (intro entry_cong) simp_all
    then show ?thesis using True by (simp add: load64_def le64_def)
  next
    case False
    then have "page_of r \<noteq> page_of q" using q r page_of_inject by blast
    then have "entry ?z r k = entry (mem s) r k" using r k by (intro entry_cong) simp_all
    then show ?thesis using False by simp
  qed
  then show ?thesis using assms by (auto simp: new_table_mem [OF pool p(1) i] entry_store_entry)
qed

lemma new_table_pool:
  assumes pool: "kmem_pool s (q # ps)" and p: "page_aligned p" "p \<notin> set ps" and i: "unat i < 512"
  shows "kmem_pool (new_table (p + 8 * i) q s) ps" "k_end (new_table (p + 8 * i) q s) = k_end s"
proof -
  have eq: "kalloc s = (q, s\<lparr>freelist := load64 (mem s) q, mem := memset (mem s) q 5 4096\<rparr>)"
    and pool': "kmem_pool (snd (kalloc s)) ps"
    using kalloc_pool [OF pool] by auto
  show "k_end (new_table (p + 8 * i) q s) = k_end s" by (simp add: new_table_def eq)
  show "kmem_pool (new_table (p + 8 * i) q s) ps"
  proof (rule kmem_pool_frame [OF pool'])
    fix r a assume r: "r \<in> set ps" "page_of a = page_of r"
    have al: "page_aligned r" "page_aligned q" "r \<noteq> q"
      using r pool by (auto simp: kmem_pool_def kpage_def)
    then have "page_of a \<noteq> page_of q" "page_of a \<noteq> page_of p"
      using r p page_of_inject by metis+
    then show "mem (new_table (p + 8 * i) q s) a = mem (snd (kalloc s)) a"
      using p i pool al(2) by (simp add: new_table_frame eq memset_page)
  qed (simp_all add: new_table_def eq)
qed

lemma node_new_table:
  assumes inv: "vm_inv s pt (q # ps)" and "is": "path is" "length is < 2" "node (mem s) pt is = Some p"
    and i: "unat i < 512" and e: "entry (mem s) p i AND PTE_V = 0" and js: "path js"
  shows "node (mem (new_table (p + 8 * i) q s)) pt js = (if js = is @ [i] then Some q else node (mem s) pt js)"
  using js
proof (induction js rule: rev_induct)
  case (snoc k ks)
  have pool: "kmem_pool s (q # ps)" using inv by (simp add: vm_inv_def)
  have q: "page_aligned q" using pool by (simp add: kmem_pool_def kpage_def)
  have p: "page_aligned p" "p \<noteq> q" using vm_inv_table [OF inv "is"(1,3)] by auto
  note ent = new_table_entry [OF pool p i]
  have k: "unat k < 512" and ks: "path ks" "length ks < 2" using snoc.prems by (auto simp: path_def)
  note IH = snoc.IH [OF ks(1)]
  show ?case
  proof (cases "ks = is @ [i]")
    case True
    have "node (mem s) pt ks = None" using True "is"(3) e by (simp add: node_snoc)
    then show ?thesis unfolding node_snoc [of _ _ ks k] IH using True k q by (simp add: ent)
  next
    case False
    show ?thesis
    proof (cases "node (mem s) pt ks")
      case None
      then show ?thesis using IH False "is"(3) by (auto simp: node_append)
    next
      case (Some r)
      then have r: "page_aligned r" "r \<noteq> q" using vm_inv_table [OF inv ks(1) Some] by auto
      have "r = p \<longleftrightarrow> ks = is" using Some "is" vm_inv_unique [OF inv ks(1) "is"(1)] by auto
      then show ?thesis using IH False Some r k ent [of r k] q "is"(3)
        by (auto simp: node_append)
    qed
  qed
qed simp

lemma vm_inv_new_table:
  assumes inv: "vm_inv s pt (q # ps)" and "is": "path is" "length is < 2" "node (mem s) pt is = Some p"
    and i: "unat i < 512" and e: "entry (mem s) p i AND PTE_V = 0"
  shows "vm_inv (new_table (p + 8 * i) q s) pt ps"
proof -
  let ?s = "new_table (p + 8 * i) q s"
  have pool: "kmem_pool s (q # ps)" using inv by (simp add: vm_inv_def)
  have p: "page_aligned p" "p \<notin> set ps" using vm_inv_table [OF inv "is"(1,3)] by auto
  note pool' = new_table_pool [OF pool p i]
  note nd = node_new_table [OF assms]
  have "kpage ?s r \<and> r \<notin> set ps" if "r \<in> tables (mem ?s) pt" for r
  proof -
    from that have "r = q \<or> r \<in> tables (mem s) pt" by (auto simp: tables_def nd split: if_splits)
    then show ?thesis using inv pool pool'(2) by (auto simp: vm_inv_def kmem_pool_def kpage_def)
  qed
  moreover have "js = ks" if "path js" "path ks" "node (mem ?s) pt js = Some r" "node (mem ?s) pt ks = Some r" for js ks r
    using that nd vm_inv_table(3) [OF inv] vm_inv_unique [OF inv] by (fastforce split: if_splits)
  ultimately show ?thesis using pool'(1) by (simp add: vm_inv_def)
qed

lemma lookup_new_table:
  assumes inv: "vm_inv s pt (q # ps)" and "is": "path is" "length is < 2" "node (mem s) pt is = Some p"
    and i: "unat i < 512" and e: "entry (mem s) p i AND PTE_V = 0"
  shows "lookup (mem (new_table (p + 8 * i) q s)) pt va = lookup (mem s) pt va"
proof -
  have pool: "kmem_pool s (q # ps)" using inv by (simp add: vm_inv_def)
  have q: "page_aligned q" using pool by (simp add: kmem_pool_def kpage_def)
  have p: "page_aligned p" "p \<noteq> q" using vm_inv_table [OF inv "is"(1,3)] by auto
  note ent = new_table_entry [OF pool p i]
  note nd = node_new_table [OF assms path_simps(2) [of va]]
  show ?thesis
  proof (cases "tpath va = is @ [i]")
    case True
    then have "node (mem s) pt (tpath va) = None" using "is"(3) e by (simp add: node_snoc)
    then show ?thesis using nd True q by (simp add: lookup_def ent)
  next
    case False
    show ?thesis
    proof (cases "node (mem s) pt (tpath va)")
      case (Some r)
      then have r: "page_aligned r" "r \<noteq> q" using vm_inv_table [OF inv path_simps(2) Some] by auto
      have "tpath va \<noteq> is" using "is"(2) by (auto simp: tpath_def)
      then have "r \<noteq> p" using Some "is"(3) vm_inv_unique [OF inv path_simps(2) "is"(1)] by blast
      then show ?thesis using nd False Some r ent [of r "PX 0 va"] by (simp add: lookup_def)
    qed (use nd False in \<open>simp add: lookup_def\<close>)
  qed
qed

text \<open>What an operation on the table \<open>pt\<close> may change: memory in its tables and in the pages it
  took from the pool.\<close>

definition pt_frame :: "u64 \<Rightarrow> u64 list \<Rightarrow> u64 list \<Rightarrow> 'a kmem_scheme \<Rightarrow> 'a kmem_scheme \<Rightarrow> bool" where
  "pt_frame pt ps ps' s s' \<longleftrightarrow>
     (\<exists>qs. ps = qs @ ps' \<and> tables (mem s') pt \<subseteq> tables (mem s) pt \<union> set qs \<and>
        (\<forall>a. page_of a \<notin> page_of ` (tables (mem s) pt \<union> set qs) \<longrightarrow> mem s' a = mem s a))
     \<and> s' = s\<lparr>mem := mem s', freelist := freelist s'\<rparr>"

lemma pt_frame_refl [simp]: "pt_frame pt ps ps s s"
  by (simp add: pt_frame_def)

lemma pt_frame_trans:
  assumes "pt_frame pt ps ps' s s'" "pt_frame pt ps' ps'' s' s''"
  shows "pt_frame pt ps ps'' s s''"
proof -
  obtain qs where 1: "ps = qs @ ps'" "tables (mem s') pt \<subseteq> tables (mem s) pt \<union> set qs"
      "\<And>a. page_of a \<notin> page_of ` (tables (mem s) pt \<union> set qs) \<Longrightarrow> mem s' a = mem s a"
      "s' = s\<lparr>mem := mem s', freelist := freelist s'\<rparr>"
    using assms(1) by (auto simp: pt_frame_def)
  obtain rs where 2: "ps' = rs @ ps''" "tables (mem s'') pt \<subseteq> tables (mem s') pt \<union> set rs"
      "\<And>a. page_of a \<notin> page_of ` (tables (mem s') pt \<union> set rs) \<Longrightarrow> mem s'' a = mem s' a"
      "s'' = s'\<lparr>mem := mem s'', freelist := freelist s''\<rparr>"
    using assms(2) by (auto simp: pt_frame_def)
  have "mem s'' a = mem s a" if "page_of a \<notin> page_of ` (tables (mem s) pt \<union> set (qs @ rs))" for a
  proof -
    from that have "page_of a \<notin> page_of ` (tables (mem s') pt \<union> set rs)" using 1(2) by auto
    with that 1(3) [of a] 2(3) [of a] show ?thesis by auto
  qed
  moreover have "s'' = s\<lparr>mem := mem s'', freelist := freelist s''\<rparr>"
    using 2(4) by (subst (asm) 1(4)) simp
  ultimately show ?thesis
    unfolding pt_frame_def using 1(1,2) 2(1,2) by (intro conjI exI [of _ "qs @ rs"]) auto
qed

lemma pt_frame_k_end: "pt_frame pt ps ps' s s' \<Longrightarrow> k_end s' = k_end s"
proof -
  assume "pt_frame pt ps ps' s s'"
  then have "s' = s\<lparr>mem := mem s', freelist := freelist s'\<rparr>" by (simp add: pt_frame_def)
  then have "k_end s' = k_end (s\<lparr>mem := mem s', freelist := freelist s'\<rparr>)" by (rule arg_cong)
  then show ?thesis by simp
qed

lemma pt_frame_mem:
  assumes "pt_frame pt ps ps' s s'" "page_of a \<notin> page_of ` tables (mem s) pt" "page_of a \<notin> page_of ` set ps"
  shows "mem s' a = mem s a"
  using assms by (auto simp: pt_frame_def)

lemma new_table_pt_frame:
  assumes inv: "vm_inv s pt (q # ps)" and "is": "path is" "length is < 2" "node (mem s) pt is = Some p"
    and i: "unat i < 512" and e: "entry (mem s) p i AND PTE_V = 0"
  shows "pt_frame pt (q # ps) ps s (new_table (p + 8 * i) q s)"
proof -
  let ?s = "new_table (p + 8 * i) q s"
  have pool: "kmem_pool s (q # ps)" using inv by (simp add: vm_inv_def)
  have p: "page_aligned p" "p \<in> tables (mem s) pt" using vm_inv_table [OF inv "is"(1,3)] tables_I "is" by auto
  have "tables (mem ?s) pt \<subseteq> tables (mem s) pt \<union> {q}"
    using node_new_table [OF assms] by (auto simp: tables_def split: if_splits)
  moreover have "mem ?s a = mem s a" if "page_of a \<notin> page_of ` (tables (mem s) pt \<union> {q})" for a
    using that p new_table_frame [OF pool p(1) i] by blast
  moreover have "?s = s\<lparr>mem := mem ?s, freelist := freelist ?s\<rparr>"
    by (simp add: new_table_def kalloc_pool(1) [OF pool])
  ultimately show ?thesis unfolding pt_frame_def by (intro conjI exI [of _ "[q]"]) auto
qed

section \<open>walk\<close>

text \<open>One level of \<open>walk\<close> that is asked to allocate.\<close>

lemma walk_step:
  assumes inv: "vm_inv s pt ps" and "is": "path is" "length is < 2" "node (mem s) pt is = Some p"
  shows "walk_loop (Suc l) p va True s = (0, s) \<and> ps = []
    \<or> (\<exists>q s' ps'. walk_loop (Suc l) p va True s = walk_loop l q va True s' \<and> vm_inv s' pt ps' \<and>
        node (mem s') pt (is @ [PX (Suc l) va]) = Some q \<and> pt_frame pt ps ps' s s' \<and>
        length ps \<le> length ps' + 1 \<and> (\<forall>vb. lookup (mem s') pt vb = lookup (mem s) pt vb))"
proof (cases "entry (mem s) p (PX (Suc l) va) AND PTE_V = 0")
  case False
  then show ?thesis using assms
    by (intro disjI2 exI [of _ "PTE2PA (entry (mem s) p (PX (Suc l) va))"] exI [of _ s] exI [of _ ps])
      (simp add: node_snoc)
next
  case e: True
  have pool: "kmem_pool s ps" using inv by (simp add: vm_inv_def)
  show ?thesis
  proof (cases ps)
    case Nil
    then show ?thesis using e pool kmem_pool_empty [of s] by simp
  next
    case (Cons q qs)
    let ?s = "new_table (p + 8 * PX (Suc l) va) q s"
    note i = PX_less [of "Suc l" va]
    have inv': "vm_inv s pt (q # qs)" using inv Cons by simp
    note facts = vm_inv_new_table [OF inv' "is" i e] node_new_table [OF inv' "is" i e]
      new_table_pt_frame [OF inv' "is" i e] lookup_new_table [OF inv' "is" i e]
    obtain s1 where "kalloc s = (q, s1)" using kalloc_pool [OF pool [unfolded Cons]] by simp
    moreover have "q \<noteq> 0" using pool Cons by (auto simp: kmem_pool_def)
    ultimately have "walk_loop (Suc l) p va True s = walk_loop l q va True ?s"
      using e by (simp add: new_table_def)
    moreover have "path (is @ [PX (Suc l) va])" using "is"(1,2) by (auto simp: path_def)
    ultimately show ?thesis using facts Cons
      by (intro disjI2 exI [of _ q] exI [of _ ?s] exI [of _ qs]) simp
  qed
qed

lemma walk_alloc:
  assumes inv: "vm_inv s pt ps" and va: "va < MAXVA"
  shows "\<exists>r s' ps'. walk pt va True s = Some (r, s') \<and> vm_inv s' pt ps' \<and> pt_frame pt ps ps' s s' \<and>
    (\<forall>vb. lookup (mem s') pt vb = lookup (mem s) pt vb) \<and> length ps \<le> length ps' + 2 \<and>
    (r = 0 \<and> ps' = [] \<and> length ps < 2 \<or> (\<exists>p. node (mem s') pt (tpath va) = Some p \<and> r = p + 8 * PX 0 va))"
proof -
  have w: "walk pt va True s = Some (walk_loop (Suc 1) pt va True s)"
    using va by (simp add: walk_def numeral_2_eq_2)
  consider (out) "walk_loop (Suc 1) pt va True s = (0, s)" "ps = []"
    | (down) q s1 ps1 where "walk_loop (Suc 1) pt va True s = walk_loop 1 q va True s1" "vm_inv s1 pt ps1"
        "node (mem s1) pt ([] @ [PX (Suc 1) va]) = Some q" "pt_frame pt ps ps1 s s1"
        "\<forall>vb. lookup (mem s1) pt vb = lookup (mem s) pt vb" "length ps \<le> length ps1 + 1"
    using walk_step [OF inv, of "[]" pt 1 va] by auto
  then show ?thesis
  proof cases
    case out
    then show ?thesis using w inv by auto
  next
    case down
    have "walk_loop (Suc 0) q va True s1 = (0, s1) \<and> ps1 = []
      \<or> (\<exists>q2 s2 ps2. walk_loop (Suc 0) q va True s1 = walk_loop 0 q2 va True s2 \<and> vm_inv s2 pt ps2 \<and>
          node (mem s2) pt ([PX (Suc 1) va] @ [PX (Suc 0) va]) = Some q2 \<and> pt_frame pt ps1 ps2 s1 s2 \<and>
          length ps1 \<le> length ps2 + 1 \<and> (\<forall>vb. lookup (mem s2) pt vb = lookup (mem s1) pt vb))"
      using down(3) by (intro walk_step [OF down(2)]) (simp_all add: path_def)
    then show ?thesis
    proof (elim disjE exE conjE)
      assume a: "walk_loop (Suc 0) q va True s1 = (0, s1)" "ps1 = []"
      then show ?thesis using w down by auto
    next
      fix q2 s2 ps2
      assume a: "walk_loop (Suc 0) q va True s1 = walk_loop 0 q2 va True s2" "vm_inv s2 pt ps2"
        "node (mem s2) pt ([PX (Suc 1) va] @ [PX (Suc 0) va]) = Some q2" "pt_frame pt ps1 ps2 s1 s2"
        "length ps1 \<le> length ps2 + 1" "\<forall>vb. lookup (mem s2) pt vb = lookup (mem s1) pt vb"
      have "tpath va = [PX (Suc 1) va] @ [PX (Suc 0) va]" by (simp add: tpath_def numeral_2_eq_2)
      then show ?thesis using w down(1,5,6) a pt_frame_trans [OF down(4) a(4)] by auto
    qed
  qed
qed

lemma walk_find:
  assumes inv: "vm_inv s pt ps" and va: "va < MAXVA"
  shows "walk pt va False s =
    Some (case node (mem s) pt (tpath va) of None \<Rightarrow> 0 | Some p \<Rightarrow> p + 8 * PX 0 va, s)"
  using va by (simp add: walk_def tpath_def numeral_2_eq_2 not_le)

lemma walkaddr_lookup:
  assumes inv: "vm_inv s pt ps" and va: "va < MAXVA"
  shows "walkaddr pt va s = Some (case lookup (mem s) pt va of None \<Rightarrow> 0
    | Some e \<Rightarrow> if e AND PTE_U = 0 then 0 else PTE2PA e)"
proof -
  have nv: "\<not> MAXVA \<le> va" using va by (simp only: not_le)
  show ?thesis
  proof (cases "node (mem s) pt (tpath va)")
    case (Some p)
    then have "p + 8 * PX 0 va \<noteq> 0"
      using vm_inv_table [OF inv path_simps(2)] by (intro entry_nonzero) auto
    then show ?thesis
      unfolding walkaddr_def if_not_P [OF nv] walk_find [OF assms] using Some by (simp add: lookup_def)
  qed (simp add: walkaddr_def if_not_P [OF nv] walk_find [OF assms] lookup_def)
qed

section \<open>mappages\<close>

lemma lookup_leaf_store:
  assumes inv: "vm_inv s pt ps" and va: "va < MAXVA" "vb < MAXVA" and p: "node (mem s) pt (tpath va) = Some p"
    and v: "v AND PTE_V \<noteq> 0 \<or> v = 0"
  shows "lookup (store64 (mem s) (p + 8 * PX 0 va) v) pt vb =
    (if page_of vb = page_of va then (if v = 0 then None else Some v) else lookup (mem s) pt vb)"
proof -
  note nd = vm_inv_leaf_store(2) [OF inv p PX_less, of "tpath vb" 0 va v, simplified]
  have pa: "page_aligned p" using vm_inv_table [OF inv path_simps(2) p] by simp
  have inj: "page_of vb = page_of va \<longleftrightarrow> tpath va = tpath vb \<and> PX 0 va = PX 0 vb"
    using PX_inject [OF va] by (auto simp: tpath_def)
  show ?thesis
  proof (cases "node (mem s) pt (tpath vb)")
    case None
    then have "tpath va \<noteq> tpath vb" using p by auto
    then show ?thesis using None nd inj by (simp add: lookup_def)
  next
    case (Some q)
    then have qa: "page_aligned q" using vm_inv_table [OF inv path_simps(2)] by simp
    have "p = q \<longleftrightarrow> tpath va = tpath vb" using Some p vm_inv_unique [OF inv path_simps(2,2)] by auto
    then show ?thesis using Some nd inj v pa qa by (auto simp: lookup_def entry_store_entry)
  qed
qed

lemma map_leaf_frame:
  assumes inv: "vm_inv s pt ps" and p: "node (mem s) pt (tpath va) = Some p"
  shows "pt_frame pt ps ps s (s\<lparr>mem := store64 (mem s) (p + 8 * PX 0 va) v\<rparr>)"
proof -
  let ?s = "s\<lparr>mem := store64 (mem s) (p + 8 * PX 0 va) v\<rparr>"
  have "tables (mem ?s) pt = tables (mem s) pt"
    using vm_inv_leaf_store(2) [OF inv p PX_less] by (intro tables_cong) simp
  moreover have "mem ?s a = mem s a" if "page_of a \<notin> page_of ` tables (mem s) pt" for a
    using that vm_inv_table [OF inv path_simps(2) p] tables_I [OF path_simps(2) p]
    by (auto intro!: store_entry_frame)
  ultimately show ?thesis unfolding pt_frame_def by auto
qed

lemma mappages_loop_step:
  assumes inv: "vm_inv s pt ps" and a: "a < MAXVA" "lookup (mem s) pt a = None"
  shows "(\<exists>s'. mappages_loop pt a alast pa perm s = Some (-1, s') \<and> vm_inv s' pt [] \<and> pt_frame pt ps [] s s' \<and>
      length ps < 2 \<and> (\<forall>vb. lookup (mem s') pt vb = lookup (mem s) pt vb))
    \<or> (\<exists>s' ps'. mappages_loop pt a alast pa perm s =
        (if a = alast then Some (0, s') else mappages_loop pt (a + PGSIZE) alast (pa + PGSIZE) perm s') \<and>
        vm_inv s' pt ps' \<and> pt_frame pt ps ps' s s' \<and> length ps \<le> length ps' + 2 \<and>
        (\<forall>vb < MAXVA. lookup (mem s') pt vb =
           (if page_of vb = page_of a then Some (PA2PTE pa OR perm OR PTE_V) else lookup (mem s) pt vb)))"
proof -
  obtain r s1 ps1 where w: "walk pt a True s = Some (r, s1)" "vm_inv s1 pt ps1" "pt_frame pt ps ps1 s s1"
      "\<And>vb. lookup (mem s1) pt vb = lookup (mem s) pt vb"
      "r = 0 \<and> ps1 = [] \<and> length ps < 2 \<or> (\<exists>p. node (mem s1) pt (tpath a) = Some p \<and> r = p + 8 * PX 0 a)"
      "length ps \<le> length ps1 + 2"
    using walk_alloc [OF inv a(1)] by blast
  show ?thesis
  proof (cases "r = 0")
    case True
    then have "ps1 = [] \<and> length ps < 2"
      using w(2,5) vm_inv_table [OF w(2) path_simps(2)] entry_nonzero [OF _ _ PX_less] by metis
    then show ?thesis using True w by (intro disjI1) (subst mappages_loop.simps, auto)
  next
    case False
    then obtain p where p: "node (mem s1) pt (tpath a) = Some p" "r = p + 8 * PX 0 a" using w(5) by auto
    have "entry (mem s1) p (PX 0 a) AND PTE_V = 0"
      using w(4) [of a] a(2) p(1) by (auto simp: lookup_def split: if_splits)
    then have "mappages_loop pt a alast pa perm s = (let s' = s1\<lparr>mem := store64 (mem s1) r (PA2PTE pa OR perm OR PTE_V)\<rparr>
        in if a = alast then Some (0, s') else mappages_loop pt (a + PGSIZE) alast (pa + PGSIZE) perm s')"
      using w(1) p(2) False by (subst mappages_loop.simps) simp
    moreover note vm_inv_leaf_store(1) [OF w(2) p(1) PX_less]
      pt_frame_trans [OF w(3) map_leaf_frame [OF w(2) p(1)]]
      lookup_leaf_store [OF w(2) a(1) _ p(1), of _ "PA2PTE pa OR perm OR PTE_V"]
    ultimately show ?thesis using p(2) w(4,6)
      by (intro disjI2 exI [of _ "s1\<lparr>mem := store64 (mem s1) r (PA2PTE pa OR perm OR PTE_V)\<rparr>"] exI [of _ ps1])
        (auto simp: Let_def)
  qed
qed

text \<open>The entries after mapping \<open>k\<close> pages from \<open>a\<close> to \<open>pa\<close> and leaving the rest.\<close>

definition map_range :: "u64 \<Rightarrow> u64 \<Rightarrow> u64 \<Rightarrow> nat \<Rightarrow> (u64 \<Rightarrow> u64 option) \<Rightarrow> u64 \<Rightarrow> u64 option" where
  "map_range a pa perm k f vb =
     (if page_of a \<le> page_of vb \<and> page_of vb < page_of a + k
      then Some (PA2PTE (pa + 4096 * of_nat (page_of vb - page_of a)) OR perm OR PTE_V)
      else f vb)"

lemma map_range_0 [simp]: "map_range a pa perm 0 f = f"
  by (auto simp: map_range_def fun_eq_iff)

lemma page_of_add:
  "page_aligned a \<Longrightarrow> unat a + 4096 * n < 2 ^ 64 \<Longrightarrow> page_of (a + 4096 * of_nat n) = page_of a + n"
  by (simp add: page_of_def unat_word_ariths unat_of_nat)

lemma page_aligned_add: "page_aligned a \<Longrightarrow> page_aligned (a + 4096 * x)"
proof -
  assume "page_aligned a"
  moreover have "a + 4096 * x = push_bit 12 (drop_bit 12 a + x)" if "a = push_bit 12 (drop_bit 12 a)"
    using that by (simp add: push_bit_eq_mult algebra_simps)
  moreover have "PGROUNDDOWN a = a" if "page_aligned a"
    using that by (auto simp: page_aligned_unat word_unat_eq_iff unat_PGROUNDDOWN)
  ultimately have "a + 4096 * x = push_bit 12 (drop_bit 12 a + x)" by (metis PGROUNDDOWN_shift)
  moreover have "PGROUNDDOWN (push_bit 12 y) = push_bit 12 y" for y
    unfolding PGROUNDDOWN_shift by (rule bit_word_eqI) (auto simp: bit_simps)
  ultimately show ?thesis by (metis page_aligned_PGROUNDDOWN)
qed

lemma map_range_Suc:
  assumes "page_aligned a" "unat a + 4096 < 2 ^ 64"
    and "f' vb = (if page_of vb = page_of a then Some (PA2PTE pa OR perm OR PTE_V) else f vb)"
  shows "map_range (a + 4096) (pa + 4096) perm k f' vb = map_range a pa perm (Suc k) f vb"
proof -
  have "page_of (a + 4096) = Suc (page_of a)" using page_of_add [of a 1] assms by simp
  moreover have "of_nat (page_of vb - page_of a) = (1 :: u64) + of_nat (page_of vb - Suc (page_of a))"
    if "Suc (page_of a) \<le> page_of vb"
    using that by (metis Suc_diff_le diff_Suc_Suc of_nat_Suc)
  ultimately show ?thesis using assms(3) by (auto simp: map_range_def algebra_simps)
qed

lemma mappages_loop_spec:
  assumes "vm_inv s pt ps" "page_aligned a" "unat a + 4096 * n < 274877906944"
    and "\<And>k. k \<le> n \<Longrightarrow> lookup (mem s) pt (a + 4096 * of_nat k) = None"
  shows "\<exists>k r s' ps'. mappages_loop pt a (a + 4096 * of_nat n) pa perm s = Some (r, s') \<and> vm_inv s' pt ps' \<and>
    pt_frame pt ps ps' s s' \<and> k \<le> Suc n \<and> r = (if k = Suc n then 0 else -1) \<and> (k < Suc n \<longrightarrow> ps' = [] \<and> length ps < 2 * Suc n) \<and>
    length ps \<le> length ps' + 2 * Suc n \<and>
    (\<forall>vb < MAXVA. lookup (mem s') pt vb = map_range a pa perm k (lookup (mem s) pt) vb)"
  using assms
proof (induction n arbitrary: a pa s ps)
  case 0
  have a: "a < MAXVA" using 0(3) by (simp add: word_less_nat_alt)
  have m: "map_range a pa perm (Suc 0) f vb =
      (if page_of vb = page_of a then Some (PA2PTE pa OR perm OR PTE_V) else f vb)" for f vb
    by (auto simp: map_range_def)
  consider (fail) s' where "mappages_loop pt a a pa perm s = Some (-1, s')" "vm_inv s' pt []"
      "pt_frame pt ps [] s s'" "\<forall>vb. lookup (mem s') pt vb = lookup (mem s) pt vb" "length ps < 2"
    | (go) s' ps' where "mappages_loop pt a a pa perm s = Some (0, s')" "vm_inv s' pt ps'"
      "pt_frame pt ps ps' s s'"
      "\<forall>vb < MAXVA. lookup (mem s') pt vb = map_range a pa perm (Suc 0) (lookup (mem s) pt) vb"
      "length ps \<le> length ps' + 2"
    using mappages_loop_step [OF 0(1) a, of a pa perm] 0(4) [of 0] unfolding m by auto
  then show ?case
  proof cases
    case fail
    then show ?thesis by (intro exI [of _ "0 :: nat"] exI [of _ "-1"] exI [of _ s'] exI [of _ "[]"]) simp
  next
    case go
    then show ?thesis by (intro exI [of _ "Suc 0"] exI [of _ "0 :: int"] exI [of _ s'] exI [of _ ps']) simp
  qed
next
  case (Suc n)
  have a: "a < MAXVA" using Suc.prems(3) by (simp add: word_less_nat_alt)
  define L where "L = a + 4096 * of_nat (Suc n)"
  have ne: "a \<noteq> L"
    unfolding L_def using page_of_add [OF Suc.prems(2), of "Suc n"] Suc.prems(3) by force
  have a4: "unat (a + 4096) = unat a + 4096" using Suc.prems(3) by (simp add: unat_word_ariths)
  have al: "page_aligned (a + 4096)" using page_aligned_add [OF Suc.prems(2), of 1] by simp
  have eq: "(a + 4096) + 4096 * of_nat n = L" by (simp add: L_def algebra_simps)
  from mappages_loop_step [OF Suc.prems(1) a, of L pa perm] Suc.prems(4) [of 0]
  consider (fail) s' where "mappages_loop pt a L pa perm s = Some (-1, s')"
      "vm_inv s' pt []" "pt_frame pt ps [] s s'" "\<forall>vb. lookup (mem s') pt vb = lookup (mem s) pt vb" "length ps < 2"
    | (go) s' ps' where "mappages_loop pt a L pa perm s =
        mappages_loop pt (a + 4096) L (pa + 4096) perm s'"
      "vm_inv s' pt ps'" "pt_frame pt ps ps' s s'"
      "\<forall>vb < MAXVA. lookup (mem s') pt vb =
           (if page_of vb = page_of a then Some (PA2PTE pa OR perm OR PTE_V) else lookup (mem s) pt vb)"
      "length ps \<le> length ps' + 2"
    using ne by auto
  then show ?case
  proof cases
    case fail
    then show ?thesis unfolding L_def
      by (intro exI [of _ "0 :: nat"] exI [of _ "-1"] exI [of _ s'] exI [of _ "[]"]) simp
  next
    case go
    have "lookup (mem s') pt (a + 4096 + 4096 * of_nat k) = None" if "k \<le> n" for k
    proof -
      have b: "unat a + 4096 * Suc k < 2 ^ 38" using that Suc.prems(3) by simp
      have vb: "a + 4096 + 4096 * of_nat k = a + 4096 * of_nat (Suc k)" by (simp add: algebra_simps)
      have "page_of (a + 4096 * of_nat (Suc k)) = page_of a + Suc k"
        by (rule page_of_add) (use b Suc.prems(2) in simp_all)
      moreover have "a + 4096 * of_nat (Suc k) < MAXVA"
        using b by (simp add: word_less_nat_alt unat_word_ariths unat_of_nat)
      ultimately show ?thesis using go(4) Suc.prems(4) [of "Suc k"] that unfolding vb by simp
    qed
    from Suc.IH [OF go(2) al _ this, of "pa + 4096", unfolded eq] obtain k r s2 ps2 where IH:
        "mappages_loop pt (a + 4096) L (pa + 4096) perm s' = Some (r, s2)"
        "vm_inv s2 pt ps2" "pt_frame pt ps' ps2 s' s2" "k \<le> Suc n" "r = (if k = Suc n then 0 else -1)"
        "k < Suc n \<longrightarrow> ps2 = [] \<and> length ps' < 2 * Suc n" "length ps' \<le> length ps2 + 2 * Suc n"
        "\<forall>vb < MAXVA. lookup (mem s2) pt vb = map_range (a + 4096) (pa + 4096) perm k (lookup (mem s') pt) vb"
      using Suc.prems(3) a4 by auto
    have "lookup (mem s2) pt vb = map_range a pa perm (Suc k) (lookup (mem s) pt) vb" if "vb < MAXVA" for vb
      using that IH(8) go(4) map_range_Suc [OF Suc.prems(2), of "lookup (mem s') pt" vb pa perm "lookup (mem s) pt" k]
        Suc.prems(3) by simp
    then show ?thesis unfolding L_def [symmetric] using go(1,5) IH pt_frame_trans [OF go(3) IH(3)]
      by (intro exI [of _ "Suc k"] exI [of _ r] exI [of _ s2] exI [of _ ps2]) auto
  qed
qed

end
