(* ===== verification/Vm_User.thy ===== *)
theory Vm_User
  imports Vm_Walk
begin

text \<open>
  User address spaces. \<open>user_inv\<close> extends the invariant of page tables to the pages mapped for
  user access; \<open>ubyte\<close> is the memory a process sees. The copying routines, \<open>uvmfirst\<close> and
  \<open>uvmalloc\<close> are specified by their effect on this view.
\<close>

lemma page_of_less: "va < MAXVA \<Longrightarrow> page_of va < 67108864"
  by (simp add: page_of_def word_less_nat_alt less_mult_imp_div_less)

lemma mappages_spec:
  assumes inv: "vm_inv s pt ps" and sz: "0 < sz" "unat va + unat sz \<le> 274877906944"
    and free: "\<And>vb. vb < MAXVA \<Longrightarrow> page_of va \<le> page_of vb \<Longrightarrow> page_of vb \<le> page_of (va + sz - 1) \<Longrightarrow>
      lookup (mem s) pt vb = None"
  defines "n \<equiv> Suc (page_of (va + sz - 1) - page_of va)"
  shows "\<exists>k r s' ps'. mappages pt va sz pa perm s = Some (r, s') \<and> vm_inv s' pt ps' \<and>
    pt_frame pt ps ps' s s' \<and> k \<le> n \<and> r = (if k = n then 0 else -1) \<and> (k < n \<longrightarrow> ps' = [] \<and> length ps < 2 * n) \<and>
    length ps \<le> length ps' + 2 * n \<and>
    (\<forall>vb < MAXVA. lookup (mem s') pt vb = map_range va pa perm k (lookup (mem s) pt) vb)"
proof -
  have sz1: "1 \<le> unat sz" using sz(1) by (simp add: word_less_nat_alt)
  have end1: "unat (va + sz - 1) = unat va + unat sz - 1"
  proof -
    have "unat (va + sz) = unat va + unat sz" using sz(2) by (simp add: unat_word_ariths)
    moreover have "1 \<le> va + sz" using calculation sz1 by (simp add: word_le_nat_alt)
    ultimately show ?thesis by (simp add: unat_sub)
  qed
  define m where "m = page_of (va + sz - 1) - page_of va"
  have le: "page_of va \<le> page_of (va + sz - 1)"
    using end1 sz1 by (auto simp: page_of_def intro: div_le_mono)
  have m_eq: "unat (PGROUNDDOWN va) + 4096 * m = unat (PGROUNDDOWN (va + sz - 1))"
    using le by (simp only: m_def unat_PGROUNDDOWN page_of_def diff_mult_distrib2)
  have last_eq: "PGROUNDDOWN (va + sz - 1) = PGROUNDDOWN va + 4096 * of_nat m"
  proof -
    have "PGROUNDDOWN va + 4096 * of_nat m = of_nat (unat (PGROUNDDOWN va) + 4096 * m)" by simp
    then show ?thesis unfolding m_eq by simp
  qed
  have bound: "unat (PGROUNDDOWN va) + 4096 * m < 274877906944"
    using end1 sz(2) sz1 PGROUNDDOWN_le [of "va + sz - 1"] unfolding m_eq by linarith
  have "lookup (mem s) pt (PGROUNDDOWN va + 4096 * of_nat k) = None" if "k \<le> m" for k
  proof (rule free)
    have b: "unat (PGROUNDDOWN va) + 4096 * k < 274877906944" using that bound by simp
    then have "page_of (PGROUNDDOWN va + 4096 * of_nat k) = page_of va + k"
      using page_of_add [of "PGROUNDDOWN va" k] by simp
    then show "page_of va \<le> page_of (PGROUNDDOWN va + 4096 * of_nat k)"
      "page_of (PGROUNDDOWN va + 4096 * of_nat k) \<le> page_of (va + sz - 1)"
      using that le by (auto simp: m_def)
    show "PGROUNDDOWN va + 4096 * of_nat k < MAXVA"
      using b by (simp add: word_less_nat_alt unat_word_ariths unat_of_nat)
  qed
  note spec = mappages_loop_spec [OF inv page_aligned_PGROUNDDOWN bound this]
  have mr: "map_range (PGROUNDDOWN va) pa perm k f = map_range va pa perm k f" for k f
    by (simp add: map_range_def fun_eq_iff)
  have eq: "mappages pt va sz pa perm s = mappages_loop pt (PGROUNDDOWN va) (PGROUNDDOWN va + 4096 * of_nat m) pa perm s"
    using sz(1) by (auto simp: mappages_def last_eq)
  show ?thesis using spec [of pa perm] unfolding mr eq n_def m_def [symmetric] .
qed

section \<open>User memory\<close>

text \<open>The physical address a user access to \<open>va\<close> goes to, and the byte there.\<close>

definition uaddr :: "memory \<Rightarrow> u64 \<Rightarrow> u64 \<Rightarrow> u64 option" where
  "uaddr m pt va =
     (if va < MAXVA
      then case lookup m pt va of
          None \<Rightarrow> None
        | Some e \<Rightarrow> if e AND PTE_U = 0 then None else Some (PTE2PA e + (va - PGROUNDDOWN va))
      else None)"

definition ubyte :: "memory \<Rightarrow> u64 \<Rightarrow> u64 \<Rightarrow> u8 option" where
  "ubyte m pt va = map_option m (uaddr m pt va)"

definition user_inv :: "'a kmem_scheme \<Rightarrow> u64 \<Rightarrow> u64 list \<Rightarrow> bool" where
  "user_inv s pt ps \<longleftrightarrow>
     vm_inv s pt ps
     \<and> (\<forall>va e. va < MAXVA \<longrightarrow> lookup (mem s) pt va = Some e \<longrightarrow> e AND PTE_U \<noteq> 0 \<longrightarrow>
          kpage s (PTE2PA e) \<and> PTE2PA e \<notin> set ps \<and> PTE2PA e \<notin> tables (mem s) pt)
     \<and> (\<forall>va vb e f. va < MAXVA \<longrightarrow> vb < MAXVA \<longrightarrow> lookup (mem s) pt va = Some e \<longrightarrow> lookup (mem s) pt vb = Some f \<longrightarrow>
          e AND PTE_U \<noteq> 0 \<longrightarrow> f AND PTE_U \<noteq> 0 \<longrightarrow> PTE2PA e = PTE2PA f \<longrightarrow> page_of va = page_of vb)"

lemma user_inv_vm [simp]: "user_inv s pt ps \<Longrightarrow> vm_inv s pt ps"
  by (simp add: user_inv_def)

lemma walkaddr_uaddr:
  assumes "user_inv s pt ps"
  shows "walkaddr pt (PGROUNDDOWN va) s = Some (case uaddr (mem s) pt (PGROUNDDOWN va) of None \<Rightarrow> 0 | Some a \<Rightarrow> a)"
proof (cases "PGROUNDDOWN va < MAXVA")
  case True
  have "PGROUNDDOWN (PGROUNDDOWN va) = PGROUNDDOWN va"
    by (simp add: word_unat_eq_iff unat_PGROUNDDOWN)
  with True show ?thesis
    by (simp add: walkaddr_lookup [OF user_inv_vm [OF assms]] uaddr_def split: option.split)
next
  case False
  then have "MAXVA \<le> PGROUNDDOWN va" by (simp only: not_less)
  then show ?thesis using False by (simp add: walkaddr_def uaddr_def)
qed

lemma PGROUNDDOWN_MAXVA: "PGROUNDDOWN va < 0x4000000000 \<longleftrightarrow> va < 0x4000000000"
proof -
  have "4096 * x < 274877906944 \<longleftrightarrow> x < 67108864" for x :: nat by linarith
  moreover have "unat va div 4096 < 67108864 \<longleftrightarrow> unat va < 274877906944"
    using div_less_iff_less_mult [of 4096 "unat va" 67108864] by simp
  ultimately have "4096 * (unat va div 4096) < 274877906944 \<longleftrightarrow> unat va < 274877906944" by simp
  then show ?thesis by (simp add: word_less_nat_alt unat_PGROUNDDOWN)
qed

lemma lookup_PGROUNDDOWN: "lookup m pt (PGROUNDDOWN va) = lookup m pt va"
  by (simp add: lookup_def tpath_def)

lemma page_aligned_PTE2PA [simp]: "page_aligned (PTE2PA e)"
  using page_aligned_add [of 0 "drop_bit 10 e"]
  by (simp add: PTE2PA_def push_bit_eq_mult page_aligned_def mult.commute)

lemma page_offset_add:
  assumes "page_aligned p"
  shows "unat (p + (va - PGROUNDDOWN va)) = unat p + unat va mod 4096"
    and "page_of (p + (va - PGROUNDDOWN va)) = page_of p"
proof -
  have eq: "p + (va - PGROUNDDOWN va) = p + of_nat (unat va mod 4096)"
    by (simp flip: unat_page_offset)
  show "unat (p + (va - PGROUNDDOWN va)) = unat p + unat va mod 4096"
    "page_of (p + (va - PGROUNDDOWN va)) = page_of p"
    unfolding eq by (simp_all add: page_offset_unat page_of_offset assms)
qed

lemma PGROUNDDOWN_aligned: "page_aligned p \<Longrightarrow> PGROUNDDOWN a = p \<longleftrightarrow> page_of a = page_of p"
  by (metis page_of_PGROUNDDOWN page_of_inject page_aligned_PGROUNDDOWN)

lemma uaddr_PGROUNDDOWN: "uaddr m pt (PGROUNDDOWN va) = map_option PGROUNDDOWN (uaddr m pt va)"
proof -
  have "PGROUNDDOWN (PGROUNDDOWN va) = PGROUNDDOWN va"
    by (simp add: word_unat_eq_iff unat_PGROUNDDOWN)
  moreover have "PGROUNDDOWN (PTE2PA e + (va - PGROUNDDOWN va)) = PTE2PA e" for e
    by (simp add: PGROUNDDOWN_aligned page_offset_add)
  ultimately show ?thesis
    by (auto simp: uaddr_def PGROUNDDOWN_MAXVA lookup_PGROUNDDOWN split: option.split)
qed


lemma PGROUNDDOWN_eq_iff: "PGROUNDDOWN a = PGROUNDDOWN b \<longleftrightarrow> page_of a = page_of b"
  by (simp add: PGROUNDDOWN_aligned)

lemma uaddr_SomeD:
  assumes "uaddr m pt va = Some a"
  obtains e where "va < MAXVA" "lookup m pt va = Some e" "e AND PTE_U \<noteq> 0" "PTE2PA e = PGROUNDDOWN a"
    "a = PGROUNDDOWN a + (va - PGROUNDDOWN va)"
proof -
  from assms obtain e where e: "va < MAXVA" "lookup m pt va = Some e" "e AND PTE_U \<noteq> 0"
      "a = PTE2PA e + (va - PGROUNDDOWN va)"
    by (auto simp: uaddr_def split: option.splits if_splits)
  moreover have r: "PGROUNDDOWN a = PTE2PA e" unfolding e(4) by (simp add: PGROUNDDOWN_aligned page_offset_add)
  ultimately show ?thesis using that by simp
qed

lemma uaddr_page:
  assumes "user_inv s pt ps" "uaddr (mem s) pt va = Some a"
  shows "kpage s (PGROUNDDOWN a)" "PGROUNDDOWN a \<notin> set ps"
    "PGROUNDDOWN a \<notin> tables (mem s) pt" "PGROUNDDOWN a \<noteq> 0"
proof -
  obtain e where e: "va < MAXVA" "lookup (mem s) pt va = Some e" "e AND PTE_U \<noteq> 0" "PTE2PA e = PGROUNDDOWN a"
    using assms(2) by (rule uaddr_SomeD)
  show k: "kpage s (PGROUNDDOWN a)" "PGROUNDDOWN a \<notin> set ps" "PGROUNDDOWN a \<notin> tables (mem s) pt"
    using assms(1) e(1-3) unfolding e(4) [symmetric] user_inv_def by blast+
  show "PGROUNDDOWN a \<noteq> 0"
    using k(1) assms(1) kpage_facts [of s ps] by (auto simp: user_inv_def vm_inv_def)
qed

lemma uaddr_inject:
  assumes "user_inv s pt ps" "uaddr (mem s) pt va = Some a" "uaddr (mem s) pt vb = Some b"
    and "page_of a = page_of b"
  shows "a - b = va - vb" "page_of va = page_of vb"
proof -
  have ab: "PGROUNDDOWN a = PGROUNDDOWN b" using assms(4) by (simp add: PGROUNDDOWN_eq_iff)
  obtain e where e: "va < MAXVA" "lookup (mem s) pt va = Some e" "e AND PTE_U \<noteq> 0" "PTE2PA e = PGROUNDDOWN a"
      "a = PGROUNDDOWN a + (va - PGROUNDDOWN va)"
    using assms(2) by (rule uaddr_SomeD)
  obtain f where f: "vb < MAXVA" "lookup (mem s) pt vb = Some f" "f AND PTE_U \<noteq> 0" "PTE2PA f = PGROUNDDOWN b"
      "b = PGROUNDDOWN b + (vb - PGROUNDDOWN vb)"
    using assms(3) by (rule uaddr_SomeD)
  have "PTE2PA e = PTE2PA f" using e(4) f(4) ab by simp
  then show v: "page_of va = page_of vb" using assms(1) e(1-3) f(1-3) unfolding user_inv_def by blast
  then have "PGROUNDDOWN va = PGROUNDDOWN vb" by (simp add: PGROUNDDOWN_eq_iff)
  then have "a - b = (PGROUNDDOWN b + (va - PGROUNDDOWN vb)) - (PGROUNDDOWN b + (vb - PGROUNDDOWN vb))"
    using e(5) f(5) ab by simp
  then show "a - b = va - vb" by simp
qed

text \<open>Writing data into user pages keeps the tables and the free list.\<close>

lemma user_inv_write:
  assumes inv: "user_inv s pt ps" and a: "uaddr (mem s) pt va = Some a"
    and fr: "\<And>x. page_of x \<noteq> page_of a \<Longrightarrow> m' x = mem s x"
  shows "user_inv (s\<lparr>mem := m'\<rparr>) pt ps" "vb < MAXVA \<Longrightarrow> lookup m' pt vb = lookup (mem s) pt vb"
    "uaddr m' pt vb = uaddr (mem s) pt vb"
proof -
  have vm: "vm_inv s pt ps" using inv by simp
  note p = uaddr_page [OF inv a]
  have pa: "page_of a = page_of (PGROUNDDOWN a)" by simp
  have ent: "entry m' q i = entry (mem s) q i" if "path is" "node (mem s) pt is = Some q" "unat i < 512" for q i "is"
  proof (rule entry_cong)
    have "q \<noteq> PGROUNDDOWN a" using p(3) tables_I [OF that(1,2)] by auto
    then have "page_of q \<noteq> page_of a"
      using vm_inv_table(1) [OF vm that(1,2)] PGROUNDDOWN_aligned [of q a] by auto
    then show "m' x = mem s x" if "page_of x = page_of q" for x using that fr by simp
  qed (use that vm_inv_table(1) [OF vm that(1,2)] in simp_all)
  have nd: "node m' pt is = node (mem s) pt is" if "path is" for "is"
    by (rule node_cong [OF that]) (use ent in blast)
  have lk: "lookup m' pt v = lookup (mem s) pt v" for v
    using nd [OF path_simps(2) [of v]] ent [OF path_simps(2) [of v] _ PX_less]
    by (simp add: lookup_def split: option.split)
  then show "lookup m' pt vb = lookup (mem s) pt vb" "uaddr m' pt vb = uaddr (mem s) pt vb"
    by (simp_all add: uaddr_def)
  have pool: "kmem_pool (s\<lparr>mem := m'\<rparr>) ps"
  proof (rule kmem_pool_frame)
    show "kmem_pool s ps" using vm by (simp add: vm_inv_def)
    show "mem (s\<lparr>mem := m'\<rparr>) x = mem s x" if "q \<in> set ps" "page_of x = page_of q" for q x
    proof -
      have "page_aligned q" using vm that by (auto simp: vm_inv_def kmem_pool_def kpage_def)
      then have "page_of x \<noteq> page_of a" using that p(2) PGROUNDDOWN_aligned [of q a] by auto
      then show ?thesis using fr by simp
    qed
  qed simp_all
  have "vm_inv (s\<lparr>mem := m'\<rparr>) pt ps" by (rule vm_inv_cong [OF vm _ pool]) (simp_all add: nd)
  moreover have "tables m' pt = tables (mem s) pt" by (rule tables_cong [OF nd])
  moreover have "kpage (s\<lparr>mem := m'\<rparr>) = kpage s" "mem (s\<lparr>mem := m'\<rparr>) = m'"
    by (simp_all add: kpage_def fun_eq_iff)
  ultimately show "user_inv (s\<lparr>mem := m'\<rparr>) pt ps"
    using inv by (simp only: user_inv_def lk simp_thms) (elim conjE, intro conjI)
qed


lemma unat_less_split:
  fixes x n len :: u64
  assumes "n \<le> len"
  shows "unat x < unat len \<longleftrightarrow> unat x < unat n \<or> unat (x - n) < unat (len - n)"
    and "unat (x - n) < unat (len - n) \<Longrightarrow> unat x = unat (x - n) + unat n \<and> \<not> unat x < unat n"
proof -
  have l: "unat (len - n) = unat len - unat n" and le: "unat n \<le> unat len"
    using assms by (simp_all add: unat_sub word_le_nat_alt)
  have len: "unat len < 18446744073709551616" by (rule unat_u64_less)
  show "unat x < unat len \<longleftrightarrow> unat x < unat n \<or> unat (x - n) < unat (len - n)"
    "unat (x - n) < unat (len - n) \<Longrightarrow> unat x = unat (x - n) + unat n \<and> \<not> unat x < unat n"
  proof (atomize (full), cases "unat n \<le> unat x")
    case True
    then have "unat (x - n) = unat x - unat n" by (simp add: unat_sub word_le_nat_alt)
    with True l le show "(unat x < unat len \<longleftrightarrow> unat x < unat n \<or> unat (x - n) < unat (len - n)) \<and>
      (unat (x - n) < unat (len - n) \<longrightarrow> unat x = unat (x - n) + unat n \<and> \<not> unat x < unat n)" by auto
  next
    case False
    then have "unat (x - n) = 18446744073709551616 + unat x - unat n"
      by (simp add: unat_sub_if_size word_size)
    with False l le len show "(unat x < unat len \<longleftrightarrow> unat x < unat n \<or> unat (x - n) < unat (len - n)) \<and>
      (unat (x - n) < unat (len - n) \<longrightarrow> unat x = unat (x - n) + unat n \<and> \<not> unat x < unat n)" by auto
  qed
qed

lemma chunk_le: "chunk va len \<le> len"
  by (simp add: word_le_nat_alt unat_chunk)

text \<open>The addresses of one chunk lie in the page of its first address.\<close>

lemma chunk_page:
  assumes "unat (vb - va) < unat (chunk va len)"
  shows "page_of vb = page_of va"
proof -
  have "unat va mod 4096 + unat (vb - va) < 4096"
    using assms by (simp add: unat_chunk less_diff_conv add.commute)
  then have "page_of (PGROUNDDOWN va + of_nat (unat va mod 4096 + unat (vb - va))) = page_of va"
    using page_of_offset [OF page_aligned_PGROUNDDOWN, of "unat va mod 4096 + unat (vb - va)" va]
    by (simp only: page_of_PGROUNDDOWN)
  moreover have "of_nat (unat va mod 4096) = va - PGROUNDDOWN va"
    by (simp flip: unat_page_offset)
  ultimately show ?thesis by simp
qed

lemma uaddr_same_page:
  assumes "uaddr m pt va = Some a" "page_of vb = page_of va"
  shows "uaddr m pt vb = Some (a + (vb - va))"
proof -
  have eq: "PGROUNDDOWN vb = PGROUNDDOWN va" using assms(2) by (simp add: PGROUNDDOWN_eq_iff)
  have lk: "lookup m pt vb = lookup m pt va" using lookup_PGROUNDDOWN eq by metis
  have "vb < MAXVA \<longleftrightarrow> va < MAXVA" using PGROUNDDOWN_MAXVA [of va] PGROUNDDOWN_MAXVA [of vb] eq by simp
  then show ?thesis using assms(1) lk by (auto simp: uaddr_def eq split: option.splits if_splits)
qed

text \<open>One iteration of \<open>copyout\<close>.\<close>

lemma copyout_step:
  fixes s :: "'a kmem_scheme" and src :: bytes and len :: u64
  assumes inv: "user_inv s pt ps" and a: "uaddr (mem s) pt va = Some a"
  defines "s' \<equiv> s\<lparr>mem := mem_write (mem s) a src (unat (chunk va len))\<rparr>"
  shows "user_inv s' pt ps" "uaddr (mem s') pt vb = uaddr (mem s) pt vb"
    "ubyte (mem s') pt vb = (if unat (vb - va) < unat (chunk va len) then Some (src (unat (vb - va)))
       else ubyte (mem s) pt vb)"
proof -
  let ?m = "mem_write (mem s) a src (unat (chunk va len))"
  have off: "a = PGROUNDDOWN a + (va - PGROUNDDOWN va)" using a by (rule uaddr_SomeD)
  have cl: "chunk a len = chunk va len"
  proof -
    have "unat a mod 4096 = unat va mod 4096"
      using page_offset_add(1) [of "PGROUNDDOWN a" va] off
      by (metis mod_add_left_eq page_aligned_PGROUNDDOWN page_aligned_unat add_0 mod_mod_trivial)
    then show ?thesis by (simp add: word_unat_eq_iff unat_chunk)
  qed
  have fr: "?m x = mem s x" if "page_of x \<noteq> page_of a" for x
    using that chunk_page [of x a len] cl by (auto simp: mem_write_def)
  show "user_inv s' pt ps" "uaddr (mem s') pt vb = uaddr (mem s) pt vb"
    using user_inv_write [OF inv a fr] by (simp_all add: s'_def)
  then show "ubyte (mem s') pt vb = (if unat (vb - va) < unat (chunk va len) then Some (src (unat (vb - va)))
       else ubyte (mem s) pt vb)"
  proof (cases "unat (vb - va) < unat (chunk va len)")
    case True
    then have "uaddr (mem s) pt vb = Some (a + (vb - va))" by (intro uaddr_same_page [OF a] chunk_page)
    then show ?thesis using True \<open>uaddr (mem s') pt vb = uaddr (mem s) pt vb\<close>
      by (simp add: ubyte_def s'_def mem_write_def)
  next
    case False
    have "?m b = mem s b" if b: "uaddr (mem s) pt vb = Some b" for b
    proof (cases "page_of b = page_of a")
      case True
      then show ?thesis using False uaddr_inject(1) [OF inv b a] by (simp add: mem_write_def)
    qed (rule fr)
    then show ?thesis using False \<open>uaddr (mem s') pt vb = uaddr (mem s) pt vb\<close>
      by (cases "uaddr (mem s) pt vb") (simp_all add: ubyte_def s'_def)
  qed
qed


lemma chunk_next:
  "PGROUNDDOWN va + 4096 = va + chunk va len \<or> len - chunk va len = 0"
proof (cases "chunk va len = len")
  case False
  then have "unat (chunk va len) = 4096 - unat va mod 4096"
    using unat_chunk [of va len] by (auto simp: word_unat_eq_iff min_def)
  also have "\<dots> = unat (4096 - (va - PGROUNDDOWN va))"
  proof -
    have "va - PGROUNDDOWN va \<le> 4096" by (simp add: word_le_nat_alt unat_page_offset less_imp_le)
    then show ?thesis by (simp add: unat_sub unat_page_offset)
  qed
  finally have "chunk va len = 4096 - (va - PGROUNDDOWN va)" by (simp add: word_unat_eq_iff)
  then show ?thesis by simp
qed simp

lemma chunk_rest:
  assumes "unat (vb - (PGROUNDDOWN va + 4096)) < unat (len - chunk va len)"
  shows "unat (vb - va) < unat len" "unat (vb - va) = unat (vb - (PGROUNDDOWN va + 4096)) + unat (chunk va len)"
    "\<not> unat (vb - va) < unat (chunk va len)"
proof -
  have eq: "vb - (PGROUNDDOWN va + 4096) = vb - va - chunk va len"
    using chunk_next [of va len] assms by (auto simp: algebra_simps)
  show "unat (vb - va) < unat len" "unat (vb - va) = unat (vb - (PGROUNDDOWN va + 4096)) + unat (chunk va len)"
    "\<not> unat (vb - va) < unat (chunk va len)"
    using unat_less_split [OF chunk_le [of va len], of "vb - va"] assms unfolding eq by auto
qed

lemma chunk_cases:
  "unat (vb - va) < unat len \<longleftrightarrow>
     unat (vb - va) < unat (chunk va len) \<or> unat (vb - (PGROUNDDOWN va + 4096)) < unat (len - chunk va len)"
  using unat_less_split(1) [OF chunk_le [of va len], of "vb - va"] chunk_next [of va len] chunk_rest(1) [of vb va len]
  by (auto simp: algebra_simps)

lemma copyout_spec:
  "user_inv s pt ps \<Longrightarrow>
   \<exists>r m'. copyout pt va src len s = Some (r, s\<lparr>mem := m'\<rparr>) \<and> user_inv (s\<lparr>mem := m'\<rparr>) pt ps \<and>
     uaddr m' pt = uaddr (mem s) pt \<and>
     r = (if \<forall>vb. unat (vb - va) < unat len \<longrightarrow> uaddr (mem s) pt vb \<noteq> None then 0 else -1) \<and>
     (\<forall>vb. \<not> unat (vb - va) < unat len \<longrightarrow> ubyte m' pt vb = ubyte (mem s) pt vb) \<and>
     (r = 0 \<longrightarrow> (\<forall>vb. unat (vb - va) < unat len \<longrightarrow> ubyte m' pt vb = Some (src (unat (vb - va)))))"
proof (induction "unat len" arbitrary: va src len s rule: less_induct)
  case less
  show ?case
  proof (cases "0 < len")
    case False
    then have "len = 0" using word_gt_0 by blast
    then show ?thesis using less.prems
      by (intro exI [of _ 0] exI [of _ "mem s"]) (simp add: copyout.simps)
  next
    case len: True
    note wa = walkaddr_uaddr [OF less.prems, of va, unfolded uaddr_PGROUNDDOWN]
    show ?thesis
    proof (cases "uaddr (mem s) pt va")
      case None
      then have "copyout pt va src len s = Some (-1, s)" using len wa by (subst copyout.simps) simp
      moreover have "\<exists>vb. unat (vb - va) < unat len \<and> uaddr (mem s) pt vb = None"
        using None len by (intro exI [of _ va]) (simp add: word_less_nat_alt)
      ultimately show ?thesis using less.prems
        by (intro exI [of _ "-1"] exI [of _ "mem s"]) auto
    next
      case (Some a)
      let ?n = "chunk va len" and ?va = "PGROUNDDOWN va + 4096"
      let ?s = "s\<lparr>mem := mem_write (mem s) a src (unat ?n)\<rparr>"
      let ?src = "\<lambda>k. src (k + unat ?n)"
      note st = copyout_step [OF less.prems Some, of src len]
      have off: "a = PGROUNDDOWN a + (va - PGROUNDDOWN va)" using Some by (rule uaddr_SomeD)
      have eq: "copyout pt va src len s = copyout pt ?va ?src (len - ?n) ?s"
        using len wa Some off uaddr_page(4) [OF less.prems Some]
        by (subst copyout.simps) (simp add: Let_def)
      obtain r m' where IH: "copyout pt ?va ?src (len - ?n) ?s = Some (r, ?s\<lparr>mem := m'\<rparr>)"
          "user_inv (?s\<lparr>mem := m'\<rparr>) pt ps" "uaddr m' pt = uaddr (mem ?s) pt"
          "r = (if \<forall>vb. unat (vb - ?va) < unat (len - ?n) \<longrightarrow> uaddr (mem ?s) pt vb \<noteq> None then 0 else -1)"
          "\<And>vb. \<not> unat (vb - ?va) < unat (len - ?n) \<Longrightarrow> ubyte m' pt vb = ubyte (mem ?s) pt vb"
          "\<And>vb. r = 0 \<Longrightarrow> unat (vb - ?va) < unat (len - ?n) \<Longrightarrow> ubyte m' pt vb = Some (?src (unat (vb - ?va)))"
        using less.hyps [OF chunk_progress [OF len] st(1), of ?va ?src] by blast
      have mapped: "uaddr (mem s) pt vb \<noteq> None" if "unat (vb - va) < unat ?n" for vb
        using uaddr_same_page [OF Some chunk_page [OF that]] by simp
      have "r = (if \<forall>vb. unat (vb - va) < unat len \<longrightarrow> uaddr (mem s) pt vb \<noteq> None then 0 else -1)"
        unfolding IH(4) st(2) using mapped chunk_cases [of _ va len] by metis
      moreover have "ubyte m' pt vb = ubyte (mem s) pt vb" if "\<not> unat (vb - va) < unat len" for vb
        using that IH(5) [of vb] st(3) [of vb] chunk_cases [of vb va len] by auto
      moreover have "ubyte m' pt vb = Some (src (unat (vb - va)))" if "r = 0" "unat (vb - va) < unat len" for vb
        using that IH(5) [of vb] IH(6) [of vb] st(3) [of vb] chunk_cases [of vb va len] chunk_rest [of vb va len]
        by (cases "unat (vb - ?va) < unat (len - ?n)") auto
      moreover have "uaddr m' pt = uaddr (mem s) pt" using IH(3) st(2) by (simp add: fun_eq_iff)
      ultimately show ?thesis using eq IH(1,2)
        by (intro exI [of _ r] exI [of _ m']) auto
    qed
  qed
qed

lemma copyin_from_spec:
  assumes inv: "user_inv s pt ps"
  shows "\<exists>d. copyin_from pt dst i va len s =
       Some (if \<forall>vb. unat (vb - va) < unat len \<longrightarrow> uaddr (mem s) pt vb \<noteq> None then 0 else -1, d) \<and>
     (\<forall>k. k < i \<or> i + unat len \<le> k \<longrightarrow> d k = dst k) \<and>
     ((\<forall>vb. unat (vb - va) < unat len \<longrightarrow> uaddr (mem s) pt vb \<noteq> None) \<longrightarrow>
      (\<forall>vb. unat (vb - va) < unat len \<longrightarrow> ubyte (mem s) pt vb = Some (d (i + unat (vb - va)))))"
proof (induction "unat len" arbitrary: va dst i len rule: less_induct)
  case less
  show ?case
  proof (cases "0 < len")
    case False
    then have "len = 0" using word_gt_0 by blast
    then show ?thesis by (intro exI [of _ dst]) (simp add: copyin_from.simps)
  next
    case len: True
    note wa = walkaddr_uaddr [OF inv, of va, unfolded uaddr_PGROUNDDOWN]
    show ?thesis
    proof (cases "uaddr (mem s) pt va")
      case None
      then have "copyin_from pt dst i va len s = Some (-1, dst)"
        using len wa by (subst copyin_from.simps) simp
      moreover have "\<exists>vb. unat (vb - va) < unat len \<and> uaddr (mem s) pt vb = None"
        using None len by (intro exI [of _ va]) (simp add: word_less_nat_alt)
      ultimately show ?thesis by (intro exI [of _ dst]) auto
    next
      case (Some a)
      let ?n = "chunk va len" and ?va = "PGROUNDDOWN va + 4096"
      let ?d = "mem_fetch (mem s) dst i a (unat ?n)"
      have off: "a = PGROUNDDOWN a + (va - PGROUNDDOWN va)" using Some by (rule uaddr_SomeD)
      have eq: "copyin_from pt dst i va len s = copyin_from pt ?d (i + unat ?n) ?va (len - ?n) s"
        using len wa Some off uaddr_page(4) [OF inv Some]
        by (subst copyin_from.simps) (simp add: Let_def)
      have sum: "unat ?n + unat (len - ?n) = unat len"
        using chunk_le [of va len] by (simp add: unat_sub word_le_nat_alt)
      let ?ok = "\<lambda>va len. \<forall>vb. unat (vb - va) < unat len \<longrightarrow> uaddr (mem s) pt vb \<noteq> None"
      obtain d where IH: "copyin_from pt ?d (i + unat ?n) ?va (len - ?n) s = Some (if ?ok ?va (len - ?n) then 0 else -1, d)"
          "\<And>k. k < i + unat ?n \<or> i + unat ?n + unat (len - ?n) \<le> k \<Longrightarrow> d k = ?d k"
          "\<And>vb. ?ok ?va (len - ?n) \<Longrightarrow> unat (vb - ?va) < unat (len - ?n) \<Longrightarrow>
             ubyte (mem s) pt vb = Some (d (i + unat ?n + unat (vb - ?va)))"
        using less.hyps [OF chunk_progress [OF len, of va], of ?d "i + unat ?n" ?va] by blast
      have first: "uaddr (mem s) pt vb = Some (a + (vb - va))" if "unat (vb - va) < unat ?n" for vb
        using uaddr_same_page [OF Some chunk_page [OF that]] by simp
      have ok: "?ok va len \<longleftrightarrow> ?ok ?va (len - ?n)"
        using first chunk_cases [of _ va len] by (metis option.distinct(1))
      have "ubyte (mem s) pt vb = Some (d (i + unat (vb - va)))" if "?ok va len" "unat (vb - va) < unat len" for vb
      proof (cases "unat (vb - ?va) < unat (len - ?n)")
        case True
        then show ?thesis using IH(3) [OF _ True] that(1) ok chunk_rest(2) [OF True] by (simp add: ac_simps)
      next
        case False
        then have n: "unat (vb - va) < unat ?n" using that chunk_cases [of vb va len] by simp
        then show ?thesis
          using first [OF n] IH(2) [of "i + unat (vb - va)"] by (simp add: ubyte_def mem_fetch_def)
      qed
      moreover have "d k = dst k" if "k < i \<or> i + unat len \<le> k" for k
        using that IH(2) [of k] sum by (auto simp: mem_fetch_def)
      ultimately show ?thesis using eq IH(1) ok by (intro exI [of _ d]) auto
    qed
  qed
qed

lemma copystr_spec:
  "(case copystr m dst i p n of (g, d, j) \<Rightarrow>
     (\<forall>k < i. d k = dst k) \<and> i \<le> j \<and> j \<le> i + n \<and> (\<forall>k < j - i. m (p + of_nat k) \<noteq> 0 \<and> d (i + k) = m (p + of_nat k)) \<and>
     (g \<longrightarrow> j < i + n \<and> m (p + of_nat (j - i)) = 0 \<and> d j = 0) \<and> (\<not> g \<longrightarrow> j = i + n))"
proof (induction m dst i p n rule: copystr.induct)
  case (2 m dst i p n)
  show ?case
  proof (cases "m p = 0")
    case False
    obtain g d j where c: "copystr m (dst(i := m p)) (Suc i) (p + 1) n = (g, d, j)" by (metis prod_cases3)
    note IH = 2 [OF False, unfolded c, simplified]
    have k: "m (p + of_nat k) \<noteq> 0 \<and> d (i + k) = m (p + of_nat k)" if "k < j - i" for k
    proof (cases k)
      case (Suc k')
      then have "k' < j - Suc i" using that by simp
      then show ?thesis using IH Suc by (auto simp: add.assoc)
    qed (use IH False in auto)
    have "m (p + of_nat (j - i)) = 0" if g
    proof -
      have "j - i = Suc (j - Suc i)" using IH by linarith
      then show ?thesis using IH that by (simp add: add.assoc)
    qed
    then show ?thesis using False c IH k by auto
  qed simp
qed simp


text \<open>User memory at \<open>va\<close> holds a string of length \<open>j\<close>.\<close>

definition ustring :: "memory \<Rightarrow> u64 \<Rightarrow> u64 \<Rightarrow> nat \<Rightarrow> bool" where
  "ustring m pt va j \<longleftrightarrow>
     ubyte m pt (va + of_nat j) = Some 0 \<and> (\<forall>k < j. \<exists>c. c \<noteq> 0 \<and> ubyte m pt (va + of_nat k) = Some c)"

lemma ustring_unique: "ustring m pt va j \<Longrightarrow> ustring m pt va j' \<Longrightarrow> j = j'"
  by (metis linorder_neqE_nat option.inject ustring_def)

lemma ustring_add:
  assumes "\<And>k. k < n \<Longrightarrow> \<exists>c. c \<noteq> 0 \<and> ubyte m pt (va + of_nat k) = Some c"
  shows "ustring m pt va j \<longleftrightarrow> n \<le> j \<and> ustring m pt (va + of_nat n) (j - n)"
proof (cases "n \<le> j")
  case True
  then have j: "va + of_nat n + of_nat (j - n) = va + of_nat j" by (simp add: of_nat_diff)
  have "(\<forall>k < j. P (va + of_nat k)) \<longleftrightarrow> (\<forall>k < j - n. P (va + of_nat n + of_nat k))"
    if "\<And>k. k < n \<Longrightarrow> P (va + of_nat k)" for P
  proof
    assume r: "\<forall>k < j - n. P (va + of_nat n + of_nat k)"
    show "\<forall>k < j. P (va + of_nat k)"
    proof (intro allI impI)
      fix k assume "k < j"
      then show "P (va + of_nat k)" using that [of k] r [rule_format, of "k - n"]
        by (cases "k < n") (auto simp: of_nat_diff)
    qed
  qed (metis add.assoc add.commute less_diff_conv of_nat_add)
  from this [of "\<lambda>v. \<exists>c. c \<noteq> 0 \<and> ubyte m pt v = Some c"] assms True j show ?thesis
    by (simp add: ustring_def)
next
  case False
  then have "\<not> ustring m pt va j" using assms [of j] by (auto simp: ustring_def)
  then show ?thesis using False by simp
qed

lemma copyinstr_from_spec:
  assumes inv: "user_inv s pt ps"
  shows "\<exists>r d. copyinstr_from pt dst i va mx s = Some (r, d) \<and> (\<forall>k < i. d k = dst k) \<and>
     (\<forall>j < unat mx. ustring (mem s) pt va j \<longrightarrow>
        r = 0 \<and> (\<forall>k \<le> j. ubyte (mem s) pt (va + of_nat k) = Some (d (i + k)))) \<and>
     ((\<forall>j < unat mx. \<not> ustring (mem s) pt va j) \<longrightarrow> r = -1)"
proof (induction "unat mx" arbitrary: va dst i mx rule: less_induct)
  case less
  show ?case
  proof (cases "0 < mx")
    case False
    then have "mx = 0" using word_gt_0 by blast
    then show ?thesis by (intro exI [of _ "-1"] exI [of _ dst]) (simp add: copyinstr_from.simps)
  next
    case mx: True
    note wa = walkaddr_uaddr [OF inv, of va, unfolded uaddr_PGROUNDDOWN]
    show ?thesis
    proof (cases "uaddr (mem s) pt va")
      case None
      then have "copyinstr_from pt dst i va mx s = Some (-1, dst)"
        using mx wa by (subst copyinstr_from.simps) simp
      moreover have "\<not> ustring (mem s) pt va j" for j
        using None by (cases "j = 0") (auto simp: ustring_def ubyte_def)
      ultimately show ?thesis by (intro exI [of _ "-1"] exI [of _ dst]) simp
    next
      case (Some a)
      let ?n = "chunk va mx" and ?va = "PGROUNDDOWN va + 4096"
      have off: "a = PGROUNDDOWN a + (va - PGROUNDDOWN va)" using Some by (rule uaddr_SomeD)
      obtain g d j where c: "copystr (mem s) dst i a (unat ?n) = (g, d, j)" by (metis prod_cases3)
      have eq: "copyinstr_from pt dst i va mx s =
          (if g then Some (0, d) else copyinstr_from pt d j ?va (mx - ?n) s)"
        using mx wa Some off uaddr_page(4) [OF inv Some] c
        by (subst copyinstr_from.simps) (simp add: Let_def)
      note cs = copystr_spec [where m = "mem s" and dst = dst and i = i and p = a and n = "unat ?n", unfolded c, simplified]
      have ub: "ubyte (mem s) pt (va + of_nat k) = Some (mem s (a + of_nat k))" if "k < unat ?n" for k
      proof -
        have "k < 2 ^ 64" using that unat_u64_less [of ?n] by simp
        then have "unat (va + of_nat k - va) < unat ?n" using that by (simp add: unat_of_nat)
        from uaddr_same_page [OF Some chunk_page [OF this]] show ?thesis by (simp add: ubyte_def)
      qed
      show ?thesis
      proof (cases g)
        case True
        have us: "ustring (mem s) pt va (j - i)"
          using True cs ub ub [of "j - i"] by (auto simp: ustring_def less_diff_conv2)
        have ds: "ubyte (mem s) pt (va + of_nat k) = Some (d (i + k))" if "k \<le> j - i" for k
          using True that cs ub [of k] by (cases "k < j - i") (auto simp: less_diff_conv2)
        have lt: "j - i < unat mx" using True cs chunk_le [of va mx] by (auto simp: word_le_nat_alt)
        have "ubyte (mem s) pt (va + of_nat k) = Some (d (i + k))"
          if "ustring (mem s) pt va l" "k \<le> l" for l k
          using ds that ustring_unique [OF us that(1)] by simp
        moreover have "\<forall>k < i. d k = dst k" using cs by blast
        ultimately show ?thesis using eq True us lt
          by (intro exI [of _ "0 :: int"] exI [of _ d]) auto
      next
        case False
        then have j: "j = i + unat ?n" using cs by simp
        have nz: "\<exists>c. c \<noteq> 0 \<and> ubyte (mem s) pt (va + of_nat k) = Some c" if "k < unat ?n" for k
          using that cs ub [of k] j by auto
        note us = ustring_add [where n = "unat ?n", OF nz]
        have sum: "unat ?n + unat (mx - ?n) = unat mx"
          using chunk_le [of va mx] by (simp add: unat_sub word_le_nat_alt)
        have va: "?va = va + of_nat (unat ?n)" if "0 < unat (mx - ?n)"
          using chunk_next [of va mx] that by auto
        obtain r d' where IH: "copyinstr_from pt d j ?va (mx - ?n) s = Some (r, d')" "\<And>k. k < j \<Longrightarrow> d' k = d k"
            "\<And>l. l < unat (mx - ?n) \<Longrightarrow> ustring (mem s) pt ?va l \<Longrightarrow>
               r = 0 \<and> (\<forall>k \<le> l. ubyte (mem s) pt (?va + of_nat k) = Some (d' (j + k)))"
            "(\<And>l. l < unat (mx - ?n) \<Longrightarrow> \<not> ustring (mem s) pt ?va l) \<Longrightarrow> r = -1"
          using less.hyps [OF chunk_progress [OF mx, of va], of d j ?va] by blast
        have pos: "r = 0 \<and> (\<forall>k \<le> l. ubyte (mem s) pt (va + of_nat k) = Some (d' (i + k)))"
          if l: "l < unat mx" "ustring (mem s) pt va l" for l
        proof -
          have ln: "unat ?n \<le> l" "l - unat ?n < unat (mx - ?n)" using us [of l] l sum by auto
          with va us [of l] l(2) have "ustring (mem s) pt ?va (l - unat ?n)" by simp
          note h = IH(3) [OF ln(2) this]
          have "ubyte (mem s) pt (va + of_nat k) = Some (d' (i + k))" if "k \<le> l" for k
          proof (cases "k < unat ?n")
            case True
            then show ?thesis using cs ub [of k] j IH(2) [of "i + k"] by auto
          next
            case False
            then have "of_nat k = of_nat (unat ?n) + (of_nat (k - unat ?n) :: u64)" by (simp add: of_nat_diff)
            then show ?thesis using h va ln that False j
              by (auto dest!: spec [of _ "k - unat ?n"] simp: add.assoc)
          qed
          then show ?thesis using h by simp
        qed
        have neg: "r = -1" if "\<forall>l < unat mx. \<not> ustring (mem s) pt va l"
        proof (rule IH(4))
          fix l assume l: "l < unat (mx - ?n)"
          then show "\<not> ustring (mem s) pt ?va l"
            using that [rule_format, of "l + unat ?n"] us [of "l + unat ?n"] va sum by simp
        qed
        show ?thesis using False eq IH(1,2) cs j pos neg
          by (intro exI [of _ r] exI [of _ d']) auto
      qed
    qed
  qed
qed

section \<open>Taking and mapping a fresh page\<close>

text \<open>\<open>kalloc\<close> followed by clearing the page: the first step of \<open>uvmcreate\<close>, \<open>uvmfirst\<close> and \<open>uvmalloc\<close>.\<close>

definition zalloc :: "u64 \<Rightarrow> 'a kmem_scheme \<Rightarrow> 'a kmem_scheme" where
  "zalloc q s = (snd (kalloc s))\<lparr>mem := memset (mem (snd (kalloc s))) q 0 4096\<rparr>"

lemma zalloc:
  assumes pool: "kmem_pool s (q # ps)"
  shows "kmem_pool (zalloc q s) ps" "mem (zalloc q s) a = (if page_of a = page_of q then 0 else mem s a)"
    "kpage (zalloc q s) = kpage s" "zalloc q s = s\<lparr>mem := mem (zalloc q s), freelist := freelist (zalloc q s)\<rparr>"
proof -
  have q: "page_aligned q" using pool by (simp add: kmem_pool_def kpage_def)
  have eq: "kalloc s = (q, s\<lparr>freelist := load64 (mem s) q, mem := memset (mem s) q 5 4096\<rparr>)"
    and pool': "kmem_pool (snd (kalloc s)) ps" using kalloc_pool [OF pool] by auto
  show "mem (zalloc q s) a = (if page_of a = page_of q then 0 else mem s a)"
    by (simp add: zalloc_def eq memset_page [OF q])
  show "kpage (zalloc q s) = kpage s" by (simp add: zalloc_def eq kpage_def fun_eq_iff)
  show "zalloc q s = s\<lparr>mem := mem (zalloc q s), freelist := freelist (zalloc q s)\<rparr>"
    by (simp add: zalloc_def eq)
  show "kmem_pool (zalloc q s) ps"
  proof (rule kmem_pool_frame [OF pool'])
    show "mem (zalloc q s) a = mem (snd (kalloc s)) a" if "p \<in> set ps" "page_of a = page_of p" for p a
    proof -
      have "page_aligned p" "p \<noteq> q" using pool that by (auto simp: kmem_pool_def kpage_def)
      then have "page_of a \<noteq> page_of q" using that q page_of_inject by metis
      then show ?thesis by (simp add: zalloc_def eq memset_page [OF q])
    qed
  qed (simp_all add: zalloc_def eq)
qed

lemma vm_inv_zalloc:
  assumes inv: "vm_inv s pt (q # ps)"
  shows "vm_inv (zalloc q s) pt ps" "lookup (mem (zalloc q s)) pt = lookup (mem s) pt"
    "tables (mem (zalloc q s)) pt = tables (mem s) pt"
proof -
  have pool: "kmem_pool s (q # ps)" using inv by (simp add: vm_inv_def)
  have q: "page_aligned q" using pool by (simp add: kmem_pool_def kpage_def)
  note z = zalloc [OF pool]
  have ent: "entry (mem (zalloc q s)) p i = entry (mem s) p i"
    if "path is" "node (mem s) pt is = Some p" "unat i < 512" for p i "is"
  proof (rule entry_cong)
    have "page_aligned p" "p \<noteq> q" using vm_inv_table [OF inv that(1,2)] by auto
    then show "mem (zalloc q s) a = mem s a" if "page_of a = page_of p" for a
      using that q page_of_inject [of p q] by (simp add: z(2))
  qed (use that vm_inv_table [OF inv that(1,2)] in auto)
  have nd: "node (mem (zalloc q s)) pt is = node (mem s) pt is" if "path is" for "is"
    by (rule node_cong [OF that]) (use ent in blast)
  show "lookup (mem (zalloc q s)) pt = lookup (mem s) pt"
    using nd [OF path_simps(2)] ent [OF path_simps(2) _ PX_less]
    by (simp add: lookup_def fun_eq_iff split: option.split)
  show tb: "tables (mem (zalloc q s)) pt = tables (mem s) pt" by (rule tables_cong [OF nd])
  have "path is \<Longrightarrow> path js \<Longrightarrow> node (mem s) pt is = Some p \<Longrightarrow> node (mem s) pt js = Some p \<Longrightarrow> is = js" for "is" js p
    using inv by (rule vm_inv_unique)
  then show "vm_inv (zalloc q s) pt ps"
    using inv z(1,3) tb nd by (auto simp: vm_inv_def)
qed

lemma user_inv_zalloc:
  assumes inv: "user_inv s pt (q # ps)"
  shows "user_inv (zalloc q s) pt ps" "ubyte (mem (zalloc q s)) pt = ubyte (mem s) pt"
    "uaddr (mem (zalloc q s)) pt = uaddr (mem s) pt"
proof -
  have pool: "kmem_pool s (q # ps)" using inv by (simp add: user_inv_def vm_inv_def)
  note z = zalloc [OF pool] and vz = vm_inv_zalloc [OF user_inv_vm [OF inv]]
  show u: "uaddr (mem (zalloc q s)) pt = uaddr (mem s) pt" by (simp add: uaddr_def fun_eq_iff vz(2))
  have "mem (zalloc q s) a = mem s a" if "uaddr (mem s) pt va = Some a" for va a
  proof -
    have "PGROUNDDOWN a \<noteq> q" using uaddr_page(2) [OF inv that] by auto
    then have "page_of a \<noteq> page_of q"
      using pool PGROUNDDOWN_aligned [of q a] by (auto simp: kmem_pool_def kpage_def)
    then show ?thesis by (simp add: z(2))
  qed
  then show "ubyte (mem (zalloc q s)) pt = ubyte (mem s) pt"
    using u by (auto simp: ubyte_def fun_eq_iff map_option_case split: option.split)
  show "user_inv (zalloc q s) pt ps"
    using inv vz(1) unfolding user_inv_def vz z(3) list.set by blast
qed

lemma mappages_one:
  assumes inv: "vm_inv s pt ps" and a: "page_aligned a" "a < MAXVA" "lookup (mem s) pt a = None"
  shows "\<exists>r s' ps'. mappages pt a PGSIZE pa perm s = Some (r, s') \<and> vm_inv s' pt ps' \<and> pt_frame pt ps ps' s s' \<and>
     length ps \<le> length ps' + 2 \<and>
     (r = 0 \<and> (\<forall>vb < MAXVA. lookup (mem s') pt vb =
        (if page_of vb = page_of a then Some (PA2PTE pa OR perm OR PTE_V) else lookup (mem s) pt vb))
      \<or> r = -1 \<and> ps' = [] \<and> length ps < 2 \<and> (\<forall>vb < MAXVA. lookup (mem s') pt vb = lookup (mem s) pt vb))"
proof -
  have b: "unat a + 4096 \<le> 274877906944"
    using a(1,2) by (auto simp: page_aligned_unat word_less_nat_alt simp flip: dvd_eq_mod_eq_0)
  have pg: "page_of (a + PGSIZE - 1) = page_of a"
    using page_of_offset [OF a(1), of 4095] by (simp add: add.commute)
  have lk: "lookup (mem s) pt vb = None" if "page_of vb = page_of a" for vb
    using that a(3) lookup_PGROUNDDOWN PGROUNDDOWN_eq_iff by metis
  have "map_range a pa perm (Suc 0) f vb =
      (if page_of vb = page_of a then Some (PA2PTE pa OR perm OR PTE_V) else f vb)" for f vb
    by (auto simp: map_range_def)
  moreover obtain k r s' ps' where "mappages pt a PGSIZE pa perm s = Some (r, s')" "vm_inv s' pt ps'"
      "pt_frame pt ps ps' s s'" "k \<le> Suc 0" "r = (if k = Suc 0 then 0 else -1)" "k < Suc 0 \<longrightarrow> ps' = [] \<and> length ps < 2 * Suc 0"
      "length ps \<le> length ps' + 2 * Suc 0"
      "\<forall>vb < MAXVA. lookup (mem s') pt vb = map_range a pa perm k (lookup (mem s) pt) vb"
  proof -
    have "0 < PGSIZE" "unat a + unat PGSIZE \<le> 274877906944" using b by simp_all
    from mappages_spec [OF inv this, unfolded pg, of pa perm] lk show ?thesis
      by (auto intro: that)
  qed
  moreover from \<open>k \<le> Suc 0\<close> have "k = 0 \<or> k = Suc 0" by auto
  ultimately show ?thesis by (elim disjE) (auto simp del: PGSIZE_def)
qed


lemma pt_frame_data:
  assumes fr: "pt_frame pt ps ps' s s'" and inv: "vm_inv s pt ps"
    and d: "page_aligned d" "d \<notin> tables (mem s) pt" "d \<notin> set ps"
  shows "page_of a = page_of d \<Longrightarrow> mem s' a = mem s a" "d \<notin> tables (mem s') pt" "d \<notin> set ps'"
proof -
  have al: "page_aligned p" if "p \<in> tables (mem s) pt \<union> set ps" for p
    using that inv by (auto simp: vm_inv_def kmem_pool_def kpage_def)
  then have "page_of d \<notin> page_of ` (tables (mem s) pt \<union> set ps)"
    using d page_of_inject [of d] by (auto simp: image_iff)
  then show "page_of a = page_of d \<Longrightarrow> mem s' a = mem s a" using pt_frame_mem [OF fr, of a] by auto
  show "d \<notin> tables (mem s') pt" "d \<notin> set ps'" using fr d(2,3) by (auto simp: pt_frame_def)
qed

lemma user_map_fresh:
  assumes inv: "user_inv s pt (q # ps)" and a: "page_aligned a" "a < MAXVA" "lookup (mem s) pt a = None"
    and perm: "perm < 1024" "(PA2PTE q OR perm OR PTE_V) AND PTE_U \<noteq> 0"
  shows "\<exists>r s' ps'. mappages pt a PGSIZE q perm (zalloc q s) = Some (r, s') \<and> user_inv s' pt ps' \<and>
     (\<exists>qs. ps = qs @ ps') \<and> length ps \<le> length ps' + 2 \<and>
     (r = 0 \<and> (\<forall>vb < MAXVA. lookup (mem s') pt vb =
         (if page_of vb = page_of a then Some (PA2PTE q OR perm OR PTE_V) else lookup (mem s) pt vb)) \<and>
        (\<forall>vb. ubyte (mem s') pt vb = (if page_of vb = page_of a then Some 0 else ubyte (mem s) pt vb))
      \<or> r = -1 \<and> ps' = [] \<and> length ps < 2 \<and> (\<forall>vb < MAXVA. lookup (mem s') pt vb = lookup (mem s) pt vb) \<and>
        ubyte (mem s') pt = ubyte (mem s) pt)"
proof -
  let ?s = "zalloc q s" and ?e = "PA2PTE q OR perm OR PTE_V"
  have vm: "vm_inv s pt (q # ps)" using inv by simp
  then have pool: "kmem_pool s (q # ps)" by (simp add: vm_inv_def)
  note z = zalloc [OF pool] and vz = vm_inv_zalloc [OF vm] and uz = user_inv_zalloc [OF inv]
  have q: "kpage s q" "page_aligned q" "q \<notin> set ps" "q \<notin> tables (mem s) pt"
    using pool vm by (auto simp: kmem_pool_def kpage_def vm_inv_def)
  have lkN: "lookup (mem ?s) pt a = None" using a(3) vz(2) by simp
  obtain r s' ps' where m: "mappages pt a PGSIZE q perm ?s = Some (r, s')" "vm_inv s' pt ps'" "pt_frame pt ps ps' ?s s'"
      "r = 0 \<and> (\<forall>vb < MAXVA. lookup (mem s') pt vb = (if page_of vb = page_of a then Some ?e else lookup (mem s) pt vb))
       \<or> r = -1 \<and> ps' = [] \<and> length ps < 2 \<and> (\<forall>vb < MAXVA. lookup (mem s') pt vb = lookup (mem s) pt vb)"
      "length ps \<le> length ps' + 2"
    using mappages_one [OF vz(1) a(1,2) lkN, of q perm] unfolding vz(2) by blast
  have kp: "kpage s' = kpage s" using pt_frame_k_end [OF m(3)] z(3) by (simp add: kpage_def fun_eq_iff)
  have sub: "\<exists>qs. ps = qs @ ps'" using m(3) by (auto simp: pt_frame_def)
  have d: "page_aligned d" "d \<notin> tables (mem ?s) pt" "d \<notin> set ps" "d \<noteq> q" "kpage s d"
    if "va < MAXVA" "lookup (mem s) pt va = Some e" "e AND PTE_U \<noteq> 0" "d = PTE2PA e" for va e d
    using inv that unfolding user_inv_def vz(3) by auto
  note fq = pt_frame_data [OF m(3) vz(1) q(2) q(4) [folded vz(3)] q(3)]
  note fd = pt_frame_data [OF m(3) vz(1) d(1-3)]
  have fm: "mem s' x = mem s x" if "uaddr (mem s) pt vb = Some x" for x vb
  proof -
    obtain e where e: "vb < MAXVA" "lookup (mem s) pt vb = Some e" "e AND PTE_U \<noteq> 0" "PTE2PA e = PGROUNDDOWN x"
      using \<open>uaddr (mem s) pt vb = Some x\<close> by (rule uaddr_SomeD)
    have "page_of x = page_of (PTE2PA e)" using e(4) by simp
    moreover have "page_of x \<noteq> page_of q"
      using d(4) [OF e(1-3)] e(4) PGROUNDDOWN_aligned [OF q(2), of x] by auto
    ultimately show ?thesis using fd(1) [OF e(1-3) refl e(1-3) refl e(1-3) refl] z(2) by simp
  qed
  from m(4) show ?thesis
  proof (elim disjE conjE)
    assume r: "r = 0" and lk: "\<forall>vb < MAXVA. lookup (mem s') pt vb = (if page_of vb = page_of a then Some ?e else lookup (mem s) pt vb)"
    have new: "PTE2PA ?e = q" using q(2) perm(1) by (rule PTE2PA_of_pte)
    have ui: "user_inv s' pt ps'"
      unfolding user_inv_def kp
    proof (intro conjI allI impI)
      show "vm_inv s' pt ps'" by (rule m(2))
      fix va e assume va: "va < MAXVA" "lookup (mem s') pt va = Some e" "e AND PTE_U \<noteq> 0"
      show "kpage s (PTE2PA e)" "PTE2PA e \<notin> set ps'" "PTE2PA e \<notin> tables (mem s') pt"
        using va lk new q(1) fq(2,3) d(5) [of va e] fd(2,3) [of va e _ va e va e]
        by (auto split: if_splits)
    next
      fix va vb e f
      assume v: "va < MAXVA" "vb < MAXVA" "lookup (mem s') pt va = Some e" "lookup (mem s') pt vb = Some f"
        "e AND PTE_U \<noteq> 0" "f AND PTE_U \<noteq> 0" "PTE2PA e = PTE2PA f"
      show "page_of va = page_of vb"
      proof (cases "page_of va = page_of a \<or> page_of vb = page_of a")
        case True
        then show ?thesis using v lk new d(4) [of va e] d(4) [of vb f] by (auto split: if_splits)
      next
        case False
        then have "lookup (mem s) pt va = Some e" "lookup (mem s) pt vb = Some f" using v lk by auto
        then show ?thesis using inv v unfolding user_inv_def by blast
      qed
    qed
    have "ubyte (mem s') pt vb = (if page_of vb = page_of a then Some 0 else ubyte (mem s) pt vb)" for vb
    proof (cases "page_of vb = page_of a")
      case True
      then have vb: "vb < MAXVA" using a(2) PGROUNDDOWN_MAXVA [of vb] PGROUNDDOWN_MAXVA [of a] PGROUNDDOWN_eq_iff [of vb a] by simp
      then have u: "uaddr (mem s') pt vb = Some (q + (vb - PGROUNDDOWN vb))"
        using True lk new perm(2) by (simp add: uaddr_def)
      have pg: "page_of (q + (vb - PGROUNDDOWN vb)) = page_of q" using q(2) by (simp add: page_offset_add)
      show ?thesis using True fq(1) [OF pg] z(2) [of "q + (vb - PGROUNDDOWN vb)"] pg u by (simp add: ubyte_def)
    next
      case False
      then have "uaddr (mem s') pt vb = uaddr (mem s) pt vb" using lk by (simp add: uaddr_def)
      then show ?thesis using False fm by (cases "uaddr (mem s) pt vb") (simp_all add: ubyte_def)
    qed
    then show ?thesis using m(1,5) r ui sub lk by blast
  next
    assume r: "r = -1" "ps' = []" "length ps < 2" and lk: "\<forall>vb < MAXVA. lookup (mem s') pt vb = lookup (mem s) pt vb"
    have "uaddr (mem s') pt = uaddr (mem s) pt" using lk by (simp add: uaddr_def fun_eq_iff)
    then have "ubyte (mem s') pt = ubyte (mem s) pt"
      using fm by (auto simp: ubyte_def fun_eq_iff map_option_case split: option.split)
    moreover have "user_inv s' pt ps'"
      unfolding user_inv_def kp
    proof (intro conjI allI impI)
      show "vm_inv s' pt ps'" by (rule m(2))
      fix va e assume va: "va < MAXVA" "lookup (mem s') pt va = Some e" "e AND PTE_U \<noteq> 0"
      show "kpage s (PTE2PA e)" "PTE2PA e \<notin> set ps'" "PTE2PA e \<notin> tables (mem s') pt"
        using va lk d(5) [of va e] fd(2,3) [of va e _ va e va e] by auto
    next
      fix va vb e f
      assume "va < MAXVA" "vb < MAXVA" "lookup (mem s') pt va = Some e" "lookup (mem s') pt vb = Some f"
        "e AND PTE_U \<noteq> 0" "f AND PTE_U \<noteq> 0" "PTE2PA e = PTE2PA f"
      then show "page_of va = page_of vb" using inv lk unfolding user_inv_def by metis
    qed
    ultimately show ?thesis using m(1,5) r sub lk by blast
  qed
qed


lemma uvmcreate_empty:
  assumes pool: "kmem_pool s (q # ps)"
  shows "uvmcreate s = (q, zalloc q s)" "user_inv (zalloc q s) q ps" "lookup (mem (zalloc q s)) q va = None"
proof -
  note z = zalloc [OF pool]
  have q: "page_aligned q" "q \<noteq> 0" "kpage s q" "q \<notin> set ps" using pool by (auto simp: kmem_pool_def kpage_def)
  obtain s1 where "kalloc s = (q, s1)" using kalloc_pool [OF pool] by simp
  then show "uvmcreate s = (q, zalloc q s)" using q(2) by (simp add: uvmcreate_def zalloc_def)
  have "entry (mem (zalloc q s)) q i = entry (\<lambda>_. 0) q i" if "unat i < 512" for i
    using that q(1) by (intro entry_cong) (simp_all add: z(2))
  then have e: "entry (mem (zalloc q s)) q i = 0" if "unat i < 512" for i
    using that by (simp add: load64_def le64_def)
  have nd: "node (mem (zalloc q s)) q is = (if is = [] then Some q else None)" if "path is" for "is"
    using that e by (cases "is") (auto simp: path_def)
  then show lk: "lookup (mem (zalloc q s)) q va = None" for va
    by (simp add: lookup_def tpath_def e)
  have "tables (mem (zalloc q s)) q = {q}"
    using nd by (auto simp: tables_def intro: exI [of _ "[]"] split: if_splits)
  moreover have "is = js" if "path is" "path js" "node (mem (zalloc q s)) q is = Some p" "node (mem (zalloc q s)) q js = Some p" for "is" js p
    using that nd by (auto split: if_splits)
  ultimately show "user_inv (zalloc q s) q ps"
    using z(1,3) q lk by (simp add: user_inv_def vm_inv_def)
qed

lemma perm_less: "PTE_R OR PTE_U < 1024" "PTE_W OR PTE_R OR PTE_X OR PTE_U < 1024" "PTE_R OR PTE_W OR PTE_U < 1024"
  by (simp_all add: PTE_R_def PTE_W_def PTE_X_def PTE_U_def)

lemma perm_user: "(x OR (PTE_R OR PTE_W OR PTE_U) OR PTE_V) AND PTE_U \<noteq> 0"
proof -
  have "bit ((x OR (PTE_R OR PTE_W OR PTE_U) OR PTE_V) AND PTE_U) 4"
    by (simp add: bit_simps PTE_R_def PTE_W_def PTE_X_def PTE_U_def)
  then show ?thesis by (metis bit_0_eq bot_apply bot_bool_def)
qed


lemma page_of_small: "page_of vb = 0 \<longleftrightarrow> vb < 4096"
  by (simp add: page_of_def word_less_nat_alt div_eq_0_iff)

lemma uvmfirst_spec:
  assumes inv: "user_inv s pt (q # ps)" and a: "lookup (mem s) pt 0 = None" and ps: "2 \<le> length ps"
    and sz: "unat sz < 4096"
  shows "\<exists>s' ps'. uvmfirst pt src sz s = Some s' \<and> user_inv s' pt ps' \<and>
    (\<forall>vb. ubyte (mem s') pt vb =
       (if vb < 4096 then Some (if unat vb < unat sz then src (unat vb) else 0) else ubyte (mem s) pt vb))"
proof -
  let ?perm = "PTE_W OR PTE_R OR PTE_X OR PTE_U"
  have vm: "vm_inv s pt (q # ps)" using inv by simp
  then have pool: "kmem_pool s (q # ps)" by (simp add: vm_inv_def)
  then have q: "page_aligned q" by (simp add: kmem_pool_def kpage_def)
  have zero: "page_aligned 0" "0 < MAXVA" by (simp_all add: page_aligned_unat)
  have "(PA2PTE q OR ?perm OR PTE_V) AND PTE_U \<noteq> 0"
  proof -
    have "bit ((PA2PTE q OR ?perm OR PTE_V) AND PTE_U) 4"
      by (simp add: bit_simps PTE_R_def PTE_W_def PTE_X_def PTE_U_def)
    then show ?thesis by (metis bit_0_eq bot_apply bot_bool_def)
  qed
  from user_map_fresh [OF inv zero a perm_less(2) this] ps obtain s1 ps1 where m:
      "mappages pt 0 PGSIZE q ?perm (zalloc q s) = Some (0, s1)" "user_inv s1 pt ps1"
      "\<forall>vb < MAXVA. lookup (mem s1) pt vb = (if page_of vb = page_of 0 then Some (PA2PTE q OR ?perm OR PTE_V) else lookup (mem s) pt vb)"
      "\<forall>vb. ubyte (mem s1) pt vb = (if page_of vb = page_of 0 then Some 0 else ubyte (mem s) pt vb)"
    by fastforce
  let ?s = "s1\<lparr>mem := mem_write (mem s1) q src (unat sz)\<rparr>"
  obtain s0 where s0: "kalloc s = (q, s0)" using kalloc_pool [OF pool] by simp
  have "unat (ucast sz :: u64) < 4096" using sz by (simp add: unat_ucast_u32_u64)
  then have "\<not> PGSIZE \<le> ucast sz" by (simp add: word_le_nat_alt)
  then have eq: "uvmfirst pt src sz s = Some ?s"
    using m(1) s0 by (simp add: uvmfirst_def zalloc_def)
  have u0: "uaddr (mem s1) pt 0 = Some q"
    using m(3) zero(2) q by (simp add: uaddr_def page_of_def perm_less \<open>(PA2PTE q OR ?perm OR PTE_V) AND PTE_U \<noteq> 0\<close> PGROUNDDOWN_def)
  have ch: "chunk 0 (ucast sz) = ucast sz"
    using sz by (simp add: word_unat_eq_iff unat_chunk unat_ucast_u32_u64)
  note st = copyout_step [OF m(2) u0, of src "ucast sz", unfolded ch unat_ucast_u32_u64]
  have "ubyte (mem ?s) pt vb =
      (if vb < 4096 then Some (if unat vb < unat sz then src (unat vb) else 0) else ubyte (mem s) pt vb)" for vb
  proof -
    have "vb < 4096" if "unat vb < unat sz" using that sz by (simp add: word_less_nat_alt)
    moreover have "page_of 0 = 0" by (simp add: page_of_def)
    ultimately show ?thesis using st(3) [of vb] m(4) page_of_small [of vb] by auto
  qed
  then show ?thesis using eq st(1) by blast
qed

lemma uvmalloc_loop_spec:
  assumes "user_inv s pt ps" "page_aligned a" "unat newsz \<le> 274877906944"
    and "unat newsz \<le> unat a + 4096 * n" "n \<noteq> 0 \<Longrightarrow> unat a + 4096 * (n - 1) < unat newsz"
    and "3 * n \<le> length ps" "\<And>k. k < n \<Longrightarrow> lookup (mem s) pt (a + 4096 * of_nat k) = None"
    and perm: "PTE_R OR PTE_U OR xperm < 1024"
  shows "\<exists>s' ps'. uvmalloc_loop pt oldsz a newsz xperm s = Some (newsz, s') \<and> user_inv s' pt ps' \<and>
    (\<forall>vb. ubyte (mem s') pt vb =
       (if page_of a \<le> page_of vb \<and> page_of vb < page_of a + n then Some 0 else ubyte (mem s) pt vb))"
  using assms(1-7)
proof (induction n arbitrary: a s ps)
  case 0
  then have "\<not> a < newsz" by (simp add: word_less_nat_alt)
  then show ?case using 0(1) by (subst uvmalloc_loop.simps) auto
next
  case (Suc n)
  have lt: "a < newsz" "unat a + 4096 * n < unat newsz" using Suc.prems(5) by (auto simp: word_less_nat_alt)
  have aM: "a < MAXVA" using lt Suc.prems(3) by (simp add: word_less_nat_alt)
  have a4: "unat (a + 4096) = unat a + 4096"
  proof -
    have "unat a + 4096 \<le> 274877906944"
      using aM Suc.prems(2) by (auto simp: page_aligned_unat word_less_nat_alt simp flip: dvd_eq_mod_eq_0)
    then show ?thesis by (simp add: unat_word_ariths)
  qed
  have al: "page_aligned (a + 4096)" using page_aligned_add [OF Suc.prems(2), of 1] by simp
  have pa4: "page_of (a + 4096) = Suc (page_of a)" using a4 by (simp add: page_of_def)
  obtain q qs where ps: "ps = q # qs" "2 \<le> length qs" using Suc.prems(6) by (cases ps) auto
  have vm: "vm_inv s pt (q # qs)" and ui: "user_inv s pt (q # qs)" using Suc.prems(1) ps by auto
  then have pool: "kmem_pool s (q # qs)" by (simp add: vm_inv_def)
  then have q0: "q \<noteq> 0" by (auto simp: kmem_pool_def)
  let ?perm = "PTE_R OR PTE_U OR xperm"
  have lk0: "lookup (mem s) pt a = None" using Suc.prems(7) [of 0] by simp
  have pu: "(PA2PTE q OR ?perm OR PTE_V) AND PTE_U \<noteq> 0"
  proof -
    have "bit ((PA2PTE q OR ?perm OR PTE_V) AND PTE_U) 4" by (simp add: bit_simps PTE_U_def)
    then show ?thesis by (metis bit_0_eq bot_apply bot_bool_def)
  qed
  from user_map_fresh [OF ui Suc.prems(2) aM lk0 perm pu] ps(2) obtain s1 ps1 where m:
      "mappages pt a PGSIZE q ?perm (zalloc q s) = Some (0, s1)" "user_inv s1 pt ps1"
      "\<forall>vb < MAXVA. lookup (mem s1) pt vb = (if page_of vb = page_of a then Some (PA2PTE q OR ?perm OR PTE_V) else lookup (mem s) pt vb)"
      "\<forall>vb. ubyte (mem s1) pt vb = (if page_of vb = page_of a then Some 0 else ubyte (mem s) pt vb)"
      "length qs \<le> length ps1 + 2"
    by fastforce
  obtain s0 where s0: "kalloc s = (q, s0)" using kalloc_pool [OF pool] by simp
  have eq: "uvmalloc_loop pt oldsz a newsz xperm s = uvmalloc_loop pt oldsz (a + 4096) newsz xperm s1"
    using m(1) s0 q0 lt(1) by (subst uvmalloc_loop.simps) (simp add: zalloc_def)
  have free: "lookup (mem s1) pt (a + 4096 + 4096 * of_nat k) = None" if "k < n" for k
  proof -
    have b: "unat a + 4096 * Suc k < 274877906944" using that lt(2) Suc.prems(3) by simp
    have vb: "a + 4096 + 4096 * of_nat k = a + 4096 * of_nat (Suc k)" by (simp add: algebra_simps)
    have "page_of (a + 4096 * of_nat (Suc k)) = page_of a + Suc k"
      by (rule page_of_add) (use b Suc.prems(2) in simp_all)
    moreover have "a + 4096 * of_nat (Suc k) < MAXVA"
      using b by (simp add: word_less_nat_alt unat_word_ariths unat_of_nat)
    ultimately show ?thesis using m(3) Suc.prems(7) [of "Suc k"] that unfolding vb by simp
  qed
  have "\<exists>s' ps'. uvmalloc_loop pt oldsz (a + 4096) newsz xperm s1 = Some (newsz, s') \<and> user_inv s' pt ps' \<and>
      (\<forall>vb. ubyte (mem s') pt vb = (if page_of (a + 4096) \<le> page_of vb \<and> page_of vb < page_of (a + 4096) + n
         then Some 0 else ubyte (mem s1) pt vb))"
    by (rule Suc.IH [OF m(2) al Suc.prems(3)]) (use Suc.prems(4,6) lt(2) a4 m(5) ps free in auto)
  then show ?case using eq m(4) pa4 by fastforce
qed

section \<open>Properties\<close>

text \<open>An address space to apply the properties to: eight free pages, the first holding an empty
  page table.\<close>

definition boot :: kmem where
  "boot = \<lparr>mem = (\<lambda>_. 0), k_end = 0x87ff8000, k_etext = 0, k_trampoline = 0, freelist = 0\<rparr>"

lemma boot_pool: "\<exists>(s :: kmem) ps. kmem_pool s ps \<and> length ps = 8"
proof -
  have "\<exists>s. kinit boot = Some s \<and> kmem_pool s (rev (page_range (PGROUNDUP (k_end boot))
      ((unat PHYSTOP - unat (PGROUNDUP (k_end boot))) div 4096)))"
    by (rule kinit_pool) (simp_all add: boot_def)
  moreover have "unat (PGROUNDUP (k_end boot)) = 0x87ff8000"
    by (subst unat_PGROUNDUP) (simp_all add: boot_def)
  ultimately obtain s :: kmem where "kmem_pool s (rev (page_range (PGROUNDUP (k_end boot)) 8))" by auto
  moreover have "length (rev (page_range (PGROUNDUP (k_end boot)) 8)) = 8" by (simp add: page_range_def)
  ultimately show ?thesis by blast
qed

lemma boot_user: "\<exists>(s :: kmem) pt ps. user_inv s pt ps \<and> length ps = 7 \<and> (\<forall>va. lookup (mem s) pt va = None)"
proof -
  obtain s :: kmem and ps where s: "kmem_pool s ps" "length ps = 8" using boot_pool by blast
  then obtain q qs where q: "ps = q # qs" "length qs = 7" by (cases ps) auto
  with uvmcreate_empty [OF s(1) [unfolded q(1)]] show ?thesis by blast
qed

lemma boot_mapped:
  "\<exists>(s :: kmem) pt ps. user_inv s pt ps \<and> (\<forall>vb < 4096. ubyte (mem s) pt vb = Some (if unat vb < 3 then 65 else 0))"
proof -
  obtain s :: kmem and pt ps where s: "user_inv s pt ps" "length ps = 7" "lookup (mem s) pt 0 = None" using boot_user by blast
  then obtain q qs where ps: "ps = q # qs" "2 \<le> length qs" by (cases ps) auto
  have "unat (3::u32) < 4096" by simp
  from uvmfirst_spec [OF s(1) [unfolded ps(1)] s(3) ps(2) this, of "\<lambda>_. 65"]
  obtain s' :: kmem and ps' where "user_inv s' pt ps'" "\<And>vb. ubyte (mem s') pt vb =
      (if vb < 4096 then Some (if unat vb < unat (3 :: u32) then 65 else 0) else ubyte (mem s) pt vb)" by blast
  then show ?thesis by (intro exI [of _ s'] exI [of _ pt] exI [of _ ps']) simp
qed

text \<open>
  C10: \<open>mappages\<close> over an unmapped range below \<open>MAXVA\<close> never panics. It maps the pages of the range in
  order to consecutive physical pages with the given permissions and leaves every other
  mapping and all memory outside the table pages unchanged; it returns 0 exactly when the
  whole range is mapped, and fails only when the free list has run empty. The table stays a
  tree of distinct pages off the free list.
\<close>

theorem mappages_maps_range:
  assumes "vm_inv s pt ps" and "0 < sz" and "unat va + unat sz \<le> unat MAXVA"
    and "\<And>vb. vb < MAXVA \<Longrightarrow> page_of va \<le> page_of vb \<Longrightarrow> page_of vb \<le> page_of (va + sz - 1) \<Longrightarrow>
      lookup (mem s) pt vb = None"
  defines "n \<equiv> Suc (page_of (va + sz - 1) - page_of va)"
  shows "\<exists>k r s' ps'. mappages pt va sz pa perm s = Some (r, s') \<and> vm_inv s' pt ps' \<and>
    pt_frame pt ps ps' s s' \<and> k \<le> n \<and> r = (if k = n then 0 else -1) \<and>
    (k < n \<longrightarrow> ps' = [] \<and> length ps < 2 * n) \<and>
    (\<forall>vb < MAXVA. lookup (mem s') pt vb = map_range va pa perm k (lookup (mem s) pt) vb)"
proof -
  have "unat va + unat sz \<le> 274877906944" using assms(3) by simp
  from mappages_spec [OF assms(1,2) this assms(4)] show ?thesis unfolding n_def by blast
qed

theorem mappages_maps_range_witness:
  "\<exists>s pt s'. mappages pt 0 0x2000 0x80000000 PTE_R (s :: kmem) = Some (0, s')
     \<and> lookup (mem s') pt 0x1000 = Some (PA2PTE 0x80001000 OR PTE_R OR PTE_V)"
proof -
  obtain s :: kmem and pt ps where s: "user_inv s pt ps" "length ps = 7" "\<And>va. lookup (mem s) pt va = None"
    using boot_user by blast
  have n: "Suc (page_of (0 + 0x2000 - 1) - page_of 0) = 2" by (simp add: page_of_def)
  have "0 < (0x2000 :: u64)" "unat (0 :: u64) + unat (0x2000 :: u64) \<le> unat MAXVA" by simp_all
  note mappages_maps_range [OF user_inv_vm [OF s(1)] this s(3), unfolded n, where pa = "0x80000000" and perm = PTE_R]
  then obtain k r s' where "mappages pt 0 0x2000 0x80000000 PTE_R s = Some (r, s')" "k \<le> 2"
      "r = (if k = 2 then 0 else -1)" "k < 2 \<longrightarrow> length ps < 4"
      "\<forall>vb < MAXVA. lookup (mem s') pt vb = map_range 0 0x80000000 PTE_R k (lookup (mem s) pt) vb"
    by auto
  with s(2) have "mappages pt 0 0x2000 0x80000000 PTE_R s = Some (0, s') \<and>
      lookup (mem s') pt 0x1000 = Some (PA2PTE 0x80001000 OR PTE_R OR PTE_V)"
    by (auto simp: map_range_def page_of_def)
  then show ?thesis by blast
qed

text \<open>
  C12: \<open>copyout\<close> always returns: 0 exactly when every byte of the destination range is mapped for
  user access, otherwise -1. User memory outside the range keeps its contents and the address
  space stays well formed; after a return of 0, \<open>copyin\<close> of the same range succeeds and yields
  the bytes that were written.
\<close>

theorem copyout_copyin:
  assumes "user_inv s pt ps"
  shows "\<exists>r s'. copyout pt va src len s = Some (r, s') \<and> user_inv s' pt ps \<and>
    r = (if \<forall>vb. unat (vb - va) < unat len \<longrightarrow> uaddr (mem s) pt vb \<noteq> None then 0 else -1) \<and>
    (\<forall>vb. \<not> unat (vb - va) < unat len \<longrightarrow> ubyte (mem s') pt vb = ubyte (mem s) pt vb) \<and>
    (r = 0 \<longrightarrow> (\<exists>d. copyin pt dst va len s' = Some (0, d) \<and>
       (\<forall>k. d k = (if k < unat len then src k else dst k))))"
proof -
  obtain r m' where o: "copyout pt va src len s = Some (r, s\<lparr>mem := m'\<rparr>)" "user_inv (s\<lparr>mem := m'\<rparr>) pt ps"
      "uaddr m' pt = uaddr (mem s) pt"
      "r = (if \<forall>vb. unat (vb - va) < unat len \<longrightarrow> uaddr (mem s) pt vb \<noteq> None then 0 else -1)"
      "\<forall>vb. \<not> unat (vb - va) < unat len \<longrightarrow> ubyte m' pt vb = ubyte (mem s) pt vb"
      "r = 0 \<longrightarrow> (\<forall>vb. unat (vb - va) < unat len \<longrightarrow> ubyte m' pt vb = Some (src (unat (vb - va))))"
    using copyout_spec [OF assms, of va src len] by blast
  have "\<exists>d. copyin pt dst va len (s\<lparr>mem := m'\<rparr>) = Some (0, d) \<and> (\<forall>k. d k = (if k < unat len then src k else dst k))"
    if r: "r = 0"
  proof -
    have ok: "\<forall>vb. unat (vb - va) < unat len \<longrightarrow> uaddr m' pt vb \<noteq> None"
      using r o(3,4) by (simp split: if_splits)
    from copyin_from_spec [OF o(2), of dst 0 va len] ok obtain d where
        d: "copyin_from pt dst 0 va len (s\<lparr>mem := m'\<rparr>) = Some (0, d)" "\<forall>k. unat len \<le> k \<longrightarrow> d k = dst k"
        "\<forall>vb. unat (vb - va) < unat len \<longrightarrow> ubyte m' pt vb = Some (d (unat (vb - va)))"
      by auto
    have "d k = src k" if "k < unat len" for k
    proof -
      have "k < 2 ^ 64" using that unat_u64_less [of len] by simp
      then have k: "unat (va + of_nat k - va) = k" by (simp add: unat_of_nat)
      then show ?thesis using d(3) [rule_format, of "va + of_nat k"] o(6) r that by simp
    qed
    with d show ?thesis by (auto simp: copyin_def)
  qed
  with o show ?thesis by auto
qed

theorem copyout_copyin_witness:
  "\<exists>s pt s' d. copyout pt 0x0ffe (\<lambda>k. of_nat k) 2 (s :: kmem) = Some (0, s')
     \<and> copyin pt (\<lambda>_. 7) 0x0ffe 2 s' = Some (0, d) \<and> d 1 = 1 \<and> d 2 = 7"
proof -
  obtain s :: kmem and pt ps where s: "user_inv s pt ps" "\<And>vb. vb < 4096 \<Longrightarrow> ubyte (mem s) pt vb = Some (if unat vb < 3 then 65 else 0)"
    using boot_mapped by blast
  have "uaddr (mem s) pt vb \<noteq> None" if "unat (vb - 0xffe) < unat (2 :: u64)" for vb
  proof -
    have "unat (vb - 0xffe) = 0 \<or> unat (vb - 0xffe) = 1" using that by auto
    then have "vb - 0xffe = 0 \<or> vb - 0xffe = 1" by (auto simp: word_unat_eq_iff)
    then have "vb = 0xffe \<or> vb = 0xfff" by (auto simp: diff_eq_eq)
    then show ?thesis using s(2) [of vb] by (auto simp: ubyte_def)
  qed
  then have "(if \<forall>vb. unat (vb - 0xffe) < unat (2 :: u64) \<longrightarrow> uaddr (mem s) pt vb \<noteq> None then 0 else -1) = (0 :: int)"
    by auto
  with copyout_copyin [OF s(1), of "0xffe" "\<lambda>k. of_nat k" 2 "\<lambda>_. 7"] obtain s' d where
      "copyout pt 0xffe (\<lambda>k. of_nat k) 2 s = Some (0, s')" "copyin pt (\<lambda>_. 7) 0xffe 2 s' = Some (0, d)"
      "\<And>k. d k = (if k < unat (2 :: u64) then of_nat k else 7)" by metis
  then show ?thesis by (intro exI [of _ s] exI [of _ pt] exI [of _ s'] exI [of _ d]) simp
qed

text \<open>
  C14: \<open>copyinstr\<close> always returns. If user memory at \<open>srcva\<close> holds a string with its NUL among the
  first \<open>max\<close> bytes it returns 0 with that string copied, NUL included, even when the bytes
  after the string are not mapped; otherwise it returns -1.
\<close>

theorem copyinstr_reads_string:
  assumes "user_inv s pt ps"
  shows "\<exists>r d. copyinstr pt dst va mx s = Some (r, d) \<and>
     (\<forall>j < unat mx. ustring (mem s) pt va j \<longrightarrow>
        r = 0 \<and> (\<forall>k \<le> j. ubyte (mem s) pt (va + of_nat k) = Some (d k))) \<and>
     ((\<forall>j < unat mx. \<not> ustring (mem s) pt va j) \<longrightarrow> r = -1)"
  using copyinstr_from_spec [OF assms, of dst 0 va mx] by (simp add: copyinstr_def)

theorem copyinstr_reads_string_witness:
  "\<exists>s pt d. copyinstr pt (\<lambda>_. 7) 0 16 (s :: kmem) = Some (0, d) \<and> d 2 = 65 \<and> d 3 = 0"
proof -
  obtain s :: kmem and pt ps where s: "user_inv s pt ps" "\<And>vb. vb < 4096 \<Longrightarrow> ubyte (mem s) pt vb = Some (if unat vb < 3 then 65 else 0)"
    using boot_mapped by blast
  have "ustring (mem s) pt 0 3"
    using s(2) by (auto simp: ustring_def word_less_nat_alt unat_of_nat)
  moreover have "ubyte (mem s) pt 2 = Some 65" "ubyte (mem s) pt 3 = Some 0" using s(2) by simp_all
  moreover from copyinstr_reads_string [OF s(1), of "\<lambda>_. 7" 0 16] \<open>ustring (mem s) pt 0 3\<close> obtain d where
      d: "copyinstr pt (\<lambda>_. 7) 0 16 s = Some (0, d)" "\<forall>k \<le> 3. ubyte (mem s) pt (0 + of_nat k) = Some (d k)"
    by (elim exE conjE) (drule spec [of _ 3], auto)
  ultimately show ?thesis using d(2) [rule_format, of 2] d(2) [rule_format, of 3] by auto
qed

text \<open>
  C16: with enough free pages \<open>uvmalloc\<close> returns \<open>newsz\<close>, and the process then sees zero bytes from
  the old size rounded up to the end of the last new page, and its old memory unchanged.
\<close>

theorem uvmalloc_grows_zeroed:
  assumes "user_inv s pt ps" and "oldsz \<le> newsz" and "unat newsz \<le> unat MAXVA"
    and "n = (unat newsz + 4095) div 4096 - (unat oldsz + 4095) div 4096" and "3 * n \<le> length ps"
    and "\<And>vb. PGROUNDUP oldsz \<le> vb \<Longrightarrow> vb < newsz \<Longrightarrow> lookup (mem s) pt vb = None"
    and "PTE_R OR PTE_U OR xperm < 1024"
  shows "\<exists>s' ps'. uvmalloc pt oldsz newsz xperm s = Some (newsz, s') \<and> user_inv s' pt ps' \<and>
    (\<forall>vb. ubyte (mem s') pt vb =
       (if page_of (PGROUNDUP oldsz) \<le> page_of vb \<and> page_of vb < page_of (PGROUNDUP oldsz) + n
        then Some 0 else ubyte (mem s) pt vb))"
proof -
  let ?a = "PGROUNDUP oldsz"
  have le: "unat oldsz \<le> unat newsz" "unat newsz \<le> 274877906944" using assms(2,3) by (auto simp: word_le_nat_alt)
  then have a: "unat ?a = 4096 * ((unat oldsz + 4095) div 4096)" by (intro unat_PGROUNDUP) simp
  have up: "4096 * ((unat newsz + 4095) div 4096) \<ge> unat newsz"
    "4096 * ((unat newsz + 4095) div 4096) < unat newsz + 4096" by linarith+
  have mono: "(unat oldsz + 4095) div 4096 \<le> (unat newsz + 4095) div 4096" using le by (simp add: div_le_mono)
  have h: "unat newsz \<le> unat ?a + 4096 * n" using a up(1) mono assms(4) by (simp add: diff_mult_distrib2)
  have h2: "unat ?a + 4096 * (n - 1) < unat newsz" if "n \<noteq> 0"
    using a up(2) mono assms(4) that by (simp add: diff_mult_distrib2) linarith
  have "lookup (mem s) pt (?a + 4096 * of_nat k) = None" if "k < n" for k
  proof (rule assms(6))
    have "k \<le> n - 1" using that by simp
    then have b: "unat ?a + 4096 * k < unat newsz" using h2 that by (metis add_left_mono le_less_trans mult_le_mono2 not_less_zero)
    then have "unat (?a + 4096 * of_nat k) = unat ?a + 4096 * k"
      using le(2) by (simp add: unat_word_ariths unat_of_nat)
    then show "?a \<le> ?a + 4096 * of_nat k" "?a + 4096 * of_nat k < newsz"
      using b by (simp_all add: word_le_nat_alt word_less_nat_alt)
  qed
  from uvmalloc_loop_spec [OF assms(1) page_aligned_PGROUNDUP le(2) h h2 assms(5) this assms(7), of ?a]
  show ?thesis using leD [OF assms(2)] by (simp add: uvmalloc_def)
qed

theorem uvmalloc_grows_zeroed_witness:
  "\<exists>s pt s'. uvmalloc pt 0 0x1800 PTE_W (s :: kmem) = Some (0x1800, s') \<and> ubyte (mem s') pt 0x1fff = Some 0"
proof -
  obtain s :: kmem and pt ps where s: "user_inv s pt ps" "length ps = 7" "\<And>va. lookup (mem s) pt va = None"
    using boot_user by blast
  have "PGROUNDUP 0 = 0" by (simp add: word_unat_eq_iff unat_PGROUNDUP)
  moreover have "PTE_R OR PTE_U OR PTE_W < 1024" by (simp add: PTE_R_def PTE_W_def PTE_U_def)
  ultimately have "\<exists>s' ps'. uvmalloc pt 0 0x1800 PTE_W s = Some (0x1800, s') \<and> user_inv s' pt ps' \<and>
    (\<forall>vb. ubyte (mem s') pt vb =
       (if page_of (PGROUNDUP 0) \<le> page_of vb \<and> page_of vb < page_of (PGROUNDUP 0) + 2
        then Some 0 else ubyte (mem s) pt vb))"
    by (intro uvmalloc_grows_zeroed [OF s(1)]) (simp_all add: s(2,3))
  then obtain s' where "uvmalloc pt 0 0x1800 PTE_W s = Some (0x1800, s')"
      "\<forall>vb. ubyte (mem s') pt vb = (if page_of vb < 2 then Some 0 else ubyte (mem s) pt vb)"
    by (auto simp: \<open>PGROUNDUP 0 = 0\<close> page_of_def)
  moreover have "page_of 0x1fff < 2" by (simp add: page_of_def)
  ultimately show ?thesis by metis
qed

end
