(* ===== verification/Vm_Frame.thy ===== *)
theory Vm_Frame
  imports Vm
begin

text \<open>
  The memory management operations change only memory and the free list of a kernel state:
  the rest of the state is the same afterwards. The relation \<open>only_mem\<close> says so for every
  operation of \<^verbatim>\<open>kalloc.c\<close> and \<^verbatim>\<open>vm.c\<close>.
\<close>

named_theorems only_mem_intros \<open>operations that change only memory\<close>

definition only_mem :: "'a kmem_scheme \<Rightarrow> 'a kmem_scheme \<Rightarrow> bool" where
  "only_mem s s' \<longleftrightarrow> k_end s' = k_end s \<and> k_etext s' = k_etext s \<and> k_trampoline s' = k_trampoline s
     \<and> kmem.more s' = kmem.more s"

lemma only_mem_refl [simp, only_mem_intros]: "only_mem s s"
  by (simp add: only_mem_def)

lemma only_mem_trans [trans]: "only_mem s s' \<Longrightarrow> only_mem s' s'' \<Longrightarrow> only_mem s s''"
  by (simp add: only_mem_def)

lemma only_mem_update [simp]:
  "only_mem s (s'\<lparr>mem := m\<rparr>) \<longleftrightarrow> only_mem s s'" "only_mem (s\<lparr>mem := m\<rparr>) s' \<longleftrightarrow> only_mem s s'"
  by (simp_all add: only_mem_def)

lemma kalloc_only_mem [only_mem_intros]: "kalloc s = (p, s') \<Longrightarrow> only_mem s s'"
  by (auto simp: kalloc_def Let_def only_mem_def split: if_splits)

lemma kfree_only_mem [only_mem_intros]: "kfree p s = Some s' \<Longrightarrow> only_mem s s'"
  by (auto simp: kfree_def only_mem_def split: if_splits)

lemma walk_loop_only_mem: "walk_loop l pt va al s = (r, s') \<Longrightarrow> only_mem s s'"
proof (induction l arbitrary: pt s)
  case (Suc l)
  let ?pte = "pt + 8 * PX (Suc l) va"
  show ?case
  proof (cases "load64 (mem s) ?pte AND PTE_V \<noteq> 0 \<or> \<not> al")
    case True
    then show ?thesis using Suc by (auto simp: Let_def split: if_splits)
  next
    case False
    obtain q s1 where k: "kalloc s = (q, s1)" by force
    show ?thesis
    proof (cases "q = 0")
      case True
      then show ?thesis using Suc.prems False k kalloc_only_mem by (auto simp: Let_def)
    next
      case q: False
      let ?s = "s1\<lparr>mem := store64 (memset (mem s1) q 0 4096) ?pte (PA2PTE q OR PTE_V)\<rparr>"
      have "walk_loop l q va al ?s = (r, s')" using Suc.prems False k q by (simp add: Let_def)
      then have "only_mem ?s s'" by (rule Suc.IH)
      moreover have "only_mem s ?s" using kalloc_only_mem [OF k] by simp
      ultimately show ?thesis by (rule only_mem_trans [rotated])
    qed
  qed
qed simp

lemma walk_only_mem [only_mem_intros]: "walk pt va al s = Some (r, s') \<Longrightarrow> only_mem s s'"
  by (auto simp: walk_def split: if_splits dest: walk_loop_only_mem)

lemma walk_find_state: "walk_loop l pt va False s = (r, s') \<Longrightarrow> s' = s"
  by (induction l arbitrary: pt) (auto simp: Let_def split: if_splits)

lemma mappages_loop_only_mem: "mappages_loop pt a b pa perm s = Some y \<Longrightarrow> only_mem s (snd y)"
proof (erule mappages_loop.raw_induct [where P = "\<lambda>pt a b pa perm s y. only_mem s (snd y)", rotated])
  fix f :: "u64 \<Rightarrow> u64 \<Rightarrow> u64 \<Rightarrow> u64 \<Rightarrow> u64 \<Rightarrow> 'a kmem_scheme \<Rightarrow> (int \<times> 'a kmem_scheme) option"
  fix pt a b pa perm s y
  assume IH: "\<And>pt a b pa perm s y. f pt a b pa perm s = Some y \<Longrightarrow> only_mem s (snd y)"
  assume "do { (pte, s) \<leftarrow> walk pt a True s;
       if pte = 0 then Some (-1, s)
       else if load64 (mem s) pte AND PTE_V \<noteq> 0 then None
       else let s = s\<lparr>mem := store64 (mem s) pte (PA2PTE pa OR perm OR PTE_V)\<rparr> in
         if a = b then Some (0, s) else f pt (a + PGSIZE) b (pa + PGSIZE) perm s } = Some y"
  then obtain pte s1 where w: "walk pt a True s = Some (pte, s1)"
      and r: "y = (-1, s1) \<or> (\<exists>m. y = (0, s1\<lparr>mem := m\<rparr>) \<or> f pt (a + PGSIZE) b (pa + PGSIZE) perm (s1\<lparr>mem := m\<rparr>) = Some y)"
    by (auto simp: Option.bind_eq_Some_conv Let_def split: if_splits)
  from r have "only_mem s1 (snd y)" using IH by fastforce
  with walk_only_mem [OF w] show "only_mem s (snd y)" by (rule only_mem_trans)
qed

lemma mappages_only_mem [only_mem_intros]: "mappages pt va n pa perm s = Some (r, s') \<Longrightarrow> only_mem s s'"
  using mappages_loop_only_mem by (fastforce simp: mappages_def split: if_splits)

lemma uvmunmap_loop_only_mem: "uvmunmap_loop pt a b fr s = Some y \<Longrightarrow> only_mem s y"
proof (erule uvmunmap_loop.raw_induct [where P = "\<lambda>pt a b fr s y. only_mem s y", rotated])
  fix f :: "u64 \<Rightarrow> u64 \<Rightarrow> u64 \<Rightarrow> bool \<Rightarrow> 'a kmem_scheme \<Rightarrow> 'a kmem_scheme option"
  fix pt a b fr s y
  assume IH: "\<And>pt a b fr s y. f pt a b fr s = Some y \<Longrightarrow> only_mem s y"
  assume e: "(if a < b then do { (pte, s) \<leftarrow> walk pt a False s;
        if pte = 0 then None
        else if load64 (mem s) pte AND PTE_V = 0 then None
        else if PTE_FLAGS (load64 (mem s) pte) = PTE_V then None
        else do { s \<leftarrow> (if fr then kfree (PTE2PA (load64 (mem s) pte)) s else Some s);
          f pt (a + PGSIZE) b fr (s\<lparr>mem := store64 (mem s) pte 0\<rparr>) } } else Some s) = Some y"
  show "only_mem s y"
  proof (cases "a < b")
    case True
    with e obtain pte s1 s2 m where w: "walk pt a False s = Some (pte, s1)" "(\<exists>p. kfree p s1 = Some s2) \<or> s2 = s1"
        "f pt (a + PGSIZE) b fr (s2\<lparr>mem := m\<rparr>) = Some y"
      by (auto simp: Option.bind_eq_Some_conv split: if_splits) metis
    have "only_mem s1 s2" using w(2) kfree_only_mem by auto
    moreover have "only_mem s2 y" using IH [OF w(3)] by simp
    ultimately show ?thesis using walk_only_mem [OF w(1)] only_mem_trans by blast
  qed (use e in auto)
qed

lemma uvmunmap_only_mem [only_mem_intros]: "uvmunmap pt va n fr s = Some s' \<Longrightarrow> only_mem s s'"
  using uvmunmap_loop_only_mem by (fastforce simp: uvmunmap_def split: if_splits)

lemma freewalk_from_only_mem: "freewalk_from pt i s = Some y \<Longrightarrow> only_mem s y"
proof (erule freewalk_from.raw_induct [where P = "\<lambda>pt i s y. only_mem s y", rotated])
  fix f :: "u64 \<Rightarrow> nat \<Rightarrow> 'a kmem_scheme \<Rightarrow> 'a kmem_scheme option"
  fix pt i s y
  assume IH: "\<And>pt i s y. f pt i s = Some y \<Longrightarrow> only_mem s y"
  assume e: "(if i < 512
      then let pte = load64 (mem s) (pt + 8 * of_nat i) in
        if pte AND PTE_V \<noteq> 0 \<and> pte AND (PTE_R OR PTE_W OR PTE_X) = 0
        then do { s \<leftarrow> f (PTE2PA pte) 0 s; f pt (Suc i) (s\<lparr>mem := store64 (mem s) (pt + 8 * of_nat i) 0\<rparr>) }
        else if pte AND PTE_V \<noteq> 0 then None else f pt (Suc i) s
      else kfree pt s) = Some y"
  then consider "kfree pt s = Some y" | "f pt (Suc i) s = Some y"
    | p s1 m where "f p 0 s = Some s1" "f pt (Suc i) (s1\<lparr>mem := m\<rparr>) = Some y"
    by (auto simp: Option.bind_eq_Some_conv Let_def split: if_splits)
  then show "only_mem s y"
  proof cases
    case 3
    with IH [OF 3(1)] IH [OF 3(2)] show ?thesis by (auto intro: only_mem_trans)
  qed (use IH kfree_only_mem in auto)
qed

lemma uvmfree_only_mem [only_mem_intros]: "uvmfree pt n s = Some s' \<Longrightarrow> only_mem s s'"
  by (auto simp: uvmfree_def freewalk_def Option.bind_eq_Some_conv split: if_splits
      dest!: uvmunmap_only_mem freewalk_from_only_mem intro: only_mem_trans)

lemma uvmcreate_only_mem [only_mem_intros]: "uvmcreate s = (p, s') \<Longrightarrow> only_mem s s'"
  by (auto simp: uvmcreate_def Let_def split: if_splits prod.splits dest: kalloc_only_mem)

lemma copyout_only_mem [only_mem_intros]: "copyout pt va src n s = Some (r, s') \<Longrightarrow> only_mem s s'"
proof (induction pt va src n s rule: copyout.induct)
  case (1 pt va src n s)
  show ?case
  proof (cases "n > 0")
    case True
    with 1(2) obtain pa where w: "walkaddr pt (PGROUNDDOWN va) s = Some pa"
      by (subst (asm) copyout.simps) (auto simp: Let_def Option.bind_eq_Some_conv)
    let ?s = "s\<lparr>mem := mem_write (mem s) (pa + (va - PGROUNDDOWN va)) src (unat (chunk va n))\<rparr>"
    show ?thesis
    proof (cases "pa = 0")
      case False
      have "copyout pt (PGROUNDDOWN va + PGSIZE) (\<lambda>k. src (k + unat (chunk va n))) (n - chunk va n) ?s = Some (r, s')"
        using 1(2) True w False by (subst (asm) copyout.simps) (simp add: Let_def)
      from 1(1) [OF True refl w False refl refl this] show ?thesis by simp
    qed (use 1(2) True w in \<open>subst (asm) copyout.simps, simp add: Let_def\<close>)
  qed (use 1(2) in \<open>subst (asm) copyout.simps, simp\<close>)
qed

end
