(* ===== verification/Proc.thy ===== *)
theory Proc
  imports Vm_User Vm_Frame Spinlock
begin

text \<open>
  The process table, \<^verbatim>\<open>kernel/proc.c\<close> and \<^verbatim>\<open>kernel/proc.h\<close>: allocation and release of processes,
  memory growth, sleep and wakeup, the scheduler's choice, wait and kill. A pointer into the
  table is an index; sleep channels are the addresses the code passes, one constructor per
  kind of object. Sections under \<open>p->lock\<close> or \<open>wait_lock\<close> are single steps; the parts of
  \<open>sleep\<close> and \<open>sched\<close> before and after the context switch are separate functions. \<open>fork\<close> and
  \<open>exit\<close> also need the file layers and are in a later theory.
\<close>

section \<open>Processes\<close>

datatype procstate = UNUSED | USED | SLEEPING | RUNNABLE | RUNNING | ZOMBIE

datatype chan =
    Ch_proc nat
  | Ch_ticks
  | Ch_cons
  | Ch_uart
  | Ch_log
  | Ch_buf nat
  | Ch_vbuf nat
  | Ch_inode nat
  | Ch_nread u64
  | Ch_nwrite u64
  | Ch_desc

record proc =
  state :: procstate
  chan :: "chan option"
  killed :: int
  xstate :: u32
  pid :: int
  parent :: "nat option"
  kstack :: u64
  sz :: u64
  pagetable :: u64
  trapframe :: u64
  context_of :: kcontext
  ofile :: "nat \<Rightarrow> nat option"
  cwd :: "nat option"
  name :: bytes

record ptab = vm +
  procs :: "nat \<Rightarrow> proc"
  cpu_tab :: "nat \<Rightarrow> cpu"
  hart :: nat
  nextpid :: int
  initproc :: "nat option"
  kobj :: bytes

text \<open>Offsets of the fields of \<open>struct trapframe\<close> that C code accesses, and its size.\<close>

definition tf_kernel_satp :: u64 where "tf_kernel_satp = 0"
definition tf_kernel_sp :: u64 where "tf_kernel_sp = 8"
definition tf_kernel_trap :: u64 where "tf_kernel_trap = 16"
definition tf_epc :: u64 where "tf_epc = 24"
definition tf_kernel_hartid :: u64 where "tf_kernel_hartid = 32"
definition tf_sp :: u64 where "tf_sp = 48"
definition tf_a :: "nat \<Rightarrow> u64" where "tf_a n = 112 + 8 * of_nat n"
definition tf_size :: nat where "tf_size = 288"

abbreviation upd_proc :: "nat \<Rightarrow> (proc \<Rightarrow> proc) \<Rightarrow> 'a ptab_scheme \<Rightarrow> 'a ptab_scheme" where
  "upd_proc p f s \<equiv> s\<lparr>procs := (procs s)(p := f (procs s p))\<rparr>"

definition mycpu :: "'a ptab_scheme \<Rightarrow> cpu" where
  "mycpu s = cpu_tab s (hart s)"

definition myproc :: "'a ptab_scheme \<Rightarrow> nat option" where
  "myproc s = cproc (mycpu s)"

definition procinit :: "'a ptab_scheme \<Rightarrow> 'a ptab_scheme" where
  "procinit s = s\<lparr>procs := (\<lambda>p. if p < NPROC then (procs s p)\<lparr>state := UNUSED, kstack := KSTACK p\<rparr> else procs s p)\<rparr>"

definition allocpid :: "'a ptab_scheme \<Rightarrow> int \<times> 'a ptab_scheme" where
  "allocpid s = (nextpid s, s\<lparr>nextpid := c_int (nextpid s + 1)\<rparr>)"

section \<open>Page tables of processes\<close>

definition proc_pagetable :: "nat \<Rightarrow> 'a ptab_scheme \<Rightarrow> (u64 \<times> 'a ptab_scheme) option" where
  "proc_pagetable p s =
     (let (pt, s) = uvmcreate s in
      if pt = 0 then Some (0, s)
      else do {
        (r, s) \<leftarrow> mappages pt TRAMPOLINE PGSIZE (k_trampoline s) (PTE_R OR PTE_X) s;
        if r < 0 then do { s \<leftarrow> uvmfree pt 0 s; Some (0, s) }
        else do {
          (r, s) \<leftarrow> mappages pt TRAPFRAME PGSIZE (trapframe (procs s p)) (PTE_R OR PTE_W) s;
          if r < 0 then do {
            s \<leftarrow> uvmunmap pt TRAMPOLINE 1 False s;
            s \<leftarrow> uvmfree pt 0 s;
            Some (0, s)
          }
          else Some (pt, s)
        }
      })"

definition proc_freepagetable :: "u64 \<Rightarrow> u64 \<Rightarrow> 'a ptab_scheme \<Rightarrow> 'a ptab_scheme option" where
  "proc_freepagetable pt psz s =
     do {
       s \<leftarrow> uvmunmap pt TRAMPOLINE 1 False s;
       s \<leftarrow> uvmunmap pt TRAPFRAME 1 False s;
       uvmfree pt psz s
     }"

section \<open>Allocating and freeing processes\<close>

definition freeproc :: "nat \<Rightarrow> 'a ptab_scheme \<Rightarrow> 'a ptab_scheme option" where
  "freeproc p s =
     do {
       s \<leftarrow> (if trapframe (procs s p) \<noteq> 0 then kfree (trapframe (procs s p)) s else Some s);
       s \<leftarrow> Some (upd_proc p (\<lambda>q. q\<lparr>trapframe := 0\<rparr>) s);
       s \<leftarrow> (if pagetable (procs s p) \<noteq> 0
            then proc_freepagetable (pagetable (procs s p)) (sz (procs s p)) s else Some s);
       Some (upd_proc p (\<lambda>q. q\<lparr>pagetable := 0, sz := 0, pid := 0, parent := None,
         name := (name q)(0 := 0), chan := None, killed := 0, xstate := 0, state := UNUSED\<rparr>) s)
     }"

text \<open>The first \<open>UNUSED\<close> slot from \<open>p\<close> on.\<close>

definition find_unused :: "'a ptab_scheme \<Rightarrow> nat option" where
  "find_unused s = find (\<lambda>p. state (procs s p) = UNUSED) [0..<NPROC]"

text \<open>\<open>forkret\<close> is the address of that function, where a new process starts.\<close>

definition allocproc :: "u64 \<Rightarrow> 'a ptab_scheme \<Rightarrow> (nat option \<times> 'a ptab_scheme) option" where
  "allocproc forkret s =
     (case find_unused s of
        None \<Rightarrow> Some (None, s)
      | Some p \<Rightarrow>
          let (n, s) = allocpid s;
              s = upd_proc p (\<lambda>q. q\<lparr>pid := n, state := USED\<rparr>) s;
              (tf, s) = kalloc s;
              s = upd_proc p (\<lambda>q. q\<lparr>trapframe := tf\<rparr>) s
          in if tf = 0 then do { s \<leftarrow> freeproc p s; Some (None, s) }
             else do {
               (pt, s) \<leftarrow> proc_pagetable p s;
               s \<leftarrow> Some (upd_proc p (\<lambda>q. q\<lparr>pagetable := pt\<rparr>) s);
               if pt = 0 then do { s \<leftarrow> freeproc p s; Some (None, s) }
               else Some (Some p, upd_proc p (\<lambda>q. q\<lparr>context_of :=
                 \<lparr>c_ra = forkret, c_sp = kstack q + PGSIZE, c_s = (\<lambda>_. 0)\<rparr>\<rparr>) s)
             })"

definition initcode :: "u8 list" where
  "initcode =
     [0x17, 0x05, 0x00, 0x00, 0x13, 0x05, 0x45, 0x02,
      0x97, 0x05, 0x00, 0x00, 0x93, 0x85, 0x35, 0x02,
      0x93, 0x08, 0x70, 0x00, 0x73, 0x00, 0x00, 0x00,
      0x93, 0x08, 0x20, 0x00, 0x73, 0x00, 0x00, 0x00,
      0xef, 0xf0, 0x9f, 0xff, 0x2f, 0x69, 0x6e, 0x69,
      0x74, 0x00, 0x00, 0x24, 0x00, 0x00, 0x00, 0x00,
      0x00, 0x00, 0x00, 0x00]"

text \<open>A string literal as a C array.\<close>

definition cstring :: "string \<Rightarrow> bytes" where
  "cstring xs = (\<lambda>i. if i < length xs then of_char (xs ! i) else 0)"

text \<open>\<open>namei\<close> is the path lookup of the file system.\<close>

definition userinit ::
  "u64 \<Rightarrow> (bytes \<Rightarrow> 'a ptab_scheme \<Rightarrow> (nat option \<times> 'a ptab_scheme) option) \<Rightarrow> 'a ptab_scheme \<Rightarrow> 'a ptab_scheme option" where
  "userinit forkret namei s =
     do {
       (np, s) \<leftarrow> allocproc forkret s;
       p \<leftarrow> np;
       s \<leftarrow> Some (s\<lparr>initproc := Some p\<rparr>);
       s \<leftarrow> uvmfirst (pagetable (procs s p)) (\<lambda>i. initcode ! i) (of_nat (length initcode)) s;
       s \<leftarrow> Some (upd_proc p (\<lambda>q. q\<lparr>sz := PGSIZE\<rparr>) s);
       let tf = trapframe (procs s p);
           s = s\<lparr>mem := store64 (mem s) (tf + tf_epc) 0\<rparr>;
           s = s\<lparr>mem := store64 (mem s) (tf + tf_sp) PGSIZE\<rparr>;
           s = upd_proc p (\<lambda>q. q\<lparr>name := safestrcpy (name q) (cstring ''initcode'') 16\<rparr>) s
       in do {
         (ip, s) \<leftarrow> namei (cstring ''/'') s;
         Some (upd_proc p (\<lambda>q. q\<lparr>cwd := ip, state := RUNNABLE\<rparr>) s)
       }
     }"

definition growproc :: "int \<Rightarrow> 'a ptab_scheme \<Rightarrow> (int \<times> 'a ptab_scheme) option" where
  "growproc n s =
     do {
       p \<leftarrow> myproc s;
       let psz = sz (procs s p) in
       if n > 0 then do {
         (psz, s) \<leftarrow> uvmalloc (pagetable (procs s p)) psz (psz + of_int n) PTE_W s;
         if psz = 0 then Some (-1, s) else Some (0, upd_proc p (\<lambda>q. q\<lparr>sz := psz\<rparr>) s)
       }
       else if n < 0 then do {
         (psz, s) \<leftarrow> uvmdealloc (pagetable (procs s p)) psz (psz + of_int n) s;
         Some (0, upd_proc p (\<lambda>q. q\<lparr>sz := psz\<rparr>) s)
       }
       else Some (0, upd_proc p (\<lambda>q. q\<lparr>sz := psz\<rparr>) s)
     }"

section \<open>Sleeping and waking\<close>

text \<open>\<open>wakeup\<close> over the table; the process that calls it is skipped.\<close>

definition wake_one :: "chan \<Rightarrow> proc \<Rightarrow> proc" where
  "wake_one c q = (if state q = SLEEPING \<and> chan q = Some c then q\<lparr>state := RUNNABLE\<rparr> else q)"

definition wakeup :: "chan \<Rightarrow> 'a ptab_scheme \<Rightarrow> 'a ptab_scheme" where
  "wakeup c s =
     fold (\<lambda>p s. if Some p \<noteq> myproc s then upd_proc p (wake_one c) s else s) [0..<NPROC] s"

text \<open>\<open>sleep\<close> up to and after the switch to the scheduler.\<close>

definition sleep_enter :: "nat \<Rightarrow> chan \<Rightarrow> 'a ptab_scheme \<Rightarrow> 'a ptab_scheme" where
  "sleep_enter p c s = upd_proc p (\<lambda>q. q\<lparr>chan := Some c, state := SLEEPING\<rparr>) s"

definition sleep_leave :: "nat \<Rightarrow> 'a ptab_scheme \<Rightarrow> 'a ptab_scheme" where
  "sleep_leave p s = upd_proc p (\<lambda>q. q\<lparr>chan := None\<rparr>) s"

definition setkilled :: "nat \<Rightarrow> 'a ptab_scheme \<Rightarrow> 'a ptab_scheme" where
  "setkilled p s = upd_proc p (\<lambda>q. q\<lparr>killed := 1\<rparr>) s"

definition is_killed :: "nat \<Rightarrow> 'a ptab_scheme \<Rightarrow> bool" where
  "is_killed p s \<longleftrightarrow> killed (procs s p) \<noteq> 0"

fun kill_from :: "nat list \<Rightarrow> int \<Rightarrow> 'a ptab_scheme \<Rightarrow> int \<times> 'a ptab_scheme" where
  "kill_from [] n s = (-1, s)"
| "kill_from (p # ps) n s =
     (if pid (procs s p) = n
      then let s = upd_proc p (\<lambda>q. q\<lparr>killed := 1\<rparr>) s;
               s = (if state (procs s p) = SLEEPING then upd_proc p (\<lambda>q. q\<lparr>state := RUNNABLE\<rparr>) s else s)
           in (0, s)
      else kill_from ps n s)"

definition kill :: "int \<Rightarrow> 'a ptab_scheme \<Rightarrow> int \<times> 'a ptab_scheme" where
  "kill n s = kill_from [0..<NPROC] n s"

section \<open>Scheduling\<close>

text \<open>The checks of \<open>sched\<close>, for the process \<open>q\<close> with lock \<open>lk\<close> on CPU number \<open>c\<close>.\<close>

definition sched_ok :: "spinlock \<Rightarrow> nat \<Rightarrow> cpu \<Rightarrow> proc \<Rightarrow> bool" where
  "sched_ok lk c cp q \<longleftrightarrow> holding lk c \<and> noff cp = 1 \<and> state q \<noteq> RUNNING \<and> \<not> sie cp"

text \<open>One visit of \<open>scheduler\<close> to slot \<open>p\<close>, up to the switch, and its return from it.\<close>

definition scheduler_run :: "nat \<Rightarrow> 'a ptab_scheme \<Rightarrow> 'a ptab_scheme" where
  "scheduler_run p s =
     (if state (procs s p) = RUNNABLE
      then (upd_proc p (\<lambda>q. q\<lparr>state := RUNNING\<rparr>) s)
        \<lparr>cpu_tab := (cpu_tab s)(hart s := (mycpu s)\<lparr>cproc := Some p\<rparr>)\<rparr>
      else s)"

definition scheduler_back :: "'a ptab_scheme \<Rightarrow> 'a ptab_scheme" where
  "scheduler_back s = s\<lparr>cpu_tab := (cpu_tab s)(hart s := (mycpu s)\<lparr>cproc := None\<rparr>)\<rparr>"

definition yield :: "nat \<Rightarrow> 'a ptab_scheme \<Rightarrow> 'a ptab_scheme" where
  "yield p s = upd_proc p (\<lambda>q. q\<lparr>state := RUNNABLE\<rparr>) s"

section \<open>Children\<close>

definition reparent :: "nat \<Rightarrow> 'a ptab_scheme \<Rightarrow> 'a ptab_scheme option" where
  "reparent p s =
     do {
       ip \<leftarrow> initproc s;
       Some (fold (\<lambda>pp s. if parent (procs s pp) = Some p
           then wakeup (Ch_proc ip) (upd_proc pp (\<lambda>q. q\<lparr>parent := Some ip\<rparr>) s) else s) [0..<NPROC] s)
     }"

text \<open>A call that may put its process to sleep either returns or stops at a channel.\<close>

datatype 'r outcome = Done 'r | Sleep chan

text \<open>One scan of the table by \<open>wait\<close>: the result of the call, or whether there are children.\<close>

fun wait_scan :: "nat list \<Rightarrow> nat \<Rightarrow> u64 \<Rightarrow> bool \<Rightarrow> 'a ptab_scheme \<Rightarrow> ((int + bool) \<times> 'a ptab_scheme) option" where
  "wait_scan [] p addr havekids s = Some (Inr havekids, s)"
| "wait_scan (pp # ps) p addr havekids s =
     (if parent (procs s pp) = Some p
      then if state (procs s pp) = ZOMBIE
        then let n = pid (procs s pp) in
          if addr \<noteq> 0
          then do {
            (r, s) \<leftarrow> copyout (pagetable (procs s p)) addr (\<lambda>k. byte_of k (xstate (procs s pp))) 4 s;
            if r < 0 then Some (Inl (-1), s)
            else do { s \<leftarrow> freeproc pp s; Some (Inl n, s) }
          }
          else do { s \<leftarrow> freeproc pp s; Some (Inl n, s) }
        else wait_scan ps p addr True s
      else wait_scan ps p addr havekids s)"

text \<open>\<open>wait\<close> from the head of its loop to its return or its sleep.\<close>

definition wait :: "u64 \<Rightarrow> 'a ptab_scheme \<Rightarrow> (int outcome \<times> 'a ptab_scheme) option" where
  "wait addr s =
     do {
       p \<leftarrow> myproc s;
       (r, s) \<leftarrow> wait_scan [0..<NPROC] p addr False s;
       case r of
         Inl n \<Rightarrow> Some (Done n, s)
       | Inr havekids \<Rightarrow>
           if \<not> havekids \<or> is_killed p s then Some (Done (-1), s)
           else Some (Sleep (Ch_proc p), sleep_enter p (Ch_proc p) s)
     }"

section \<open>Copying for drivers and files\<close>

text \<open>
  The address given to \<open>either_copyout\<close> or \<open>either_copyin\<close>: a user address, physical memory, or an
  offset in the object on the kernel stack that the caller passes (\<open>kobj\<close>). \<open>user_dst\<close> and
  \<open>user_src\<close> of the code are the first constructor.
\<close>

datatype dest = User u64 | Kmem u64 | Kobj nat

fun dest_add :: "dest \<Rightarrow> u32 \<Rightarrow> dest" where
  "dest_add (User a) n = User (a + ucast n)"
| "dest_add (Kmem a) n = Kmem (a + ucast n)"
| "dest_add (Kobj i) n = Kobj (i + unat n)"

definition either_copyout :: "dest \<Rightarrow> bytes \<Rightarrow> u64 \<Rightarrow> 'a ptab_scheme \<Rightarrow> (int \<times> 'a ptab_scheme) option" where
  "either_copyout dst src len s =
     (case dst of
        User va \<Rightarrow> do { p \<leftarrow> myproc s; copyout (pagetable (procs s p)) va src len s }
      | Kmem a \<Rightarrow> Some (0, s\<lparr>mem := mem_write (mem s) a src (unat (ucast len :: u32))\<rparr>)
      | Kobj i \<Rightarrow> Some (0, s\<lparr>kobj := (\<lambda>k. if i \<le> k \<and> k < i + unat (ucast len :: u32) then src (k - i) else kobj s k)\<rparr>))"

definition either_copyin :: "bytes \<Rightarrow> dest \<Rightarrow> u64 \<Rightarrow> 'a ptab_scheme \<Rightarrow> (int \<times> bytes) option" where
  "either_copyin dst src len s =
     (case src of
        User va \<Rightarrow> do { p \<leftarrow> myproc s; copyin (pagetable (procs s p)) dst va len s }
      | Kmem a \<Rightarrow> Some (0, mem_fetch (mem s) dst 0 a (unat (ucast len :: u32)))
      | Kobj i \<Rightarrow> Some (0, (\<lambda>k. if k < unat (ucast len :: u32) then kobj s (i + k) else dst k)))"

section \<open>Lemmas\<close>

declare NPROC_def [simp del]

lemma only_mem_ptab:
  fixes s s' :: "'a ptab_scheme"
  assumes "only_mem s s'"
  shows "procs s' = procs s" "cpu_tab s' = cpu_tab s" "hart s' = hart s" "nextpid s' = nextpid s"
    "initproc s' = initproc s" "kobj s' = kobj s" "myproc s' = myproc s"
  using assms by (cases s; cases s'; simp add: only_mem_def myproc_def mycpu_def)+

lemma myproc_upd [simp]: "myproc (upd_proc p f s) = myproc s"
  by (simp add: myproc_def mycpu_def)

lemma fold_wake:
  "distinct ps \<Longrightarrow>
   fold (\<lambda>p s. if Some p \<noteq> myproc s then upd_proc p (wake_one c) s else s) ps s =
   s\<lparr>procs := (\<lambda>p. if p \<in> set ps \<and> Some p \<noteq> myproc s then wake_one c (procs s p) else procs s p)\<rparr>"
proof (induction ps arbitrary: s)
  case (Cons p ps)
  then show ?case by (cases "Some p = myproc s") (auto simp: fun_eq_iff intro!: arg_cong [where f = "\<lambda>x. s\<lparr>procs := x\<rparr>"])
qed simp

lemma wakeup_eq:
  "wakeup c s = s\<lparr>procs := (\<lambda>p. if p < NPROC \<and> Some p \<noteq> myproc s then wake_one c (procs s p) else procs s p)\<rparr>"
  unfolding wakeup_def by (subst fold_wake) simp_all


lemma kill_find:
  "kill n s = (case find (\<lambda>p. pid (procs s p) = n) [0..<NPROC] of
     None \<Rightarrow> (-1, s)
   | Some p \<Rightarrow> (0, upd_proc p (\<lambda>q. q\<lparr>killed := 1, state := (if state q = SLEEPING then RUNNABLE else state q)\<rparr>) s))"
proof -
  have "kill_from ps n s = (case find (\<lambda>p. pid (procs s p) = n) ps of
     None \<Rightarrow> (-1, s)
   | Some p \<Rightarrow> (0, upd_proc p (\<lambda>q. q\<lparr>killed := 1, state := (if state q = SLEEPING then RUNNABLE else state q)\<rparr>) s))" for ps
  proof (induction ps)
    case (Cons p ps)
    show ?case
    proof (cases "pid (procs s p) = n")
      case True
      have "(procs s p)\<lparr>killed := 1\<rparr> = (procs s p)\<lparr>killed := 1, state := state (procs s p)\<rparr>" by simp
      then show ?thesis using True by (auto simp: Let_def)
    qed (use Cons in simp)
  qed simp
  then show ?thesis by (simp add: kill_def)
qed

lemma find_upt: "find P [0..<n] = Some p \<longleftrightarrow> p < n \<and> P p \<and> (\<forall>q < p. \<not> P q)"
proof -
  have "find P [0..<n] = Some p \<longleftrightarrow> (\<exists>i < n. P i \<and> p = i \<and> (\<forall>j < i. \<not> P j))"
    by (auto simp: find_Some_iff)
  then show ?thesis by auto
qed

lemma find_upt_None: "find P [0..<n] = None \<longleftrightarrow> (\<forall>p < n. \<not> P p)"
  by (auto simp: find_None_iff)

lemma wait_scan_spec:
  "wait_scan ps p addr hk s = Some (Inr h, s') \<longleftrightarrow>
     (\<forall>pp \<in> set ps. parent (procs s pp) = Some p \<longrightarrow> state (procs s pp) \<noteq> ZOMBIE) \<and> s' = s \<and>
     h = (hk \<or> (\<exists>pp \<in> set ps. parent (procs s pp) = Some p))"
proof (induction ps arbitrary: hk)
  case (Cons pp ps)
  show ?case
  proof (cases "parent (procs s pp) = Some p \<and> state (procs s pp) = ZOMBIE")
    case True
    have "wait_scan (pp # ps) p addr hk s \<noteq> Some (Inr h, s')"
      using True by (auto simp: Let_def Option.bind_eq_Some_conv split: if_splits)
    then show ?thesis using True by auto
  next
    case False
    then show ?thesis using Cons by (cases "parent (procs s pp) = Some p") auto
  qed
qed auto

section \<open>A new process\<close>

lemma PA2PTE_no_flags: "n < 10 \<Longrightarrow> \<not> bit (PA2PTE pa) n"
  by (simp add: PA2PTE_def bit_simps)

lemma user_bit: "x AND PTE_U = 0 \<longleftrightarrow> \<not> bit x 4"
proof -
  have u: "PTE_U = 2 ^ 4" by (simp add: PTE_U_def)
  show ?thesis unfolding u by (rule and_exp_eq_0_iff_not_bit)
qed

lemma no_user_perm:
  "(PA2PTE pa OR (PTE_R OR PTE_X) OR PTE_V) AND PTE_U = 0" "(PA2PTE pa OR (PTE_R OR PTE_W) OR PTE_V) AND PTE_U = 0"
  by (simp_all add: user_bit bit_or_iff PA2PTE_no_flags) (simp_all add: PTE_R_def PTE_X_def PTE_W_def PTE_V_def bit_simps)

lemma user_inv_same:
  "mem s' = mem s \<Longrightarrow> k_end s' = k_end s \<Longrightarrow> freelist s' = freelist s \<Longrightarrow> user_inv s' pt ps = user_inv s pt ps"
  by (simp only: user_inv_def vm_inv_def kmem_pool_def kpage_def)

lemma user_inv_no_user:
  assumes "vm_inv s pt ps" "\<And>va e. va < MAXVA \<Longrightarrow> lookup (mem s) pt va = Some e \<Longrightarrow> e AND PTE_U = 0"
  shows "user_inv s pt ps"
  unfolding user_inv_def using assms by blast

text \<open>A process page table maps the trampoline and the trapframe, for the kernel only.\<close>

definition proc_map :: "u64 \<Rightarrow> u64 \<Rightarrow> u64 \<Rightarrow> u64 option" where
  "proc_map tr tf vb =
     (if page_of vb = page_of TRAMPOLINE then Some (PA2PTE tr OR (PTE_R OR PTE_X) OR PTE_V)
      else if page_of vb = page_of TRAPFRAME then Some (PA2PTE tf OR (PTE_R OR PTE_W) OR PTE_V)
      else None)"

lemma proc_pagetable_spec:
  fixes s :: "'a ptab_scheme"
  assumes pool: "kmem_pool s (q # ps)" and ps: "4 \<le> length ps"
  shows "\<exists>s' ps'. proc_pagetable p s = Some (q, s') \<and> only_mem s s' \<and> user_inv s' q ps' \<and>
    (\<forall>vb < MAXVA. lookup (mem s') q vb = proc_map (k_trampoline s) (trapframe (procs s p)) vb)"
proof -
  note c = uvmcreate_empty [OF pool]
  have q0: "q \<noteq> 0" using pool by (auto simp: kmem_pool_def)
  have al: "page_aligned TRAMPOLINE" "TRAMPOLINE < MAXVA" "page_aligned TRAPFRAME" "TRAPFRAME < MAXVA"
    by (simp_all add: page_aligned_unat)
  have om: "only_mem s (zalloc q s)" using uvmcreate_only_mem [OF c(1)] .
  obtain s1 ps1 where m1: "mappages q TRAMPOLINE PGSIZE (k_trampoline s) (PTE_R OR PTE_X) (zalloc q s) = Some (0, s1)"
      "vm_inv s1 q ps1" "length ps \<le> length ps1 + 2"
      "\<forall>vb < MAXVA. lookup (mem s1) q vb = (if page_of vb = page_of TRAMPOLINE
         then Some (PA2PTE (k_trampoline s) OR (PTE_R OR PTE_X) OR PTE_V) else lookup (mem (zalloc q s)) q vb)"
    using mappages_one [OF user_inv_vm [OF c(2)] al(1,2) c(3), of "k_trampoline s" "PTE_R OR PTE_X"] ps by fastforce
  have om1: "only_mem s s1" using only_mem_trans [OF om mappages_only_mem [OF m1(1)]] .
  have ne: "page_of TRAPFRAME \<noteq> page_of TRAMPOLINE" by (simp add: page_of_def)
  have n1: "lookup (mem s1) q TRAPFRAME = None" using m1(4) al(4) ne c(3) by simp
  let ?tf = "trapframe (procs s1 p)"
  obtain s2 ps2 where m2: "mappages q TRAPFRAME PGSIZE ?tf (PTE_R OR PTE_W) s1 = Some (0, s2)"
      "vm_inv s2 q ps2"
      "\<forall>vb < MAXVA. lookup (mem s2) q vb = (if page_of vb = page_of TRAPFRAME
         then Some (PA2PTE ?tf OR (PTE_R OR PTE_W) OR PTE_V) else lookup (mem s1) q vb)"
    using mappages_one [OF m1(2) al(3,4) n1, of ?tf "PTE_R OR PTE_W"] ps m1(3) by fastforce
  have lk: "\<forall>vb < MAXVA. lookup (mem s2) q vb = proc_map (k_trampoline s) (trapframe (procs s p)) vb"
    using m1(4) m2(3) c(3) ne only_mem_ptab(1) [OF om1] by (simp add: proc_map_def)
  have "user_inv s2 q ps2"
    by (rule user_inv_no_user [OF m2(2)]) (use lk in \<open>auto simp: proc_map_def no_user_perm split: if_splits\<close>)
  moreover have "proc_pagetable p s = Some (q, s2)"
    using q0 m1(1) m2(1) only_mem_def [of s "zalloc q s"] om by (simp add: proc_pagetable_def c(1) only_mem_def)
  ultimately show ?thesis
    using lk only_mem_trans [OF om1 mappages_only_mem [OF m2(1)]] by blast
qed


lemma allocproc_spec:
  fixes s :: "'a ptab_scheme"
  assumes pool: "kmem_pool s ps" and ps: "6 \<le> length ps" and p: "find_unused s = Some p"
  shows "\<exists>s' ps' pt. allocproc forkret s = Some (Some p, s') \<and> nextpid s' = c_int (nextpid s + 1) \<and>
    (\<forall>q. q \<noteq> p \<longrightarrow> procs s' q = procs s q) \<and>
    procs s' p = (procs s p)\<lparr>pid := nextpid s, state := USED, trapframe := hd ps, pagetable := pt,
      context_of := \<lparr>c_ra = forkret, c_sp = kstack (procs s p) + PGSIZE, c_s = (\<lambda>_. 0)\<rparr>\<rparr> \<and>
    hd ps \<noteq> 0 \<and> pt \<noteq> 0 \<and> user_inv s' pt ps' \<and>
    (\<forall>vb < MAXVA. lookup (mem s') pt vb = proc_map (k_trampoline s) (hd ps) vb)"
proof -
  obtain tf q qs where pq: "ps = tf # q # qs" "4 \<le> length qs"
    using ps by (cases ps; cases "tl ps") auto
  have nz: "tf \<noteq> 0" "q \<noteq> 0" using pool pq by (auto simp: kmem_pool_def)
  let ?s1 = "upd_proc p (\<lambda>q. q\<lparr>pid := nextpid s, state := USED\<rparr>) (s\<lparr>nextpid := c_int (nextpid s + 1)\<rparr>)"
  have pool1: "kmem_pool ?s1 (tf # q # qs)" using pool pq by (simp add: kmem_pool_def kpage_def)
  obtain s2 where s2: "kalloc ?s1 = (tf, s2)" "kmem_pool s2 (q # qs)"
    using kalloc_pool [OF pool1] by (metis snd_conv)
  have om2: "only_mem ?s1 s2" using kalloc_only_mem [OF s2(1)] .
  let ?s3 = "upd_proc p (\<lambda>q. q\<lparr>trapframe := tf\<rparr>) s2"
  have pool3: "kmem_pool ?s3 (q # qs)" using s2(2) by (simp add: kmem_pool_def kpage_def)
  obtain s4 ps' where s4: "proc_pagetable p ?s3 = Some (q, s4)" "only_mem ?s3 s4" "user_inv s4 q ps'"
      "\<forall>vb < MAXVA. lookup (mem s4) q vb = proc_map (k_trampoline ?s3) (trapframe (procs ?s3 p)) vb"
    using proc_pagetable_spec [OF pool3 pq(2)] by blast
  let ?s5 = "upd_proc p (\<lambda>r. r\<lparr>context_of := \<lparr>c_ra = forkret, c_sp = kstack r + PGSIZE, c_s = (\<lambda>_. 0)\<rparr>\<rparr>)
      (upd_proc p (\<lambda>r. r\<lparr>pagetable := q\<rparr>) s4)"
  have eq: "allocproc forkret s = Some (Some p, ?s5)"
    using p s2(1) s4(1) nz by (simp add: allocproc_def allocpid_def)
  have ui: "user_inv ?s5 q ps'" using s4(3) by (subst user_inv_same [of _ s4]) simp_all
  have pr: "procs s4 = procs ?s3" "nextpid s4 = nextpid ?s3" "procs s2 = procs ?s1" "nextpid s2 = nextpid ?s1"
    using only_mem_ptab [OF s4(2)] only_mem_ptab [OF om2] by auto
  have tr: "k_trampoline ?s3 = k_trampoline s" using om2 by (simp add: only_mem_def)
  show ?thesis
    by (intro exI [of _ ?s5] exI [of _ ps'] exI [of _ q] conjI)
      (use eq ui s4(4) nz pq tr pr in simp_all)
qed

section \<open>Properties\<close>

text \<open>A kernel state whose process table is empty, over the memory of a page allocator.\<close>

definition no_proc :: proc where
  "no_proc = \<lparr>state = UNUSED, chan = None, killed = 0, xstate = 0, pid = 0, parent = None, kstack = 0, sz = 0,
     pagetable = 0, trapframe = 0, context_of = \<lparr>c_ra = 0, c_sp = 0, c_s = (\<lambda>_. 0)\<rparr>, ofile = (\<lambda>_. None),
     cwd = None, name = (\<lambda>_. 0)\<rparr>"

definition boot_procs :: "kmem \<Rightarrow> ptab" where
  "boot_procs s = \<lparr>mem = mem s, k_end = k_end s, k_etext = k_etext s, k_trampoline = k_trampoline s,
     freelist = freelist s, kernel_pagetable = 0, satp = 0, procs = (\<lambda>_. no_proc),
     cpu_tab = (\<lambda>_. \<lparr>cproc = Some 0, ccontext = \<lparr>c_ra = 0, c_sp = 0, c_s = (\<lambda>_. 0)\<rparr>, noff = 0, intena = False, sie = True\<rparr>),
     hart = 0, nextpid = 1, initproc = None, kobj = (\<lambda>_. 0)\<rparr>"

lemma boot_procs_pool: "\<exists>s ps. kmem_pool (boot_procs s) ps \<and> length ps = 8"
proof -
  obtain s :: kmem and ps where "kmem_pool s ps" "length ps = 8" using boot_pool by blast
  then have "kmem_pool (boot_procs s) ps" by (simp add: kmem_pool_def kpage_def boot_procs_def)
  with \<open>length ps = 8\<close> show ?thesis by blast
qed

lemma boot_procs_unused: "find_unused (boot_procs s) = Some 0"
  unfolding find_unused_def find_upt by (simp add: boot_procs_def no_proc_def NPROC_def)

text \<open>\<open>nextpid\<close> is positive, and the process identifiers in use are below it and pairwise different.\<close>

definition pids_ok :: "'a ptab_scheme \<Rightarrow> bool" where
  "pids_ok s \<longleftrightarrow> 0 < nextpid s
     \<and> (\<forall>p < NPROC. state (procs s p) \<noteq> UNUSED \<longrightarrow> pid (procs s p) < nextpid s)
     \<and> (\<forall>p < NPROC. \<forall>q < NPROC. state (procs s p) \<noteq> UNUSED \<longrightarrow> state (procs s q) \<noteq> UNUSED \<longrightarrow>
          pid (procs s p) = pid (procs s q) \<longrightarrow> p = q)"

text \<open>
  C19: with a free slot and six free pages \<open>allocproc\<close> returns the first free slot. The process
  has an identifier different from those of all other processes, a trapframe page and a
  well-formed page table that maps exactly the trampoline and that trapframe, both without
  user access, and a context that starts at \<open>forkret\<close> on its own kernel stack. No other
  process changes. The next identifier is again above all those in use, unless the counter, an \<open>int\<close>, has
  reached its largest value.
\<close>

theorem allocproc_fresh_process:
  fixes s :: "'a ptab_scheme"
  assumes "kmem_pool s ps" and "6 \<le> length ps" and "find_unused s = Some p" and "pids_ok s"
  shows "\<exists>s' ps' pt. allocproc forkret s = Some (Some p, s') \<and>
    (\<forall>q < NPROC. q \<noteq> p \<and> state (procs s' q) \<noteq> UNUSED \<longrightarrow> pid (procs s' q) \<noteq> pid (procs s' p)) \<and>
    (nextpid s < 2 ^ 31 - 1 \<longrightarrow> pids_ok s') \<and>
    (\<forall>q. q \<noteq> p \<longrightarrow> procs s' q = procs s q) \<and>
    procs s' p = (procs s p)\<lparr>pid := nextpid s, state := USED, trapframe := hd ps, pagetable := pt,
      context_of := \<lparr>c_ra = forkret, c_sp = kstack (procs s p) + PGSIZE, c_s = (\<lambda>_. 0)\<rparr>\<rparr> \<and>
    hd ps \<noteq> 0 \<and> pt \<noteq> 0 \<and> user_inv s' pt ps' \<and>
    (\<forall>vb < MAXVA. lookup (mem s') pt vb = proc_map (k_trampoline s) (hd ps) vb)"
proof -
  obtain s' ps' pt where a: "allocproc forkret s = Some (Some p, s')" "nextpid s' = c_int (nextpid s + 1)"
      "\<forall>q. q \<noteq> p \<longrightarrow> procs s' q = procs s q"
      "procs s' p = (procs s p)\<lparr>pid := nextpid s, state := USED, trapframe := hd ps, pagetable := pt,
        context_of := \<lparr>c_ra = forkret, c_sp = kstack (procs s p) + PGSIZE, c_s = (\<lambda>_. 0)\<rparr>\<rparr>"
      "hd ps \<noteq> 0" "pt \<noteq> 0" "user_inv s' pt ps'"
      "\<forall>vb < MAXVA. lookup (mem s') pt vb = proc_map (k_trampoline s) (hd ps) vb"
    using allocproc_spec [OF assms(1-3), of forkret] by blast
  have new: "pid (procs s' p) = nextpid s" and old: "\<And>q. q \<noteq> p \<Longrightarrow> procs s' q = procs s q" using a(3,4) by simp_all
  have lt: "pid (procs s q) < nextpid s" if "q < NPROC" "state (procs s q) \<noteq> UNUSED" for q
    using assms(4) that by (simp add: pids_ok_def)
  have fresh: "\<forall>q < NPROC. q \<noteq> p \<and> state (procs s' q) \<noteq> UNUSED \<longrightarrow> pid (procs s' q) \<noteq> pid (procs s' p)"
    using new old lt by fastforce
  have "pids_ok s'" if "nextpid s < 2 ^ 31 - 1"
  proof -
    have n: "nextpid s' = nextpid s + 1" "0 < nextpid s" using a(2) c_int_small [of "nextpid s + 1"] that assms(4) by (simp_all add: pids_ok_def)
    have "pid (procs s' q) < nextpid s'" if "q < NPROC" "state (procs s' q) \<noteq> UNUSED" for q
      using lt [of q] new old [of q] n(1) that by (cases "q = p") auto
    moreover have "q = r" if "q < NPROC" "r < NPROC" "state (procs s' q) \<noteq> UNUSED" "state (procs s' r) \<noteq> UNUSED"
        "pid (procs s' q) = pid (procs s' r)" for q r
      using assms(4) fresh old [of q] old [of r] that unfolding pids_ok_def by metis
    ultimately show ?thesis using n unfolding pids_ok_def by simp
  qed
  with a fresh show ?thesis by blast
qed

theorem allocproc_fresh_process_witness:
  "\<exists>s s'. allocproc 0x80001000 (boot_procs s) = Some (Some 0, s') \<and> pid (procs s' 0) = 1 \<and> state (procs s' 0) = USED \<and> pids_ok s'"
proof -
  obtain s ps where s: "kmem_pool (boot_procs s) ps" "length ps = 8" using boot_procs_pool by blast
  have "6 \<le> length ps" using s(2) by simp
  moreover have "pids_ok (boot_procs s)" by (simp add: pids_ok_def boot_procs_def no_proc_def)
  ultimately obtain s' pt where "allocproc 0x80001000 (boot_procs s) = Some (Some 0, s')"
      "nextpid (boot_procs s) < 2 ^ 31 - 1 \<longrightarrow> pids_ok s'"
      "procs s' 0 = (procs (boot_procs s) 0)\<lparr>pid := nextpid (boot_procs s), state := USED, trapframe := hd ps, pagetable := pt,
        context_of := \<lparr>c_ra = 0x80001000, c_sp = kstack (procs (boot_procs s) 0) + PGSIZE, c_s = (\<lambda>_. 0)\<rparr>\<rparr>"
    using allocproc_fresh_process [OF s(1) _ boot_procs_unused, of "0x80001000"] by blast
  moreover from this have "pid (procs s' 0) = 1 \<and> state (procs s' 0) = USED" "nextpid (boot_procs s) = 1" by (simp_all add: boot_procs_def)
  ultimately show ?thesis by (intro exI [of _ s] exI [of _ s']) simp
qed

text \<open>
  C32: \<open>wakeup\<close> makes runnable exactly the other processes that sleep on the channel and changes
  nothing else, so no process but the caller sleeps on the channel afterwards.
\<close>

theorem wakeup_wakes_sleepers:
  "wakeup c s = s\<lparr>procs := (\<lambda>p. if p < NPROC \<and> Some p \<noteq> myproc s \<and> state (procs s p) = SLEEPING \<and> chan (procs s p) = Some c
      then (procs s p)\<lparr>state := RUNNABLE\<rparr> else procs s p)\<rparr>"
proof -
  have "(\<lambda>p. if p < NPROC \<and> Some p \<noteq> myproc s then wake_one c (procs s p) else procs s p) =
      (\<lambda>p. if p < NPROC \<and> Some p \<noteq> myproc s \<and> state (procs s p) = SLEEPING \<and> chan (procs s p) = Some c
        then (procs s p)\<lparr>state := RUNNABLE\<rparr> else procs s p)"
    by (auto simp: wake_one_def)
  then show ?thesis by (simp only: wakeup_eq)
qed

text \<open>
  C33: \<open>wait\<close> puts its process to sleep exactly when it has a child, no child is a zombie and it
  is not killed; the sleep is on the process itself, the channel that \<open>exit\<close> of a child wakes.
\<close>

theorem wait_sleeps_iff:
  "wait addr s = Some (Sleep c, s') \<longleftrightarrow>
     (\<exists>p. myproc s = Some p \<and> c = Ch_proc p \<and> \<not> is_killed p s \<and>
        (\<exists>q < NPROC. parent (procs s q) = Some p) \<and>
        (\<forall>q < NPROC. parent (procs s q) = Some p \<longrightarrow> state (procs s q) \<noteq> ZOMBIE) \<and>
        s' = s\<lparr>procs := (procs s)(p := (procs s p)\<lparr>chan := Some (Ch_proc p), state := SLEEPING\<rparr>)\<rparr>)"
proof (cases "myproc s")
  case (Some p)
  define w where "w = wait_scan [0..<NPROC] p addr False s"
  have spec: "w = Some (Inr h, s1) \<longleftrightarrow>
      (\<forall>q < NPROC. parent (procs s q) = Some p \<longrightarrow> state (procs s q) \<noteq> ZOMBIE) \<and> s1 = s \<and>
      h = (\<exists>q < NPROC. parent (procs s q) = Some p)" for h s1
    unfolding w_def wait_scan_spec by auto
  have "wait addr s = do { (r, s) \<leftarrow> w; case r of Inl n \<Rightarrow> Some (Done n, s)
      | Inr havekids \<Rightarrow> if \<not> havekids \<or> is_killed p s then Some (Done (-1), s)
          else Some (Sleep (Ch_proc p), sleep_enter p (Ch_proc p) s) }"
    by (simp add: wait_def Some w_def)
  then have "wait addr s = Some (Sleep c, s') \<longleftrightarrow>
      (\<exists>s1. w = Some (Inr True, s1) \<and> \<not> is_killed p s1 \<and> c = Ch_proc p \<and> s' = sleep_enter p (Ch_proc p) s1)"
    by (cases w) (auto split: sum.splits if_splits)
  then show ?thesis unfolding spec Some by (auto simp: sleep_enter_def)
qed (simp add: wait_def)

text \<open>Process 0 with a running child, process 1.\<close>

definition boot_child :: ptab where
  "boot_child = (boot_procs boot)\<lparr>procs := (\<lambda>_. no_proc)
     (0 := no_proc\<lparr>state := RUNNING, pid := 1\<rparr>, 1 := no_proc\<lparr>state := RUNNABLE, pid := 2, parent := Some 0\<rparr>)\<rparr>"

theorem wait_sleeps_iff_witness: "\<exists>s'. wait 0 boot_child = Some (Sleep (Ch_proc 0), s')"
proof -
  have "myproc boot_child = Some 0" by (simp add: boot_child_def boot_procs_def myproc_def mycpu_def)
  moreover have "\<not> is_killed 0 boot_child" by (simp add: boot_child_def is_killed_def no_proc_def)
  moreover have "1 < NPROC" "parent (procs boot_child 1) = Some 0" by (simp_all add: NPROC_def boot_child_def)
  moreover have "state (procs boot_child q) \<noteq> ZOMBIE" for q by (simp add: boot_child_def no_proc_def)
  ultimately show ?thesis using wait_sleeps_iff [of 0 boot_child "Ch_proc 0"] by blast
qed

text \<open>
  C34: \<open>kill\<close> marks the first slot whose identifier is the argument, and wakes it if it sleeps. It
  does not look at the state of the slot: a free slot has identifier 0, so \<open>kill(0)\<close> marks a
  free slot and reports success, and the next process allocated there starts out killed.
\<close>

theorem kill_zero_marks_free_slot:
  fixes s :: "'a ptab_scheme"
  assumes "kmem_pool s ps" and "6 \<le> length ps" and "find_unused s = Some p"
    and "pid (procs s p) = 0" and "\<forall>q < p. pid (procs s q) \<noteq> 0"
  shows "\<exists>s1 s2. kill 0 s = (0, s1) \<and> allocproc forkret s1 = Some (Some p, s2) \<and> is_killed p s2"
proof -
  have p: "p < NPROC" "state (procs s p) = UNUSED" "\<forall>q < p. state (procs s q) \<noteq> UNUSED"
    using assms(3) by (auto simp: find_unused_def find_upt)
  let ?s = "upd_proc p (\<lambda>q. q\<lparr>killed := 1, state := (if state q = SLEEPING then RUNNABLE else state q)\<rparr>) s"
  have "find (\<lambda>p. pid (procs s p) = 0) [0..<NPROC] = Some p"
    unfolding find_upt using p(1) assms(4,5) by simp
  then have k: "kill 0 s = (0, ?s)" unfolding kill_find by simp
  have "kmem_pool ?s ps" using assms(1) by (simp add: kmem_pool_def kpage_def)
  moreover have "find_unused ?s = Some p" using p unfolding find_unused_def find_upt by simp
  ultimately obtain s2 pt where "allocproc forkret ?s = Some (Some p, s2)"
      "procs s2 p = (procs ?s p)\<lparr>pid := nextpid ?s, state := USED, trapframe := hd ps, pagetable := pt,
        context_of := \<lparr>c_ra = forkret, c_sp = kstack (procs ?s p) + PGSIZE, c_s = (\<lambda>_. 0)\<rparr>\<rparr>"
    using allocproc_spec [OF _ assms(2), of ?s p forkret] by blast
  with k show ?thesis by (auto simp: is_killed_def)
qed

theorem kill_zero_marks_free_slot_witness:
  "\<exists>s s1 s2. kill 0 (boot_procs s) = (0, s1) \<and> allocproc 0 s1 = Some (Some 0, s2) \<and> is_killed 0 s2"
proof -
  obtain s ps where s: "kmem_pool (boot_procs s) ps" "length ps = 8" using boot_procs_pool by blast
  have "6 \<le> length ps" "pid (procs (boot_procs s) 0) = 0" using s(2) by (simp_all add: boot_procs_def no_proc_def)
  from kill_zero_marks_free_slot [OF s(1) this(1) boot_procs_unused this(2), of 0] show ?thesis by blast
qed

end
