(* ===== verification/Ring.thy ===== *)
theory Ring
  imports Prelude
begin

text \<open>
  First-in first-out buffers. The kernel has three: a pipe, the console input and the transmit
  buffer of the serial port. Each stores its bytes in an array indexed by counters that only
  grow and wrap at the width of the machine word. The locale \<open>fifo\<close> is the contract they share,
  and the lemmas on \<open>ring_items\<close> are the arithmetic of such counters.
\<close>

section \<open>The contract\<close>

datatype 'a fifo_op = Put 'a | Get

locale fifo =
  fixes items :: "'b \<Rightarrow> 'a list"
    and ok :: "'b \<Rightarrow> bool"
    and capacity :: nat
    and put :: "'a \<Rightarrow> 'b \<Rightarrow> 'b"
    and get :: "'b \<Rightarrow> 'a \<times> 'b"
    and full :: "'b \<Rightarrow> bool"
    and nothing :: "'b \<Rightarrow> bool"
  assumes put: "ok b \<Longrightarrow> \<not> full b \<Longrightarrow> items (put x b) = items b @ [x] \<and> ok (put x b)"
    and get: "ok b \<Longrightarrow> \<not> nothing b \<Longrightarrow> items b = fst (get b) # items (snd (get b)) \<and> ok (snd (get b))"
    and full: "ok b \<Longrightarrow> full b \<longleftrightarrow> length (items b) = capacity"
    and nothing: "ok b \<Longrightarrow> nothing b \<longleftrightarrow> items b = []"
    and bounded: "ok b \<Longrightarrow> length (items b) \<le> capacity"
begin

text \<open>Operations in any order; one that finds the buffer full or empty has no effect.\<close>

fun run :: "'a fifo_op list \<Rightarrow> 'b \<Rightarrow> 'a list \<times> 'a list \<times> 'b" where
  "run [] b = ([], [], b)"
| "run (Put x # ops) b =
     (if full b then run ops b
      else case run ops (put x b) of (ins, outs, b') \<Rightarrow> (x # ins, outs, b'))"
| "run (Get # ops) b =
     (if nothing b then run ops b
      else case run ops (snd (get b)) of (ins, outs, b') \<Rightarrow> (ins, fst (get b) # outs, b'))"

lemma run_order:
  "ok b \<Longrightarrow> case run ops b of (ins, outs, b') \<Rightarrow> ok b' \<and> items b @ ins = outs @ items b'"
proof (induction ops b rule: run.induct)
  case (2 x ops b)
  show ?case
  proof (cases "full b")
    case False
    then show ?thesis using 2 put [of b x] by (auto split: prod.splits)
  qed (use 2 in simp)
next
  case (3 ops b)
  show ?case
  proof (cases "nothing b")
    case False
    then show ?thesis using 3 get [of b] by (auto split: prod.splits)
  qed (use 3 in simp)
qed simp

end

section \<open>Counters into an array\<close>

text \<open>
  \<open>ring_items N a r n\<close> are the \<open>n\<close> entries of an array of \<open>N\<close> entries from position \<open>r\<close> on. Positions
  are counters modulo \<open>2 ^ w\<close>; because \<open>N\<close> divides \<open>2 ^ w\<close> the wrap-around of the counter does not
  disturb the position in the array.
\<close>

definition ring_items :: "nat \<Rightarrow> (nat \<Rightarrow> 'a) \<Rightarrow> nat \<Rightarrow> nat \<Rightarrow> 'a list" where
  "ring_items N a r n = map (\<lambda>k. a ((r + k) mod N)) [0..<n]"

lemma length_ring_items [simp]: "length (ring_items N a r n) = n"
  by (simp add: ring_items_def)

lemma ring_items_0 [simp]: "ring_items N a r 0 = []"
  by (simp add: ring_items_def)

lemma ring_items_get: "0 < n \<Longrightarrow> ring_items N a r n = a (r mod N) # ring_items N a (Suc r) (n - 1)"
  by (cases n) (simp_all add: ring_items_def map_upt_Suc del: upt_Suc)

lemma ring_items_put:
  assumes "n < N"
  shows "ring_items N (a((r + n) mod N := x)) r (Suc n) = ring_items N a r n @ [x]"
proof -
  have "(r + k) mod N \<noteq> (r + n) mod N" if "k < n" for k
  proof
    assume "(r + k) mod N = (r + n) mod N"
    then have "N dvd (r + n) - (r + k)" by (metis mod_eq_dvd_iff_nat add_le_cancel_left less_imp_le that)
    then have "N dvd n - k" by simp
    moreover have "0 < n - k" "n - k < N" using that assms by auto
    ultimately show False by (auto dest: dvd_imp_le)
  qed
  then show ?thesis by (simp add: ring_items_def)
qed

lemma ring_items_mod: "r mod N = r' mod N \<Longrightarrow> ring_items N a r n = ring_items N a r' n"
  unfolding ring_items_def by (metis mod_add_left_eq)

lemma unat_mod_ring:
  fixes r :: "'a::len word"
  assumes "N dvd 2 ^ LENGTH('a)"
  shows "unat (r + of_nat k) mod N = (unat r + k) mod N"
proof -
  have "unat (r + of_nat k) = (unat r + k) mod 2 ^ LENGTH('a)"
    by (metis of_nat_add of_nat_unat unat_of_nat ucast_id)
  then show ?thesis using assms by (simp add: mod_mod_cancel)
qed

end
