(* ===== verification/Pipe.thy ===== *)
theory Pipe
  imports Proc Ring
begin

text \<open>
  Pipes, \<^verbatim>\<open>kernel/pipe.c\<close>. A pipe is named by the address of its page. \<open>pipewrite\<close> and \<open>piperead\<close>
  may sleep: the functions here run from the head of the loop to the return or the sleep,
  under the pipe's lock, and take the loop variable of a call that is resumed. \<open>pipealloc\<close> needs
  the file table and is with it.
\<close>

section \<open>Model\<close>

definition PIPESIZE :: u32 where "PIPESIZE = 512"

record pipe =
  data :: bytes
  nread :: u32
  nwrite :: u32
  readopen :: int
  writeopen :: int

record ptabp = ptab +
  pipes :: "u64 \<Rightarrow> pipe"

abbreviation upd_pipe :: "u64 \<Rightarrow> (pipe \<Rightarrow> pipe) \<Rightarrow> 'a ptabp_scheme \<Rightarrow> 'a ptabp_scheme" where
  "upd_pipe pi f s \<equiv> s\<lparr>pipes := (pipes s)(pi := f (pipes s pi))\<rparr>"

text \<open>\<open>pi->data[pi->nwrite++ % PIPESIZE] = ch\<close> and \<open>ch = pi->data[pi->nread++ % PIPESIZE]\<close>.\<close>

definition pipe_put :: "u8 \<Rightarrow> pipe \<Rightarrow> pipe" where
  "pipe_put ch q = q\<lparr>data := (data q)(unat (nwrite q mod PIPESIZE) := ch), nwrite := nwrite q + 1\<rparr>"

definition pipe_get :: "pipe \<Rightarrow> u8 \<times> pipe" where
  "pipe_get q = (data q (unat (nread q mod PIPESIZE)), q\<lparr>nread := nread q + 1\<rparr>)"

definition pipeclose :: "u64 \<Rightarrow> bool \<Rightarrow> 'a ptabp_scheme \<Rightarrow> 'a ptabp_scheme option" where
  "pipeclose pi writable s =
     (let s = (if writable
               then wakeup (Ch_nread pi) (upd_pipe pi (\<lambda>q. q\<lparr>writeopen := 0\<rparr>) s)
               else wakeup (Ch_nwrite pi) (upd_pipe pi (\<lambda>q. q\<lparr>readopen := 0\<rparr>) s))
      in if readopen (pipes s pi) = 0 \<and> writeopen (pipes s pi) = 0 then kfree pi s else Some s)"

text \<open>
  One round of the loop of \<open>pipewrite\<close>: \<open>None\<close> when it goes on with the next byte, otherwise how it
  leaves the loop. The loop runs as one step for every other user of the pipe, but not for
  \<open>kill\<close>, which takes only the lock of the process: \<open>killed\<close> may change between two rounds.
\<close>

definition pipewrite_round ::
  "u64 \<Rightarrow> nat \<Rightarrow> u64 \<Rightarrow> int \<Rightarrow> 'a ptabp_scheme \<Rightarrow> (int outcome option \<times> 'a ptabp_scheme) option" where
  "pipewrite_round pi pr addr i s =
     (if readopen (pipes s pi) = 0 \<or> is_killed pr s then Some (Some (Done (-1)), s)
      else if nwrite (pipes s pi) = nread (pipes s pi) + PIPESIZE
      then let s = wakeup (Ch_nread pi) s in
        Some (Some (Sleep (Ch_nwrite pi)), sleep_enter pr (Ch_nwrite pi) s)
      else do {
        (r, ch) \<leftarrow> copyin (pagetable (procs s pr)) (\<lambda>_. 0) (addr + of_int i) 1 s;
        if r = -1 then Some (Some (Done i), wakeup (Ch_nread pi) s)
        else Some (None, upd_pipe pi (pipe_put (ch 0)) s)
      })"

function pipewrite_loop ::
  "u64 \<Rightarrow> nat \<Rightarrow> u64 \<Rightarrow> int \<Rightarrow> int \<Rightarrow> 'a ptabp_scheme \<Rightarrow> (int outcome \<times> int \<times> 'a ptabp_scheme) option" where
  "pipewrite_loop pi pr addr n i s =
     (if i < n
      then case pipewrite_round pi pr addr i s of
          None \<Rightarrow> None
        | Some (Some out, s) \<Rightarrow> Some (out, i, s)
        | Some (None, s) \<Rightarrow> pipewrite_loop pi pr addr n (i + 1) s
      else Some (Done i, i, wakeup (Ch_nread pi) s))"
  by pat_completeness auto
termination
  by (relation "measure (\<lambda>(_, _, _, n, i, _). nat (n - i))") auto

declare pipewrite_loop.simps [simp del]

definition pipewrite ::
  "u64 \<Rightarrow> u64 \<Rightarrow> int \<Rightarrow> 'a ptabp_scheme \<Rightarrow> (int outcome \<times> int \<times> 'a ptabp_scheme) option" where
  "pipewrite pi addr n s = do { pr \<leftarrow> myproc s; pipewrite_loop pi pr addr n 0 s }"

text \<open>The copying loop of \<open>piperead\<close>.\<close>

function piperead_copy ::
  "u64 \<Rightarrow> nat \<Rightarrow> u64 \<Rightarrow> int \<Rightarrow> int \<Rightarrow> 'a ptabp_scheme \<Rightarrow> (int \<times> 'a ptabp_scheme) option" where
  "piperead_copy pi pr addr n i s =
     (if i < n
      then if nread (pipes s pi) = nwrite (pipes s pi) then Some (i, s)
        else let (ch, q) = pipe_get (pipes s pi); s = upd_pipe pi (\<lambda>_. q) s in
          do {
            (r, s) \<leftarrow> copyout (pagetable (procs s pr)) (addr + of_int i) (\<lambda>_. ch) 1 s;
            if r = -1 then Some (i, s) else piperead_copy pi pr addr n (i + 1) s
          }
      else Some (i, s))"
  by pat_completeness auto
termination
  by (relation "measure (\<lambda>(_, _, _, n, i, _). nat (n - i))") auto

declare piperead_copy.simps [simp del]

definition piperead :: "u64 \<Rightarrow> u64 \<Rightarrow> int \<Rightarrow> 'a ptabp_scheme \<Rightarrow> (int outcome \<times> 'a ptabp_scheme) option" where
  "piperead pi addr n s =
     do {
       pr \<leftarrow> myproc s;
       if nread (pipes s pi) = nwrite (pipes s pi) \<and> writeopen (pipes s pi) \<noteq> 0
       then if is_killed pr s then Some (Done (-1), s)
         else Some (Sleep (Ch_nread pi), sleep_enter pr (Ch_nread pi) s)
       else do {
         (i, s) \<leftarrow> piperead_copy pi pr addr n 0 s;
         Some (Done i, wakeup (Ch_nwrite pi) s)
       }
     }"

section \<open>A pipe is a bounded queue\<close>

definition pipe_items :: "pipe \<Rightarrow> u8 list" where
  "pipe_items q = ring_items 512 (data q) (unat (nread q)) (unat (nwrite q - nread q))"

definition pipe_ok :: "pipe \<Rightarrow> bool" where
  "pipe_ok q \<longleftrightarrow> unat (nwrite q - nread q) \<le> 512"

lemma pipe_index: "unat (r mod PIPESIZE) = unat r mod 512"
  by (simp add: PIPESIZE_def unat_mod_distrib)

lemma unat_add1: "unat (x :: u32) < 4294967295 \<Longrightarrow> unat (x + 1) = unat x + 1"
  by (simp add: unat_word_ariths)

lemma pipe_put_items:
  assumes "pipe_ok q" "nwrite q \<noteq> nread q + PIPESIZE"
  shows "pipe_items (pipe_put x q) = pipe_items q @ [x] \<and> pipe_ok (pipe_put x q)"
proof -
  let ?n = "unat (nwrite q - nread q)"
  have "?n \<noteq> 512"
  proof
    assume "?n = 512"
    then have "nwrite q - nread q = 512" by (simp add: word_unat_eq_iff)
    then show False using assms(2) by (simp add: PIPESIZE_def diff_eq_eq)
  qed
  then have n: "?n < 512" using assms(1) by (simp add: pipe_ok_def)
  have suc: "unat (nwrite q + 1 - nread q) = Suc ?n"
    using unat_add1 [of "nwrite q - nread q"] n by (simp add: algebra_simps)
  have "unat (nwrite q) mod 512 = (unat (nread q) + ?n) mod 512"
    using unat_mod_ring [of 512 "nread q" ?n] by simp
  then show ?thesis
    using ring_items_put [OF n] n suc by (simp add: pipe_items_def pipe_ok_def pipe_put_def pipe_index)
qed

lemma pipe_get_items:
  assumes "pipe_ok q" "nread q \<noteq> nwrite q"
  shows "pipe_items q = fst (pipe_get q) # pipe_items (snd (pipe_get q)) \<and> pipe_ok (snd (pipe_get q))"
proof -
  let ?n = "unat (nwrite q - nread q)"
  have "nwrite q - nread q \<noteq> 0" using assms(2) by simp
  then have n: "0 < ?n" by (simp add: unat_gt_0)
  have "unat (nwrite q - nread q - 1) = ?n - 1" using n by (simp add: unat_sub word_le_nat_alt)
  then have pred: "unat (nwrite q - (nread q + 1)) = ?n - 1" by (simp add: algebra_simps)
  have "unat (nread q + 1) mod 512 = Suc (unat (nread q)) mod 512"
    using unat_mod_ring [of 512 "nread q" 1] by simp
  then have "ring_items 512 (data q) (unat (nread q + 1)) k = ring_items 512 (data q) (Suc (unat (nread q))) k" for k
    by (rule ring_items_mod)
  then show ?thesis using ring_items_get [OF n, of 512 "data q" "unat (nread q)"] assms(1) n pred
    by (simp add: pipe_items_def pipe_get_def pipe_index pipe_ok_def)
qed

interpretation pipe_fifo: fifo pipe_items pipe_ok 512 pipe_put pipe_get
    "\<lambda>q. nwrite q = nread q + PIPESIZE" "\<lambda>q. nread q = nwrite q"
proof
  fix q :: pipe and x
  show "pipe_ok q \<Longrightarrow> nwrite q \<noteq> nread q + PIPESIZE \<Longrightarrow>
      pipe_items (pipe_put x q) = pipe_items q @ [x] \<and> pipe_ok (pipe_put x q)" by (rule pipe_put_items)
  show "pipe_ok q \<Longrightarrow> nread q \<noteq> nwrite q \<Longrightarrow>
      pipe_items q = fst (pipe_get q) # pipe_items (snd (pipe_get q)) \<and> pipe_ok (snd (pipe_get q))"
    by (rule pipe_get_items)
  show "pipe_ok q \<Longrightarrow> (nwrite q = nread q + PIPESIZE) = (length (pipe_items q) = 512)"
  proof -
    have "nwrite q = nread q + 512 \<longleftrightarrow> nwrite q - nread q = 512" by (auto simp: diff_eq_eq)
    also have "\<dots> \<longleftrightarrow> unat (nwrite q - nread q) = 512" by (simp add: word_unat_eq_iff)
    finally show ?thesis by (simp add: pipe_items_def PIPESIZE_def)
  qed
  show "pipe_ok q \<Longrightarrow> (nread q = nwrite q) = (pipe_items q = [])"
  proof -
    have "unat (nwrite q - nread q) = 0 \<longleftrightarrow> nwrite q - nread q = 0" by (rule unat_eq_zero)
    then show ?thesis by (auto simp: pipe_items_def simp flip: length_0_conv)
  qed
  show "pipe_ok q \<Longrightarrow> length (pipe_items q) \<le> 512" by (simp add: pipe_items_def pipe_ok_def)
qed

section \<open>Single bytes to and from user memory\<close>

lemma uaddr_ubyte: "uaddr m pt va = None \<longleftrightarrow> ubyte m pt va = None"
  by (simp add: ubyte_def)

lemma one_byte: "unat (vb - va) < unat (1 :: u64) \<longleftrightarrow> vb = (va :: u64)"
proof -
  have "unat (vb - va) < 1 \<longleftrightarrow> vb - va = 0" by (simp add: unat_eq_zero)
  then show ?thesis by simp
qed

lemma copyin_byte:
  assumes "user_inv s pt ps"
  shows "\<exists>d. copyin pt dst va 1 s = Some (if ubyte (mem s) pt va = None then -1 else 0, d) \<and>
    (\<forall>b. ubyte (mem s) pt va = Some b \<longrightarrow> d 0 = b)"
  using copyin_from_spec [OF assms, of dst 0 va 1]
  unfolding one_byte copyin_def uaddr_ubyte [symmetric] by (auto simp: ubyte_def)

lemma copyout_byte:
  assumes "user_inv s pt ps"
  shows "\<exists>m'. copyout pt va (\<lambda>_. ch) 1 s = Some (if ubyte (mem s) pt va = None then -1 else 0, s\<lparr>mem := m'\<rparr>) \<and>
    user_inv (s\<lparr>mem := m'\<rparr>) pt ps \<and>
    (\<forall>vb. ubyte m' pt vb = (if vb = va \<and> ubyte (mem s) pt va \<noteq> None then Some ch else ubyte (mem s) pt vb))"
proof -
  obtain r m' where c: "copyout pt va (\<lambda>_. ch) 1 s = Some (r, s\<lparr>mem := m'\<rparr>)" "user_inv (s\<lparr>mem := m'\<rparr>) pt ps"
      "uaddr m' pt = uaddr (mem s) pt" "r = (if uaddr (mem s) pt va \<noteq> None then 0 else -1)"
      "\<forall>vb. vb \<noteq> va \<longrightarrow> ubyte m' pt vb = ubyte (mem s) pt vb" "r = 0 \<longrightarrow> ubyte m' pt va = Some ch"
    using copyout_spec [OF assms, of va "\<lambda>_. ch" 1] unfolding one_byte by auto
  have "ubyte m' pt vb = (if vb = va \<and> ubyte (mem s) pt va \<noteq> None then Some ch else ubyte (mem s) pt vb)" for vb
    using c(3-6) by (cases "vb = va") (auto simp: ubyte_def split: if_splits)
  then show ?thesis using c(1,2,4) by (intro exI [of _ m']) (auto simp: ubyte_def)
qed

section \<open>Writing\<close>

lemma pipe_wakeup [simp]:
  "pipes (wakeup c s) = pipes s" "mem (wakeup c s) = mem s" "pagetable (procs (wakeup c s) p) = pagetable (procs s p)"
  "killed (procs (wakeup c s) p) = killed (procs s p)"
  by (simp_all add: wakeup_eq wake_one_def)

lemma pipe_sleep [simp]:
  "pipes (sleep_enter p c s) = pipes s" "mem (sleep_enter p c s) = mem s"
  by (simp_all add: sleep_enter_def)

text \<open>User memory from \<open>va\<close> on starts with the given bytes.\<close>

definition user_bytes :: "memory \<Rightarrow> u64 \<Rightarrow> u64 \<Rightarrow> u8 list \<Rightarrow> bool" where
  "user_bytes m pt va bs \<longleftrightarrow> (\<forall>k < length bs. ubyte m pt (va + of_nat k) = Some (bs ! k))"

lemma user_bytes_Nil [simp]: "user_bytes m pt va []"
  by (simp add: user_bytes_def)

lemma user_bytes_Cons: "user_bytes m pt va (b # bs) \<longleftrightarrow> ubyte m pt va = Some b \<and> user_bytes m pt (va + 1) bs"
proof -
  have "(\<forall>k < Suc n. P k) \<longleftrightarrow> P 0 \<and> (\<forall>k < n. P (Suc k))" for P and n :: nat
    using less_Suc_eq_0_disj by auto
  then show ?thesis by (auto simp: user_bytes_def algebra_simps)
qed

text \<open>
  What \<open>pipewrite\<close> does from its \<open>i\<close>-th byte on, when \<open>bs\<close> are the bytes it takes: the result, the position and
  the state.
\<close>

definition write_result ::
  "u64 \<Rightarrow> nat \<Rightarrow> int \<Rightarrow> int \<Rightarrow> u8 list \<Rightarrow> 'a ptabp_scheme \<Rightarrow> int outcome \<times> int \<times> 'a ptabp_scheme" where
  "write_result pi pr n i bs s =
     (let j = i + int (length bs); t = wakeup (Ch_nread pi) (upd_pipe pi (fold pipe_put bs) s)
      in if i < n \<and> (readopen (pipes s pi) = 0 \<or> is_killed pr s) then (Done (-1), i, s)
         else if j < n \<and> length (pipe_items (pipes s pi)) + length bs = 512 then (Sleep (Ch_nwrite pi), j, sleep_enter pr (Ch_nwrite pi) t)
         else (Done j, j, t))"

text \<open>The bytes it takes: as many as there are, as fit and as are readable.\<close>

definition write_takes :: "u64 \<Rightarrow> nat \<Rightarrow> u64 \<Rightarrow> int \<Rightarrow> int \<Rightarrow> u8 list \<Rightarrow> 'a ptabp_scheme \<Rightarrow> bool" where
  "write_takes pi pr addr n i bs s \<longleftrightarrow>
     (let j = i + int (length bs); pt = pagetable (procs s pr)
      in user_bytes (mem s) pt (addr + of_int i) bs \<and>
         (if i < n \<and> \<not> (readopen (pipes s pi) = 0 \<or> is_killed pr s)
          then j \<le> n \<and> length (pipe_items (pipes s pi)) + length bs \<le> 512 \<and>
            (j = n \<or> length (pipe_items (pipes s pi)) + length bs = 512 \<or> ubyte (mem s) pt (addr + of_int j) = None)
          else bs = []))"

lemma write_takes_Cons:
  assumes "i < n" "\<not> (readopen (pipes s pi) = 0 \<or> is_killed pr s)" "pipe_ok (pipes s pi)"
    "nwrite (pipes s pi) \<noteq> nread (pipes s pi) + PIPESIZE" "ubyte (mem s) (pagetable (procs s pr)) (addr + of_int i) = Some b"
    "write_takes pi pr addr n (i + 1) bs (upd_pipe pi (pipe_put b) s)"
  shows "write_takes pi pr addr n i (b # bs) s"
proof -
  let ?s = "upd_pipe pi (pipe_put b) s"
  have p: "pipe_items (pipe_put b (pipes s pi)) = pipe_items (pipes s pi) @ [b]" using pipe_fifo.put [OF assms(3,4)] by simp
  have k: "is_killed pr ?s = is_killed pr s" "readopen (pipe_put b (pipes s pi)) = readopen (pipes s pi)"
    by (simp_all add: is_killed_def pipe_put_def)
  have "length (pipe_items (pipes s pi)) < 512"
    using pipe_fifo.full [OF assms(3)] pipe_fifo.bounded [OF assms(3)] assms(4) by linarith
  then show ?thesis using assms(1,2,5,6) p k
    by (cases "i + 1 < n") (auto simp: write_takes_def Let_def user_bytes_Cons algebra_simps)
qed

lemma write_result_Cons:
  assumes "i < n" "\<not> (readopen (pipes s pi) = 0 \<or> is_killed pr s)" "pipe_ok (pipes s pi)"
    "nwrite (pipes s pi) \<noteq> nread (pipes s pi) + PIPESIZE"
  shows "write_result pi pr n (i + 1) bs (upd_pipe pi (pipe_put b) s) = write_result pi pr n i (b # bs) s"
proof -
  have "pipe_items (pipe_put b (pipes s pi)) = pipe_items (pipes s pi) @ [b]" using pipe_fifo.put [OF assms(3,4)] by simp
  moreover have "is_killed pr (upd_pipe pi (pipe_put b) s) = is_killed pr s" "readopen (pipe_put b (pipes s pi)) = readopen (pipes s pi)"
    by (simp_all add: is_killed_def pipe_put_def)
  ultimately show ?thesis using assms(1,2) by (simp add: write_result_def Let_def add.assoc)
qed

lemma fold_put_items:
  "pipe_ok q \<Longrightarrow> length (pipe_items q) + length bs \<le> 512 \<Longrightarrow>
     pipe_items (fold pipe_put bs q) = pipe_items q @ bs \<and> pipe_ok (fold pipe_put bs q)"
proof (induction bs arbitrary: q)
  case (Cons b bs)
  then have "nwrite q \<noteq> nread q + PIPESIZE" using pipe_fifo.full by fastforce
  then show ?case using Cons.IH [of "pipe_put b q"] Cons.prems pipe_fifo.put [OF Cons.prems(1), of b] by simp
qed simp

lemma pipewrite_loop_spec:
  assumes "user_inv s pt ps" "pagetable (procs s pr) = pt" "pipe_ok (pipes s pi)"
  shows "\<exists>bs. pipewrite_loop pi pr addr n i s = Some (write_result pi pr n i bs s) \<and> write_takes pi pr addr n i bs s"
  using assms
proof (induction "nat (n - i)" arbitrary: i s rule: less_induct)
  case less
  note inv = less.prems(1) and pt = less.prems(2) and ok = less.prems(3)
  consider (stop) "\<not> i < n \<or> readopen (pipes s pi) = 0 \<or> is_killed pr s"
    | (full) "i < n" "\<not> (readopen (pipes s pi) = 0 \<or> is_killed pr s)" "nwrite (pipes s pi) = nread (pipes s pi) + PIPESIZE"
    | (go) "i < n" "\<not> (readopen (pipes s pi) = 0 \<or> is_killed pr s)" "nwrite (pipes s pi) \<noteq> nread (pipes s pi) + PIPESIZE"
    by blast
  then show ?case
  proof cases
    case stop
    then show ?thesis
      by (intro exI [of _ "[]"]) (auto simp: pipewrite_loop.simps pipewrite_round_def write_result_def write_takes_def Let_def)
  next
    case full
    then show ?thesis using pipe_fifo.full [OF ok]
      by (intro exI [of _ "[]"]) (simp add: pipewrite_loop.simps pipewrite_round_def write_result_def write_takes_def Let_def)
  next
    case go
    have len: "length (pipe_items (pipes s pi)) < 512"
      using pipe_fifo.full [OF ok] pipe_fifo.bounded [OF ok] go(3) by linarith
    obtain d where d: "copyin pt (\<lambda>_. 0) (addr + of_int i) 1 s = Some (if ubyte (mem s) pt (addr + of_int i) = None then -1 else 0, d)"
        "\<forall>b. ubyte (mem s) pt (addr + of_int i) = Some b \<longrightarrow> d 0 = b"
      using copyin_byte [OF inv] by blast
    show ?thesis
    proof (cases "ubyte (mem s) pt (addr + of_int i)")
      case None
      then show ?thesis using go d pt len
        by (intro exI [of _ "[]"]) (simp add: pipewrite_loop.simps pipewrite_round_def write_result_def write_takes_def Let_def)
    next
      case (Some b)
      let ?s = "upd_pipe pi (pipe_put b) s"
      have eq: "pipewrite_loop pi pr addr n i s = pipewrite_loop pi pr addr n (i + 1) ?s"
        using go d pt Some by (subst pipewrite_loop.simps) (simp add: pipewrite_round_def)
      have "user_inv ?s pt ps" using inv by (subst user_inv_same [of _ s]) simp_all
      moreover have "nat (n - (i + 1)) < nat (n - i)" "pagetable (procs ?s pr) = pt" "pipe_ok (pipes ?s pi)"
        using go(1) pt pipe_fifo.put [OF ok go(3), of b] by simp_all
      ultimately obtain bs where "pipewrite_loop pi pr addr n (i + 1) ?s = Some (write_result pi pr n (i + 1) bs ?s)"
          "write_takes pi pr addr n (i + 1) bs ?s"
        using less.hyps [of "i + 1" ?s] by blast
      then show ?thesis
        using eq write_result_Cons [OF go(1,2) ok go(3)] write_takes_Cons [OF go(1,2) ok go(3)] Some pt by auto
    qed
  qed
qed

section \<open>Reading\<close>

lemma range_Suc:
  assumes "k < 2 ^ 63"
  shows "unat (vb - va) < Suc k \<longleftrightarrow> vb = va \<or> unat (vb - (va + 1 :: u64)) < k"
proof -
  let ?d = "vb - va"
  have e: "vb - (va + 1) = ?d - 1" by simp
  show ?thesis
  proof (cases "?d = 0")
    case False
    then have "unat (?d - 1) = unat ?d - 1" "0 < unat ?d"
      by (auto simp: unat_minus_one unat_gt_0)
    moreover have "vb \<noteq> va" using False by auto
    ultimately show ?thesis unfolding e by linarith
  qed simp
qed

lemma not_in_next_range:
  assumes "k < 2 ^ 63"
  shows "\<not> unat (va - (va + 1 :: u64)) < k"
proof -
  have "va - (va + 1) = - 1" by simp
  moreover have "unat (- 1 :: u64) = 2 ^ 64 - 1" by (simp add: unsigned_minus_1_eq_mask mask_eq_exp_minus_1)
  ultimately show ?thesis using assms by simp
qed

lemma piperead_copy_spec:
  assumes "user_inv s pt ps" "pagetable (procs s pr) = pt" "pipe_ok (pipes s pi)" "0 \<le> i" "i \<le> n" "n < 2 ^ 31"
  shows "\<exists>k m' q. piperead_copy pi pr addr n i s =
      Some (i + int k, s\<lparr>pipes := (pipes s)(pi := q), mem := m'\<rparr>) \<and>
    k \<le> length (pipe_items (pipes s pi)) \<and> i + int k \<le> n \<and> pipe_ok q \<and>
    user_inv (s\<lparr>pipes := (pipes s)(pi := q), mem := m'\<rparr>) pt ps \<and>
    user_bytes m' pt (addr + of_int i) (take k (pipe_items (pipes s pi))) \<and>
    (\<forall>vb. \<not> unat (vb - (addr + of_int i)) < k \<longrightarrow> ubyte m' pt vb = ubyte (mem s) pt vb) \<and>
    (if i + int k = n \<or> k = length (pipe_items (pipes s pi))
     then pipe_items q = drop k (pipe_items (pipes s pi))
     else ubyte (mem s) pt (addr + of_int (i + int k)) = None \<and>
       pipe_items q = drop (Suc k) (pipe_items (pipes s pi))) \<and>
    writeopen q = writeopen (pipes s pi) \<and> readopen q = readopen (pipes s pi)"
  using assms
proof (induction "nat (n - i)" arbitrary: i s rule: less_induct)
  case less
  note inv = less.prems(1) and pt = less.prems(2) and ok = less.prems(3)
  let ?it = "pipe_items (pipes s pi)"
  consider (stop) "i = n" | (empty) "i < n" "nread (pipes s pi) = nwrite (pipes s pi)"
    | (go) "i < n" "nread (pipes s pi) \<noteq> nwrite (pipes s pi)" using less.prems by fastforce
  then show ?case
  proof cases
    case stop
    then show ?thesis using less.prems
      by (intro exI [of _ "0 :: nat"] exI [of _ "mem s"] exI [of _ "pipes s pi"])
        (simp add: piperead_copy.simps)
  next
    case empty
    moreover have "?it = []" using pipe_fifo.nothing [OF ok] empty by simp
    ultimately show ?thesis using less.prems
      by (intro exI [of _ "0 :: nat"] exI [of _ "mem s"] exI [of _ "pipes s pi"])
        (simp add: piperead_copy.simps)
  next
    case go
    obtain ch q where g: "pipe_get (pipes s pi) = (ch, q)" by fastforce
    then have get: "?it = ch # pipe_items q" "pipe_ok q" using pipe_fifo.get [OF ok go(2)] by simp_all
    have wq: "writeopen q = writeopen (pipes s pi)" "readopen q = readopen (pipes s pi)"
      using g by (auto simp: pipe_get_def)
    let ?s = "upd_pipe pi (\<lambda>_. q) s"
    have inv1: "user_inv ?s pt ps" using inv by (subst user_inv_same [of _ s]) simp_all
    let ?va = "addr + of_int i"
    obtain m1 where c: "copyout pt ?va (\<lambda>_. ch) 1 ?s =
        Some (if ubyte (mem s) pt ?va = None then -1 else 0, ?s\<lparr>mem := m1\<rparr>)" "user_inv (?s\<lparr>mem := m1\<rparr>) pt ps"
        "\<forall>vb. ubyte m1 pt vb = (if vb = ?va \<and> ubyte (mem s) pt ?va \<noteq> None then Some ch else ubyte (mem s) pt vb)"
      using copyout_byte [OF inv1, of ?va ch] by auto
    show ?thesis
    proof (cases "ubyte (mem s) pt ?va")
      case None
      have "piperead_copy pi pr addr n i s = Some (i, s\<lparr>pipes := (pipes s)(pi := q), mem := m1\<rparr>)"
        using go g c(1) pt None by (subst piperead_copy.simps) simp
      then show ?thesis using c(2,3) get None go(1) wq
        by (intro exI [of _ "0 :: nat"] exI [of _ m1] exI [of _ q]) simp
    next
      case (Some b)
      let ?s1 = "?s\<lparr>mem := m1\<rparr>"
      have eq: "piperead_copy pi pr addr n i s = piperead_copy pi pr addr n (i + 1) ?s1"
        using go g c(1) pt Some by (subst piperead_copy.simps) simp
      have prem: "pagetable (procs ?s1 pr) = pt" "pipe_ok (pipes ?s1 pi)" "nat (n - (i + 1)) < nat (n - i)"
        "0 \<le> i + 1" "i + 1 \<le> n"
        using pt get(2) go less.prems(4,5) by simp_all
      have sel: "pipes ?s1 pi = q" "mem ?s1 = m1" by simp_all
      obtain k m' q' where IH: "piperead_copy pi pr addr n (i + 1) ?s1 =
            Some (i + 1 + int k, ?s1\<lparr>pipes := (pipes ?s1)(pi := q'), mem := m'\<rparr>)"
          "k \<le> length (pipe_items q)" "i + 1 + int k \<le> n" "pipe_ok q'"
          "user_inv (?s1\<lparr>pipes := (pipes ?s1)(pi := q'), mem := m'\<rparr>) pt ps"
          "user_bytes m' pt (addr + of_int (i + 1)) (take k (pipe_items q))"
          "\<forall>vb. \<not> unat (vb - (addr + of_int (i + 1))) < k \<longrightarrow> ubyte m' pt vb = ubyte m1 pt vb"
          "if i + 1 + int k = n \<or> k = length (pipe_items q) then pipe_items q' = drop k (pipe_items q)
           else ubyte m1 pt (addr + of_int (i + 1 + int k)) = None \<and> pipe_items q' = drop (Suc k) (pipe_items q)"
          "writeopen q' = writeopen q" "readopen q' = readopen q"
        using less.hyps [OF prem(3) c(2) prem(1,2,4,5) less.prems(6)] unfolding sel by blast
      have k: "k < 2 ^ 63" using IH(3) less.prems(4,6) by simp
      have va: "addr + of_int (i + 1) = ?va + 1" by (simp add: algebra_simps)
      have fr: "ubyte m' pt vb = ubyte (mem s) pt vb" if "\<not> unat (vb - ?va) < Suc k" for vb
        using that IH(7) [unfolded va, rule_format, of vb] c(3) range_Suc [OF k, of vb ?va] by simp
      have "ubyte m' pt ?va = Some ch" using IH(7) [unfolded va, rule_format, of ?va] c(3) not_in_next_range [OF k, of ?va] Some by simp
      then have ub: "user_bytes m' pt ?va (take (Suc k) ?it)"
        using IH(6) [unfolded va] get by (simp add: user_bytes_Cons)
      have none: "ubyte (mem s) pt x = None" if "ubyte m1 pt x = None" for x
        using that c(3) Some by (auto split: if_splits)
      show ?thesis
        using eq IH(1-5,8-) fr ub none wq unfolding get(1)
        by (intro exI [of _ "Suc k"] exI [of _ m'] exI [of _ q']) (auto simp: algebra_simps split: if_splits)
    qed
  qed
qed

section \<open>Sleepers\<close>

definition asleep_on :: "chan \<Rightarrow> 'a ptab_scheme \<Rightarrow> nat \<Rightarrow> bool" where
  "asleep_on c s p \<longleftrightarrow> p < NPROC \<and> state (procs s p) = SLEEPING \<and> chan (procs s p) = Some c"

lemma asleep_wakeup: "asleep_on c (wakeup d s) p \<longleftrightarrow> asleep_on c s p \<and> (c = d \<longrightarrow> myproc s = Some p)"
  by (auto simp: asleep_on_def wakeup_eq wake_one_def)

lemma asleep_sleep_enter:
  "asleep_on c (sleep_enter pr d s) p \<longleftrightarrow> (if p = pr then p < NPROC \<and> c = d else asleep_on c s p)"
  by (auto simp: asleep_on_def sleep_enter_def)

lemma asleep_procs: "procs s' = procs s \<Longrightarrow> asleep_on c s' = asleep_on c s"
  by (auto simp: asleep_on_def fun_eq_iff)

lemma asleep_pipe [simp]: "asleep_on c (upd_pipe pi f s) = asleep_on c s"
  by (rule asleep_procs) simp

text \<open>
  No wakeup is lost: a process asleep on \<open>nread\<close> has nothing to read and a writer that may still
  come, one asleep on \<open>nwrite\<close> has no room and a reader that may still come.
\<close>

definition no_lost_wakeup :: "u64 \<Rightarrow> 'a ptabp_scheme \<Rightarrow> bool" where
  "no_lost_wakeup pi s \<longleftrightarrow>
     (\<forall>p. asleep_on (Ch_nread pi) s p \<longrightarrow> nread (pipes s pi) = nwrite (pipes s pi) \<and> writeopen (pipes s pi) \<noteq> 0) \<and>
     (\<forall>p. asleep_on (Ch_nwrite pi) s p \<longrightarrow>
        nwrite (pipes s pi) = nread (pipes s pi) + PIPESIZE \<and> readopen (pipes s pi) \<noteq> 0)"

lemma pipewrite_loop_wakes:
  assumes "pipewrite_loop pi pr addr n i s = Some (out, j, s')"
    and "readopen (pipes s pi) \<noteq> 0" and "\<not> is_killed pr s"
    and "\<And>p. asleep_on (Ch_nwrite pi) s p \<Longrightarrow>
        nwrite (pipes s pi) = nread (pipes s pi) + PIPESIZE \<and> readopen (pipes s pi) \<noteq> 0"
    and "myproc s = Some pr" and "state (procs s pr) \<noteq> SLEEPING"
  shows "no_lost_wakeup pi s'"
  using assms
proof (induction pi pr addr n i s rule: pipewrite_loop.induct)
  case (1 pi pr addr n i s)
  have me: "\<not> asleep_on c s pr" for c using 1(7) by (simp add: asleep_on_def)
  show ?case
  proof (cases "i < n \<and> nwrite (pipes s pi) \<noteq> nread (pipes s pi) + PIPESIZE")
    case True
    then obtain r ch where c: "copyin (pagetable (procs s pr)) (\<lambda>_. 0) (addr + of_int i) 1 s = Some (r, ch)"
      using 1(2-4) by (cases "copyin (pagetable (procs s pr)) (\<lambda>_. 0) (addr + of_int i) 1 s")
        (auto simp: pipewrite_loop.simps [of pi pr addr n i s] pipewrite_round_def)
    show ?thesis
    proof (cases "r = -1")
      case False
      let ?s = "upd_pipe pi (pipe_put (ch 0)) s"
      have rnd: "pipewrite_round pi pr addr i s = Some (None, ?s)"
        using True 1(3,4) c False by (simp add: pipewrite_round_def)
      have "pipewrite_loop pi pr addr n (i + 1) ?s = Some (out, j, s')"
        using 1(2) True rnd by (subst (asm) pipewrite_loop.simps) simp
      moreover have "\<not> is_killed pr ?s" "myproc ?s = Some pr" using 1(4,6) by (simp_all add: is_killed_def myproc_def mycpu_def)
      moreover have "\<not> asleep_on (Ch_nwrite pi) ?s p" for p using 1(5) [of p] True by auto
      moreover have "readopen (pipes ?s pi) \<noteq> 0" "state (procs ?s pr) \<noteq> SLEEPING" using 1(3,7) by (simp_all add: pipe_put_def)
      moreover have "i < n" using True by simp
      ultimately show ?thesis using 1(1) [OF _ rnd refl refl] by blast
    qed (use 1(2-7) True c me in \<open>auto simp: pipewrite_loop.simps [of pi pr addr n i s] pipewrite_round_def
        no_lost_wakeup_def asleep_wakeup asleep_sleep_enter\<close>)
  qed (use 1(2-7) me in \<open>auto simp: pipewrite_loop.simps [of pi pr addr n i s] pipewrite_round_def Let_def
        no_lost_wakeup_def asleep_wakeup asleep_sleep_enter split: if_splits\<close>)
qed

lemma only_mem_pipes: "only_mem (s :: 'a ptabp_scheme) s' \<Longrightarrow> pipes s' = pipes s"
  by (cases s; cases s'; simp add: only_mem_def)

lemma piperead_copy_frame:
  "piperead_copy pi pr addr n i s = Some (j, s') \<Longrightarrow>
   procs s' = procs s \<and> myproc s' = myproc s \<and> readopen (pipes s' pi) = readopen (pipes s pi) \<and>
   writeopen (pipes s' pi) = writeopen (pipes s pi)"
proof (induction pi pr addr n i s rule: piperead_copy.induct)
  case (1 pi pr addr n i s)
  show ?case
  proof (cases "i < n \<and> nread (pipes s pi) \<noteq> nwrite (pipes s pi)")
    case True
    obtain ch q where g: "pipe_get (pipes s pi) = (ch, q)" by fastforce
    then have q: "readopen q = readopen (pipes s pi)" "writeopen q = writeopen (pipes s pi)"
      by (auto simp: pipe_get_def)
    define t where "t = upd_pipe pi (\<lambda>_. q) s"
    have tf: "procs t = procs s" "myproc t = myproc s" "pipes t = (pipes s)(pi := q)"
      by (simp_all add: t_def myproc_def mycpu_def)
    obtain r s1 where c: "copyout (pagetable (procs t pr)) (addr + of_int i) (\<lambda>_. ch) 1 t = Some (r, s1)"
        "if r = -1 then s' = s1 else piperead_copy pi pr addr n (i + 1) s1 = Some (j, s')"
      using 1(2) True g unfolding piperead_copy.simps [of pi pr addr n i s] t_def
      by (auto simp: Option.bind_eq_Some_conv split: if_splits)
    have "only_mem t s1" using c(1) by (rule only_mem_intros)
    then have f: "procs s1 = procs s" "myproc s1 = myproc s" "pipes s1 = (pipes s)(pi := q)"
      using only_mem_ptab [of t s1] only_mem_pipes [of t s1] tf by simp_all
    show ?thesis
    proof (cases "r = -1")
      case False
      have "i < n" "nread (pipes s pi) \<noteq> nwrite (pipes s pi)" "piperead_copy pi pr addr n (i + 1) s1 = Some (j, s')"
        using True c(2) False by simp_all
      then show ?thesis using 1(1) [OF _ _ g [symmetric] refl t_def c(1) refl False] f q by simp
    qed (use c(2) f q in simp)
  next
    case False
    then have "s' = s" using 1(2) unfolding piperead_copy.simps [of pi pr addr n i s] by (auto split: if_splits)
    then show ?thesis by simp
  qed
qed

section \<open>Properties\<close>

text \<open>Two processes on a pipe: 0 runs and writes, 1 sleeps until there is something to read.\<close>

definition boot_pipes :: "kmem \<Rightarrow> u64 \<Rightarrow> pipe \<Rightarrow> ptabp" where
  "boot_pipes s pt q = ptab.extend (boot_procs s\<lparr>procs := (\<lambda>_. no_proc)
       (0 := no_proc\<lparr>state := RUNNING, pid := 1, pagetable := pt\<rparr>,
        1 := no_proc\<lparr>state := SLEEPING, pid := 2, chan := Some (Ch_nread 0)\<rparr>)\<rparr>)
     (ptabp.fields (\<lambda>_. q))"

lemma boot_pipes_sel [simp]:
  "mem (boot_pipes s pt q) = mem s" "pipes (boot_pipes s pt q) = (\<lambda>_. q)" "myproc (boot_pipes s pt q) = Some 0"
  "procs (boot_pipes s pt q) = (\<lambda>_. no_proc)
       (0 := no_proc\<lparr>state := RUNNING, pid := 1, pagetable := pt\<rparr>,
        1 := no_proc\<lparr>state := SLEEPING, pid := 2, chan := Some (Ch_nread 0)\<rparr>)"
  by (simp_all add: boot_pipes_def boot_procs_def ptab.defs ptabp.defs myproc_def mycpu_def)

lemma boot_pipes_user: "user_inv s pt ps \<Longrightarrow> user_inv (boot_pipes s pt q) pt ps"
proof -
  have eq: "mem (boot_pipes s pt q) = mem s" "k_end (boot_pipes s pt q) = k_end s" "freelist (boot_pipes s pt q) = freelist s"
    by (simp_all add: boot_pipes_def boot_procs_def ptab.defs ptabp.defs)
  assume "user_inv s pt ps"
  then show ?thesis unfolding user_inv_def vm_inv_def kmem_pool_def kpage_def eq .
qed

definition boot_pipe :: "u8 list \<Rightarrow> pipe" where
  "boot_pipe bs = \<lparr>data = (\<lambda>i. if i < length bs then bs ! i else 0), nread = 0, nwrite = of_nat (length bs),
     readopen = 1, writeopen = 1\<rparr>"

text \<open>
  C21: \<open>pipewrite\<close> on a pipe with an intact ring always returns or sleeps, and the outcome is determined. When there are bytes to
  write and the read end is closed or the caller is killed, it returns -1 and changes nothing. Otherwise it takes
  bytes of the caller's memory, in order from \<open>addr\<close> on, until all \<open>n\<close> are taken, the pipe is full, or an address is not
  readable; exactly these are appended to the contents of the pipe and nothing is overwritten. With bytes left and the
  pipe full it wakes the readers and sleeps; in the other cases it wakes the readers and returns the number of
  bytes taken.
\<close>

theorem pipewrite_appends:
  assumes "myproc s = Some pr" and "user_inv s (pagetable (procs s pr)) ps" and "pipe_ok (pipes s pi)"
  defines "pt \<equiv> pagetable (procs s pr)" and "it \<equiv> pipe_items (pipes s pi)"
  shows "if 0 < n \<and> (readopen (pipes s pi) = 0 \<or> is_killed pr s)
    then pipewrite pi addr n s = Some (Done (-1), 0, s)
    else \<exists>bs. user_bytes (mem s) pt addr bs \<and> int (length bs) \<le> max 0 n \<and> length it + length bs \<le> 512 \<and>
      (int (length bs) = max 0 n \<or> length it + length bs = 512 \<or> ubyte (mem s) pt (addr + of_nat (length bs)) = None) \<and>
      pipe_items (fold pipe_put bs (pipes s pi)) = it @ bs \<and> pipe_ok (fold pipe_put bs (pipes s pi)) \<and>
      (let t = wakeup (Ch_nread pi) (upd_pipe pi (fold pipe_put bs) s)
       in pipewrite pi addr n s =
         Some (if int (length bs) < n \<and> length it + length bs = 512
               then (Sleep (Ch_nwrite pi), int (length bs), sleep_enter pr (Ch_nwrite pi) t)
               else (Done (int (length bs)), int (length bs), t)))"
proof -
  obtain bs where bs: "pipewrite pi addr n s = Some (write_result pi pr n 0 bs s)" "write_takes pi pr addr n 0 bs s"
    using pipewrite_loop_spec [OF assms(2) refl assms(3), of addr n 0] assms(1) by (auto simp: pipewrite_def)
  show ?thesis
  proof (cases "0 < n \<and> (readopen (pipes s pi) = 0 \<or> is_killed pr s)")
    case True
    then show ?thesis using bs(1) by (simp add: write_result_def Let_def)
  next
    case False
    have len: "length it + length bs \<le> 512"
      using bs(2) False pipe_fifo.bounded [OF assms(3)] by (auto simp: write_takes_def Let_def it_def split: if_splits)
    have r: "write_result pi pr n 0 bs s = (let t = wakeup (Ch_nread pi) (upd_pipe pi (fold pipe_put bs) s)
       in if int (length bs) < n \<and> length it + length bs = 512
          then (Sleep (Ch_nwrite pi), int (length bs), sleep_enter pr (Ch_nwrite pi) t) else (Done (int (length bs)), int (length bs), t))"
      using False by (auto simp: write_result_def Let_def it_def)
    have "user_bytes (mem s) pt addr bs" "int (length bs) \<le> max 0 n"
      "int (length bs) = max 0 n \<or> length it + length bs = 512 \<or> ubyte (mem s) pt (addr + of_nat (length bs)) = None"
      using bs(2) False by (auto simp: write_takes_def Let_def it_def pt_def split: if_splits)
    then show ?thesis using False len bs(1) r fold_put_items [OF assms(3), of bs] unfolding it_def
      by (simp only: if_not_P not_False_eq_True Let_def) (intro exI [of _ bs], simp)
  qed
qed

text \<open>The pipe of the example holds one byte. Two bytes are appended; with the read end closed the call fails.\<close>

theorem pipewrite_appends_witness:
  "\<exists>s :: ptabp. \<exists>s'. pipewrite 0 0 2 s = Some (Done 2, 2, s') \<and> pipe_items (pipes s' 0) = [7, 65, 65] \<and>
     pipewrite 0 0 2 (upd_pipe 0 (\<lambda>q. q\<lparr>readopen := 0\<rparr>) s) = Some (Done (-1), 0, upd_pipe 0 (\<lambda>q. q\<lparr>readopen := 0\<rparr>) s)"
proof -
  obtain s :: kmem and pt ps where s: "user_inv s pt ps" "\<forall>vb < 4096. ubyte (mem s) pt vb = Some (if unat vb < 3 then 65 else 0)"
    using boot_mapped by blast
  let ?s = "boot_pipes s pt (boot_pipe [7])" and ?c = "upd_pipe 0 (\<lambda>q. q\<lparr>readopen := 0\<rparr>) (boot_pipes s pt (boot_pipe [7]))"
  have "myproc ?c = myproc ?s" unfolding myproc_def mycpu_def by simp
  then have my: "myproc ?s = Some 0" "myproc ?c = Some 0" by simp_all
  have ok: "pipe_ok (pipes ?s 0)" "pipe_ok (pipes ?c 0)" by (simp_all add: pipe_ok_def boot_pipe_def)
  have it: "pipe_items (pipes ?s 0) = [7]" by (simp add: pipe_items_def boot_pipe_def ring_items_def)
  have inv: "user_inv ?s (pagetable (procs ?s 0)) ps" using boot_pipes_user [OF s(1)] by simp
  then have invc: "user_inv ?c (pagetable (procs ?c 0)) ps" by (subst user_inv_same [of _ ?s]) simp_all
  have go: "\<not> (0 < (2 :: int) \<and> (readopen (pipes ?s 0) = 0 \<or> is_killed 0 ?s))" by (simp add: boot_pipe_def is_killed_def no_proc_def)
  obtain bs where bs: "user_bytes (mem s) pt 0 bs" "int (length bs) \<le> max 0 2" "pipe_items (fold pipe_put bs (pipes ?s 0)) = [7] @ bs"
      "int (length bs) = max 0 2 \<or> length [7 :: u8] + length bs = 512 \<or> ubyte (mem s) pt (0 + of_nat (length bs)) = None"
      "pipewrite 0 0 2 ?s = Some (if int (length bs) < 2 \<and> length [7 :: u8] + length bs = 512
         then (Sleep (Ch_nwrite 0), int (length bs), sleep_enter 0 (Ch_nwrite 0) (wakeup (Ch_nread 0) (upd_pipe 0 (fold pipe_put bs) ?s)))
         else (Done (int (length bs)), int (length bs), wakeup (Ch_nread 0) (upd_pipe 0 (fold pipe_put bs) ?s)))"
    using pipewrite_appends [OF my(1) inv ok(1), of 2 0] go unfolding it if_not_P [OF go] Let_def by auto
  have n: "length bs = 2"
  proof (rule ccontr)
    assume "length bs \<noteq> 2"
    then have "length bs < 2" using bs(2) by simp
    then have "(of_nat (length bs) :: u64) < 4096" by (auto simp: less_2_cases_iff)
    then show False using bs(4) s(2) \<open>length bs < 2\<close> by auto
  qed
  have "ubyte (mem s) pt 0 = Some (bs ! 0)" "ubyte (mem s) pt 1 = Some (bs ! 1)"
    using bs(1) [unfolded user_bytes_def, rule_format, of 0] bs(1) [unfolded user_bytes_def, rule_format, of 1] n by simp_all
  then have "bs ! 0 = 65" "bs ! 1 = 65" using s(2) by simp_all
  then have "bs = [65, 65]" using n by (auto simp: list_eq_iff_nth_eq less_2_cases_iff)
  moreover have "pipewrite 0 0 2 ?c = Some (Done (-1), 0, ?c)" using pipewrite_appends [OF my(2) invc ok(2), of 2 0] by simp
  ultimately show ?thesis using bs(3,5) n
    by - (rule exI [of _ ?s], rule exI [of _ "wakeup (Ch_nread 0) (upd_pipe 0 (fold pipe_put bs) ?s)"], simp)
qed

text \<open>
  C22: \<open>piperead\<close> of a pipe that has data or no writer returns the number \<open>k\<close> of bytes it stored from
  \<open>addr\<close> on: the first \<open>k\<close> bytes of the pipe, in order, and no other byte of the caller's memory
  changes. They leave the pipe. When it stops before \<open>n\<close> bytes with data left, because an
  address is not writable, one more byte has left the pipe and is lost. On an empty pipe with a
  writer it sleeps, or returns -1 when the caller is killed.
\<close>

theorem piperead_takes:
  assumes "myproc s = Some pr" and "user_inv s (pagetable (procs s pr)) ps" and "pipe_ok (pipes s pi)"
    and "0 \<le> n" and "n < 2 ^ 31"
  defines "pt \<equiv> pagetable (procs s pr)" and "it \<equiv> pipe_items (pipes s pi)"
  shows "if it = [] \<and> writeopen (pipes s pi) \<noteq> 0
    then piperead pi addr n s =
      Some (if is_killed pr s then (Done (-1), s) else (Sleep (Ch_nread pi), sleep_enter pr (Ch_nread pi) s))
    else \<exists>k s'. piperead pi addr n s = Some (Done (int k), s') \<and> int k \<le> n \<and> k \<le> length it \<and>
      user_bytes (mem s') pt addr (take k it) \<and>
      (\<forall>vb. \<not> unat (vb - addr) < k \<longrightarrow> ubyte (mem s') pt vb = ubyte (mem s) pt vb) \<and>
      pipe_items (pipes s' pi) = drop (if int k = n \<or> k = length it then k else Suc k) it \<and>
      (int k = n \<or> k = length it \<or> ubyte (mem s) pt (addr + of_nat k) = None)"
proof (cases "it = [] \<and> writeopen (pipes s pi) \<noteq> 0")
  case True
  then show ?thesis using pipe_fifo.nothing [OF assms(3)] assms(1) by (simp add: piperead_def it_def)
next
  case False
  then have ne: "\<not> (nread (pipes s pi) = nwrite (pipes s pi) \<and> writeopen (pipes s pi) \<noteq> 0)"
    using pipe_fifo.nothing [OF assms(3)] unfolding it_def by blast
  obtain k m' q where c: "piperead_copy pi pr addr n 0 s = Some (int k, s\<lparr>pipes := (pipes s)(pi := q), mem := m'\<rparr>)"
      "k \<le> length it" "int k \<le> n" "user_bytes m' pt addr (take k it)"
      "\<forall>vb. \<not> unat (vb - addr) < k \<longrightarrow> ubyte m' pt vb = ubyte (mem s) pt vb"
      "if int k = n \<or> k = length it then pipe_items q = drop k it
       else ubyte (mem s) pt (addr + of_int (int k)) = None \<and> pipe_items q = drop (Suc k) it"
    using piperead_copy_spec [OF assms(2) refl assms(3), of 0 n addr] assms(4,5)
    unfolding pt_def it_def of_int_0 add_0 add_0_right by blast
  have "piperead pi addr n s = Some (Done (int k), wakeup (Ch_nwrite pi) (s\<lparr>pipes := (pipes s)(pi := q), mem := m'\<rparr>))"
    using ne c(1) assms(1) by (simp add: piperead_def)
  then show ?thesis using False c(2-6)
    by (simp only: if_not_P not_False_eq_True)
      (intro exI [of _ k] exI [of _ "wakeup (Ch_nwrite pi) (s\<lparr>pipes := (pipes s)(pi := q), mem := m'\<rparr>)"],
       auto split: if_splits)
qed

theorem piperead_takes_witness:
  "\<exists>s :: ptabp. \<exists>s'. piperead 0 0 2 s = Some (Done 2, s') \<and> pipe_items (pipes s' 0) = [9]"
proof -
  obtain s :: kmem and pt ps where s: "user_inv s pt ps" "\<forall>vb < 4096. ubyte (mem s) pt vb = Some (if unat vb < 3 then 65 else 0)"
    using boot_mapped by blast
  let ?s = "boot_pipes s pt (boot_pipe [7, 8, 9])"
  have my: "myproc ?s = Some 0" and ok: "pipe_ok (pipes ?s 0)" by (simp_all add: pipe_ok_def boot_pipe_def)
  have it: "pipe_items (pipes ?s 0) = [7, 8, 9]" 
  proof -
    have "[0..<3] = [0, 1, 2 :: nat]" by (simp add: upt_rec)
    then show ?thesis by (simp add: pipe_items_def boot_pipe_def ring_items_def)
  qed
  have pt: "pagetable (procs ?s 0) = pt" by simp
  have inv: "user_inv ?s (pagetable (procs ?s 0)) ps" using boot_pipes_user [OF s(1)] by simp
  have len: "length [7, 8, 9 :: u8] = 3" by simp
  obtain k s' where k: "piperead 0 0 2 ?s = Some (Done (int k), s')" "int k \<le> 2"
      "pipe_items (pipes s' 0) = drop (if int k = 2 \<or> k = 3 then k else Suc k) [7, 8, 9]"
      "int k = 2 \<or> k = 3 \<or> ubyte (mem s) pt (of_nat k) = None"
    using piperead_takes [OF my inv ok, of 2 0, unfolded it pt list.distinct simp_thms if_False add_0] len by auto
  have "ubyte (mem s) pt (of_nat k) \<noteq> None" if "k < 2"
    using s(2) that by (cases k) (auto simp: less_Suc_eq)
  then have "k = 2" using k(2,4) by linarith
  with k show ?thesis by (rule_tac exI [of _ ?s], rule_tac exI [of _ s']) simp
qed

lemma kill_pid:
  assumes "pr < NPROC" and "\<And>q. q < NPROC \<Longrightarrow> pid (procs s q) = pid (procs s pr) \<Longrightarrow> q = pr"
  shows "kill (pid (procs s pr)) s =
    (0, upd_proc pr (\<lambda>q. q\<lparr>killed := 1, state := (if state q = SLEEPING then RUNNABLE else state q)\<rparr>) s)"
proof -
  have "find (\<lambda>p. pid (procs s p) = pid (procs s pr)) [0..<NPROC] = Some pr"
    unfolding find_upt using assms by (auto dest: less_trans)
  then show ?thesis by (simp add: kill_find)
qed

text \<open>
  C3: no wakeup is lost on a pipe. If no reader sleeps while there is data or no writer, and no
  writer sleeps while there is room or no reader, the same holds after every call of
  \<open>pipewrite\<close>, whether started or resumed after a sleep, of \<open>piperead\<close> and of \<open>pipeclose\<close> by the
  running process, when that process is not killed during the call.
\<close>

theorem pipe_no_lost_wakeup:
  assumes "no_lost_wakeup pi s" and "myproc s = Some pr" and "state (procs s pr) = RUNNING"
  shows "(pipewrite_loop pi pr addr n i s = Some (out, j, s1) \<longrightarrow> no_lost_wakeup pi s1) \<and>
    (piperead pi addr n s = Some (out, s1) \<longrightarrow> no_lost_wakeup pi s1) \<and>
    (pipeclose pi writable s = Some s1 \<longrightarrow> no_lost_wakeup pi s1)"
proof (intro conjI impI)
  have me: "\<not> asleep_on c s pr" for c using assms(3) by (simp add: asleep_on_def)
  assume w: "pipewrite_loop pi pr addr n i s = Some (out, j, s1)"
  show "no_lost_wakeup pi s1"
  proof (cases "i < n \<and> (readopen (pipes s pi) = 0 \<or> is_killed pr s)")
    case True
    then show ?thesis using w assms(1) by (simp add: pipewrite_loop.simps [of pi pr addr n i s] pipewrite_round_def)
  next
    case False
    show ?thesis
    proof (cases "i < n")
      case True
      have "nwrite (pipes s pi) = nread (pipes s pi) + PIPESIZE \<and> readopen (pipes s pi) \<noteq> 0"
        if "asleep_on (Ch_nwrite pi) s p" for p
        using that assms(1) by (auto simp: no_lost_wakeup_def)
      then show ?thesis using pipewrite_loop_wakes [OF w] True False assms(2,3) by auto
    next
      case False
      then show ?thesis using w assms(1,2) me
        by (auto simp: pipewrite_loop.simps [of pi pr addr n i s] no_lost_wakeup_def asleep_wakeup)
    qed
  qed
next
  have me: "\<not> asleep_on c s pr" for c using assms(3) by (simp add: asleep_on_def)
  assume r: "piperead pi addr n s = Some (out, s1)"
  show "no_lost_wakeup pi s1"
  proof (cases "nread (pipes s pi) = nwrite (pipes s pi) \<and> writeopen (pipes s pi) \<noteq> 0")
    case True
    then show ?thesis using r assms(1,2)
      by (auto simp: piperead_def no_lost_wakeup_def asleep_sleep_enter split: if_splits)
  next
    case False
    then obtain k s2 where c: "piperead_copy pi pr addr n 0 s = Some (k, s2)" "s1 = wakeup (Ch_nwrite pi) s2"
      using r assms(2) by (auto simp: piperead_def Option.bind_eq_Some_conv)
    have f: "procs s2 = procs s" "myproc s2 = myproc s" using piperead_copy_frame [OF c(1)] by simp_all
    have "\<not> asleep_on (Ch_nread pi) s p" for p using False assms(1) by (auto simp: no_lost_wakeup_def)
    then show ?thesis using me f assms(2)
      by (auto simp: c(2) no_lost_wakeup_def asleep_wakeup asleep_procs [OF f(1)])
  qed
next
  have me: "\<not> asleep_on c s pr" for c using assms(3) by (simp add: asleep_on_def)
  define t where "t = (if writable
    then wakeup (Ch_nread pi) (upd_pipe pi (\<lambda>q. q\<lparr>writeopen := 0\<rparr>) s)
    else wakeup (Ch_nwrite pi) (upd_pipe pi (\<lambda>q. q\<lparr>readopen := 0\<rparr>) s))"
  have my: "myproc (upd_pipe pi f s) = Some pr" for f using assms(2) by (simp add: myproc_def mycpu_def)
  have t: "no_lost_wakeup pi t"
    using assms(1) me my by (auto simp: t_def no_lost_wakeup_def asleep_wakeup)
  assume "pipeclose pi writable s = Some s1"
  then have "s1 = t \<or> kfree pi t = Some s1"
    unfolding pipeclose_def Let_def t_def [symmetric] by (simp split: if_splits)
  then have "only_mem t s1" using kfree_only_mem by auto
  then have "procs s1 = procs t" "pipes s1 = pipes t" by (rule only_mem_ptab, rule only_mem_pipes)
  then show "no_lost_wakeup pi s1" using t by (simp add: no_lost_wakeup_def asleep_procs [of s1 t])
qed

theorem pipe_no_lost_wakeup_witness:
  "\<exists>s :: ptabp. asleep_on (Ch_nread 0) s 1 \<and> (\<forall>out j s1. pipewrite_loop 0 0 0 3 0 s = Some (out, j, s1) \<longrightarrow> no_lost_wakeup 0 s1)"
proof -
  obtain s :: kmem where "True" by blast
  let ?s = "boot_pipes s 0 (boot_pipe [])"
  have as: "asleep_on (Ch_nread 0) ?s 1" by (simp add: asleep_on_def NPROC_def no_proc_def)
  have "no_lost_wakeup 0 ?s"
    by (auto simp: no_lost_wakeup_def asleep_on_def no_proc_def boot_pipe_def split: if_splits)
  from pipe_no_lost_wakeup [OF this, of 0 0 3 0] as show ?thesis by (intro exI [of _ ?s]) (auto simp: no_proc_def)
qed

text \<open>
  C35: the exception. A writer that is killed after it has put a byte into an empty pipe, in the
  same call, returns -1 without waking the readers: the reader stays asleep with data in the
  pipe and a writer open, so the wakeup is lost.
\<close>

theorem pipewrite_killed_strands_reader:
  assumes "user_inv s (pagetable (procs s pr)) ps" and "pipe_ok (pipes s pi)"
    and "pipe_items (pipes s pi) = []" and "readopen (pipes s pi) \<noteq> 0" and "\<not> is_killed pr s"
    and "ubyte (mem s) (pagetable (procs s pr)) addr = Some b"
    and "asleep_on (Ch_nread pi) s rd" and "rd \<noteq> pr"
    and "pr < NPROC" and "\<And>q. q < NPROC \<Longrightarrow> pid (procs s q) = pid (procs s pr) \<Longrightarrow> q = pr"
  shows "\<exists>s1 s2. pipewrite_round pi pr addr 0 s = Some (None, s1) \<and> kill (pid (procs s pr)) s1 = (0, s2) \<and>
    pipewrite_round pi pr addr 1 s2 = Some (Some (Done (-1)), s2) \<and>
    asleep_on (Ch_nread pi) s2 rd \<and> pipe_items (pipes s2 pi) = [b] \<and> writeopen (pipes s2 pi) = writeopen (pipes s pi)"
proof -
  have nf: "nwrite (pipes s pi) \<noteq> nread (pipes s pi) + PIPESIZE"
    using pipe_fifo.full [OF assms(2)] assms(3) by simp
  define s1 where "s1 = upd_pipe pi (pipe_put b) s"
  obtain d where "copyin (pagetable (procs s pr)) (\<lambda>_. 0) (addr + of_int 0) 1 s = Some (0, d)" "d 0 = b"
    using copyin_byte [OF assms(1), of "\<lambda>_. 0" addr] assms(6) by auto
  then have r: "pipewrite_round pi pr addr 0 s = Some (None, s1)"
    using assms(4,5) nf by (simp add: pipewrite_round_def s1_def)
  have p1: "procs s1 = procs s" by (simp add: s1_def)
  define s2 where "s2 = upd_proc pr (\<lambda>q. q\<lparr>killed := 1, state := (if state q = SLEEPING then RUNNABLE else state q)\<rparr>) s1"
  have "kill (pid (procs s pr)) s1 = (0, s2)"
    using kill_pid [OF assms(9), of s1] assms(10) by (simp add: p1 s2_def)
  moreover have "pipewrite_round pi pr addr 1 s2 = Some (Some (Done (-1)), s2)"
    by (simp add: pipewrite_round_def is_killed_def s2_def)
  moreover have "asleep_on (Ch_nread pi) s2 rd" using assms(7,8) p1 by (simp add: asleep_on_def s2_def)
  moreover have "pipe_items (pipes s2 pi) = [b]"
    using pipe_fifo.put [OF assms(2) nf, of b] assms(3) by (simp add: s2_def s1_def)
  moreover have "writeopen (pipes s2 pi) = writeopen (pipes s pi)" by (simp add: s2_def s1_def pipe_put_def)
  ultimately show ?thesis using r by blast
qed

theorem pipewrite_killed_strands_reader_witness:
  "\<exists>s s1 s2 :: ptabp. pipewrite_round 0 0 0 0 s = Some (None, s1) \<and> kill 1 s1 = (0, s2) \<and>
     pipewrite_round 0 0 0 1 s2 = Some (Some (Done (-1)), s2) \<and> asleep_on (Ch_nread 0) s2 1 \<and> pipe_items (pipes s2 0) = [65]"
proof -
  obtain s :: kmem and pt ps where s: "user_inv s pt ps" "\<forall>vb < 4096. ubyte (mem s) pt vb = Some (if unat vb < 3 then 65 else 0)"
    using boot_mapped by blast
  let ?s = "boot_pipes s pt (boot_pipe [])"
  have 1: "user_inv ?s (pagetable (procs ?s 0)) ps" using boot_pipes_user [OF s(1)] by simp
  have 2: "pipe_ok (pipes ?s 0)" "pipe_items (pipes ?s 0) = []" "readopen (pipes ?s 0) \<noteq> 0"
    by (simp_all add: pipe_ok_def boot_pipe_def pipe_items_def)
  have 3: "\<not> is_killed 0 ?s" "ubyte (mem ?s) (pagetable (procs ?s 0)) 0 = Some 65" "asleep_on (Ch_nread 0) ?s 1"
      "(1 :: nat) \<noteq> 0" "0 < NPROC"
    using s(2) by (simp_all add: is_killed_def no_proc_def asleep_on_def NPROC_def)
  have 4: "q = 0" if "pid (procs ?s q) = pid (procs ?s 0)" for q
    using that by (auto simp: no_proc_def split: if_splits)
  have "pid (procs ?s 0) = 1" by (simp add: no_proc_def)
  with pipewrite_killed_strands_reader [OF 1 2 3 4] show ?thesis by auto
qed

end
