(* ===== verification/Cache.thy ===== *)
theory Cache
  imports Prelude
begin

text \<open>
  The contract of a write-back block cache, as the log and the file system use it. The abstract
  state of a cache has, for every block: its current contents, how often it is referenced,
  whether it is locked, and the handle under which the running process holds it; further the disk,
  the writes to the disk so far, and the rest of the system.
\<close>

record ('b, 'c, 'h, 'r) cache =
  view :: "'b \<Rightarrow> 'c"
  refs :: "'b \<Rightarrow> nat"
  busy :: "'b \<Rightarrow> bool"
  hand :: "'b \<Rightarrow> 'h option"
  dsk :: "'b \<Rightarrow> 'c"
  wr :: "('b \<times> 'c) list"
  rest :: 'r

definition c_read :: "'b \<Rightarrow> 'h \<Rightarrow> ('b, 'c, 'h, 'r) cache \<Rightarrow> ('b, 'c, 'h, 'r) cache" where
  "c_read b h a = a\<lparr>refs := (refs a)(b := Suc (refs a b)), busy := (busy a)(b := True), hand := (hand a)(b := Some h)\<rparr>"

definition c_write :: "'b \<Rightarrow> ('b, 'c, 'h, 'r) cache \<Rightarrow> ('b, 'c, 'h, 'r) cache" where
  "c_write b a = a\<lparr>dsk := (dsk a)(b := view a b), wr := wr a @ [(b, view a b)]\<rparr>"

definition c_release :: "'b \<Rightarrow> ('b, 'c, 'h, 'r) cache \<Rightarrow> ('b, 'c, 'h, 'r) cache" where
  "c_release b a = a\<lparr>refs := (refs a)(b := refs a b - 1), busy := (busy a)(b := False), hand := (hand a)(b := None)\<rparr>"

definition c_modify :: "'b \<Rightarrow> 'c \<Rightarrow> ('b, 'c, 'h, 'r) cache \<Rightarrow> ('b, 'c, 'h, 'r) cache" where
  "c_modify b x a = a\<lparr>view := (view a)(b := x)\<rparr>"

definition c_pin :: "'b \<Rightarrow> ('b, 'c, 'h, 'r) cache \<Rightarrow> ('b, 'c, 'h, 'r) cache" where
  "c_pin b a = a\<lparr>refs := (refs a)(b := Suc (refs a b))\<rparr>"

definition c_unpin :: "'b \<Rightarrow> ('b, 'c, 'h, 'r) cache \<Rightarrow> ('b, 'c, 'h, 'r) cache" where
  "c_unpin b a = a\<lparr>refs := (refs a)(b := refs a b - 1)\<rparr>"

lemmas c_defs = c_read_def c_write_def c_release_def c_modify_def c_pin_def c_unpin_def

lemma c_release_read: "\<not> busy a b \<Longrightarrow> hand a b = None \<Longrightarrow> c_release b (c_read b h a) = a"
  by (cases a) (auto simp: c_defs fun_eq_iff)

definition room :: "nat \<Rightarrow> 'b \<Rightarrow> ('b, 'c, 'h, 'r) cache \<Rightarrow> bool" where
  "room cap b a \<longleftrightarrow> 0 < refs a b \<or> card {x. 0 < refs a x} < cap"

locale block_cache =
  fixes inv :: "'s \<Rightarrow> bool"
    and A :: "'s \<Rightarrow> ('b, 'c, 'h, 'r) cache"
    and cap maxref :: nat
    and rd :: "'b \<Rightarrow> 's \<Rightarrow> ('h \<times> 's) option"
    and wt rel :: "'h \<Rightarrow> 's \<Rightarrow> 's option"
    and pin unpin :: "'h \<Rightarrow> 's \<Rightarrow> 's"
    and content :: "'h \<Rightarrow> 's \<Rightarrow> 'c"
    and modify :: "'h \<Rightarrow> 'c \<Rightarrow> 's \<Rightarrow> 's"
  assumes rd: "inv s \<Longrightarrow> \<not> busy (A s) b \<Longrightarrow> refs (A s) b < maxref \<Longrightarrow> room cap b (A s) \<Longrightarrow>
      \<exists>h s'. rd b s = Some (h, s') \<and> inv s' \<and> A s' = c_read b h (A s)"
    and wt: "inv s \<Longrightarrow> hand (A s) b = Some h \<Longrightarrow> \<exists>s'. wt h s = Some s' \<and> inv s' \<and> A s' = c_write b (A s)"
    and rel: "inv s \<Longrightarrow> hand (A s) b = Some h \<Longrightarrow> 1 < refs (A s) b \<or> view (A s) b = dsk (A s) b \<Longrightarrow>
      \<exists>s'. rel h s = Some s' \<and> inv s' \<and> A s' = c_release b (A s)"
    and pin: "inv s \<Longrightarrow> hand (A s) b = Some h \<Longrightarrow> refs (A s) b < maxref \<Longrightarrow>
      inv (pin h s) \<and> A (pin h s) = c_pin b (A s)"
    and unpin: "inv s \<Longrightarrow> hand (A s) b = Some h \<Longrightarrow> 1 < refs (A s) b \<Longrightarrow>
      inv (unpin h s) \<and> A (unpin h s) = c_unpin b (A s)"
    and content: "inv s \<Longrightarrow> hand (A s) b = Some h \<Longrightarrow> content h s = view (A s) b"
    and modify: "inv s \<Longrightarrow> hand (A s) b = Some h \<Longrightarrow> inv (modify h x s) \<and> A (modify h x s) = c_modify b x (A s)"
    and referenced: "inv s \<Longrightarrow> finite {b. 0 < refs (A s) b}"
    and held: "inv s \<Longrightarrow> hand (A s) b = Some h \<Longrightarrow> 0 < refs (A s) b \<and> busy (A s) b"
begin

text \<open>
  Reading a block without changing it leaves the abstract state as it was.
\<close>

lemma read_release:
  assumes "inv s" and "\<not> busy (A s) b" and "refs (A s) b < maxref" and "room cap b (A s)"
    and "0 < refs (A s) b \<or> view (A s) b = dsk (A s) b" and "hand (A s) b = None"
  shows "\<exists>h s1 s2. rd b s = Some (h, s1) \<and> inv s1 \<and> content h s1 = view (A s) b \<and> A s1 = c_read b h (A s) \<and>
    rel h s1 = Some s2 \<and> inv s2 \<and> A s2 = A s"
proof -
  obtain h s1 where 1: "rd b s = Some (h, s1)" "inv s1" "A s1 = c_read b h (A s)" using rd assms by blast
  then have h: "hand (A s1) b = Some h" by (simp add: c_defs)
  moreover have "1 < refs (A s1) b \<or> view (A s1) b = dsk (A s1) b" using 1(3) assms(5) by (auto simp: c_defs)
  ultimately obtain s2 where 2: "rel h s1 = Some s2" "inv s2" "A s2 = c_release b (A s1)" using rel 1(2) by blast
  have "A s2 = A s" using 2(3) c_release_read [OF assms(2,6)] unfolding 1(3) by simp
  moreover have "content h s1 = view (A s) b" using content [OF 1(2) h] 1(3) by (simp add: c_defs)
  ultimately show ?thesis using 1 2 by blast
qed

lemma roomI: "finite {x. 0 < refs a x} \<Longrightarrow> card ({x. 0 < refs a x} \<union> {b}) \<le> cap \<Longrightarrow> room cap b a"
  by (cases "0 < refs a b") (auto simp: room_def card_insert_if)

text \<open>
  Copying block \<open>src\<close> over block \<open>dst\<close> and writing it through to the disk: the state in which both
  are held and \<open>dst\<close> is written.
\<close>

lemma read_two:
  assumes "inv s" and "b1 \<noteq> b2" and "\<not> busy (A s) b1" and "\<not> busy (A s) b2"
    and "refs (A s) b1 < maxref" and "refs (A s) b2 < maxref"
    and "card ({x. 0 < refs (A s) x} \<union> {b1, b2}) \<le> cap"
  shows "\<exists>h1 s1 h2 s2. rd b1 s = Some (h1, s1) \<and> rd b2 s1 = Some (h2, s2) \<and> inv s2 \<and>
    A s1 = c_read b1 h1 (A s) \<and> A s2 = c_read b2 h2 (c_read b1 h1 (A s))"
proof -
  have fin: "finite {x. 0 < refs (A s) x}" by (rule referenced [OF assms(1)])
  have "card ({x. 0 < refs (A s) x} \<union> {b1}) \<le> card ({x. 0 < refs (A s) x} \<union> {b1, b2})"
    using fin by (intro card_mono) auto
  then have "room cap b1 (A s)" using assms(7) fin by (intro roomI) auto
  then obtain h1 s1 where 1: "rd b1 s = Some (h1, s1)" "inv s1" "A s1 = c_read b1 h1 (A s)"
    using rd assms by blast
  have e: "{x. 0 < refs (A s1) x} = {x. 0 < refs (A s) x} \<union> {b1}" by (auto simp: 1(3) c_defs)
  have "room cap b2 (A s1)" using assms(7) fin unfolding room_def
    by (intro roomI [unfolded room_def]) (auto simp: e Un_insert_right insert_commute)
  moreover have "\<not> busy (A s1) b2" "refs (A s1) b2 < maxref" using assms(2,4,6) by (simp_all add: 1(3) c_defs)
  ultimately obtain h2 s2 where "rd b2 s1 = Some (h2, s2)" "inv s2" "A s2 = c_read b2 h2 (A s1)"
    using rd 1(2) by blast
  then show ?thesis using 1 by auto
qed

lemma copy_through:
  assumes "inv s" and "hand (A s) src = Some hs" and "hand (A s) dst = Some ht"
  shows "\<exists>s'. wt ht (modify ht (content hs s) s) = Some s' \<and> inv s' \<and>
    A s' = c_write dst (c_modify dst (view (A s) src) (A s))"
proof -
  have m: "inv (modify ht (content hs s) s)" "A (modify ht (content hs s) s) = c_modify dst (view (A s) src) (A s)"
    using modify [OF assms(1,3)] content [OF assms(1,2)] by auto
  moreover have "hand (A (modify ht (content hs s) s)) dst = Some ht" using assms(3) by (simp add: m c_defs)
  ultimately show ?thesis using wt by metis
qed

end

end
