(* ===== verification/Bio.thy ===== *)
theory Bio
  imports Pipe Cache
begin

text \<open>
  Sleep locks, \<^verbatim>\<open>kernel/sleeplock.c\<close>, and the buffer cache, \<^verbatim>\<open>kernel/bio.c\<close>.

  A sleep lock is named by its address, which is also the channel its waiters sleep on. The
  functions that take sleep locks deep inside the file system are modelled for the runs in which
  they find them free: \<open>at_once\<close> turns a call that would sleep into \<open>None\<close>.

  The cache is the array of buffers with its circular list: buffer \<open>i\<close> of \<open>bcache.buf\<close> is number
  \<open>i\<close>, and \<open>bcache.head\<close> is number \<open>NBUF\<close>. The disk is the sequence of blocks that the transfers of
  \<open>virtio_disk_rw\<close> read and write, with the list of all writes so far.
\<close>

section \<open>Sleep locks\<close>

record sleeplock =
  slocked :: u32
  sname :: string
  spid :: int

record slp = ptabp +
  slocks :: "chan \<Rightarrow> sleeplock"

abbreviation upd_slock :: "chan \<Rightarrow> (sleeplock \<Rightarrow> sleeplock) \<Rightarrow> 'a slp_scheme \<Rightarrow> 'a slp_scheme" where
  "upd_slock lk f s \<equiv> s\<lparr>slocks := (slocks s)(lk := f (slocks s lk))\<rparr>"

definition initsleeplock :: "chan \<Rightarrow> string \<Rightarrow> 'a slp_scheme \<Rightarrow> 'a slp_scheme" where
  "initsleeplock lk nm s = upd_slock lk (\<lambda>_. \<lparr>slocked = 0, sname = nm, spid = 0\<rparr>) s"

definition acquiresleep :: "chan \<Rightarrow> 'a slp_scheme \<Rightarrow> (unit outcome \<times> 'a slp_scheme) option" where
  "acquiresleep lk s =
     do {
       p \<leftarrow> myproc s;
       if slocked (slocks s lk) \<noteq> 0 then Some (Sleep lk, sleep_enter p lk s)
       else Some (Done (), upd_slock lk (\<lambda>l. l\<lparr>slocked := 1, spid := pid (procs s p)\<rparr>) s)
     }"

definition releasesleep :: "chan \<Rightarrow> 'a slp_scheme \<Rightarrow> 'a slp_scheme" where
  "releasesleep lk s = wakeup lk (upd_slock lk (\<lambda>l. l\<lparr>slocked := 0, spid := 0\<rparr>) s)"

definition holdingsleep :: "chan \<Rightarrow> 'a slp_scheme \<Rightarrow> bool option" where
  "holdingsleep lk s =
     do { p \<leftarrow> myproc s; Some (slocked (slocks s lk) \<noteq> 0 \<and> spid (slocks s lk) = pid (procs s p)) }"

text \<open>The runs of a call that do not sleep.\<close>

fun at_once :: "('r outcome \<times> 's) option \<Rightarrow> ('r \<times> 's) option" where
  "at_once (Some (Done r, s)) = Some (r, s)"
| "at_once (Some (Sleep c, s)) = None"
| "at_once None = None"

section \<open>The buffer cache\<close>

record buf =
  bvalid :: int
  bdev :: u32
  blockno :: u32
  refcnt :: u32
  bprev :: nat
  bnext :: nat
  bdata :: bytes

record bio = slp +
  bufs :: "nat \<Rightarrow> buf"
  disk :: "u32 \<Rightarrow> bytes"
  dwrites :: "(u32 \<times> bytes) list"

abbreviation upd_buf :: "nat \<Rightarrow> (buf \<Rightarrow> buf) \<Rightarrow> 'a bio_scheme \<Rightarrow> 'a bio_scheme" where
  "upd_buf b f s \<equiv> s\<lparr>bufs := (bufs s)(b := f (bufs s b))\<rparr>"

text \<open>Putting a buffer that is in no list behind the head, as \<open>binit\<close> and \<open>brelse\<close> do.\<close>

definition link_front :: "nat \<Rightarrow> 'a bio_scheme \<Rightarrow> 'a bio_scheme" where
  "link_front b s =
     (let s = upd_buf b (\<lambda>x. x\<lparr>bnext := bnext (bufs s NBUF)\<rparr>) s;
          s = upd_buf b (\<lambda>x. x\<lparr>bprev := NBUF\<rparr>) s;
          s = upd_buf (bnext (bufs s NBUF)) (\<lambda>x. x\<lparr>bprev := b\<rparr>) s
      in upd_buf NBUF (\<lambda>x. x\<lparr>bnext := b\<rparr>) s)"

definition binit :: "'a bio_scheme \<Rightarrow> 'a bio_scheme" where
  "binit s =
     (let s = upd_buf NBUF (\<lambda>x. x\<lparr>bprev := NBUF, bnext := NBUF\<rparr>) s
      in fold (\<lambda>b s. initsleeplock (Ch_buf b) ''buffer'' (link_front b s)) [0..<NBUF] s)"

text \<open>A scan of the list in one direction up to the head: the first buffer with the property.\<close>

partial_function (option) scan :: "(buf \<Rightarrow> nat) \<Rightarrow> (buf \<Rightarrow> bool) \<Rightarrow> (nat \<Rightarrow> buf) \<Rightarrow> nat \<Rightarrow> nat option option" where
  "scan dir P bs b =
     (if b = NBUF then Some None else if P (bs b) then Some (Some b) else scan dir P bs (dir (bs b)))"

definition bget :: "u32 \<Rightarrow> u32 \<Rightarrow> 'a bio_scheme \<Rightarrow> (nat \<times> 'a bio_scheme) option" where
  "bget d bno s =
     do {
       hit \<leftarrow> scan bnext (\<lambda>b. bdev b = d \<and> blockno b = bno) (bufs s) (bnext (bufs s NBUF));
       case hit of
         Some b \<Rightarrow> do {
           let s = upd_buf b (\<lambda>x. x\<lparr>refcnt := refcnt x + 1\<rparr>) s;
           (_, s) \<leftarrow> at_once (acquiresleep (Ch_buf b) s);
           Some (b, s)
         }
       | None \<Rightarrow> do {
           unused \<leftarrow> scan bprev (\<lambda>b. refcnt b = 0) (bufs s) (bprev (bufs s NBUF));
           b \<leftarrow> unused;
           let s = upd_buf b (\<lambda>x. x\<lparr>bdev := d, blockno := bno, bvalid := 0, refcnt := 1\<rparr>) s;
           (_, s) \<leftarrow> at_once (acquiresleep (Ch_buf b) s);
           Some (b, s)
         }
     }"

text \<open>A transfer between a buffer and the disk, which ignores the device number.\<close>

definition disk_transfer :: "nat \<Rightarrow> bool \<Rightarrow> 'a bio_scheme \<Rightarrow> 'a bio_scheme" where
  "disk_transfer b write s =
     (if write
      then s\<lparr>disk := (disk s)(blockno (bufs s b) := bdata (bufs s b)),
             dwrites := dwrites s @ [(blockno (bufs s b), bdata (bufs s b))]\<rparr>
      else upd_buf b (\<lambda>x. x\<lparr>bdata := disk s (blockno x)\<rparr>) s)"

definition bread :: "u32 \<Rightarrow> u32 \<Rightarrow> 'a bio_scheme \<Rightarrow> (nat \<times> 'a bio_scheme) option" where
  "bread d bno s =
     do {
       (b, s) \<leftarrow> bget d bno s;
       Some (b, if bvalid (bufs s b) = 0 then upd_buf b (\<lambda>x. x\<lparr>bvalid := 1\<rparr>) (disk_transfer b False s) else s)
     }"

definition bwrite :: "nat \<Rightarrow> 'a bio_scheme \<Rightarrow> 'a bio_scheme option" where
  "bwrite b s = do { h \<leftarrow> holdingsleep (Ch_buf b) s; if \<not> h then None else Some (disk_transfer b True s) }"

definition unlink_buf :: "nat \<Rightarrow> 'a bio_scheme \<Rightarrow> 'a bio_scheme" where
  "unlink_buf b s =
     (let s = upd_buf (bnext (bufs s b)) (\<lambda>x. x\<lparr>bprev := bprev (bufs s b)\<rparr>) s
      in upd_buf (bprev (bufs s b)) (\<lambda>x. x\<lparr>bnext := bnext (bufs s b)\<rparr>) s)"

definition brelse :: "nat \<Rightarrow> 'a bio_scheme \<Rightarrow> 'a bio_scheme option" where
  "brelse b s =
     do {
       h \<leftarrow> holdingsleep (Ch_buf b) s;
       if \<not> h then None
       else let s = releasesleep (Ch_buf b) s;
                s = upd_buf b (\<lambda>x. x\<lparr>refcnt := refcnt x - 1\<rparr>) s
         in Some (if refcnt (bufs s b) = 0 then link_front b (unlink_buf b s) else s)
     }"

definition bpin :: "nat \<Rightarrow> 'a bio_scheme \<Rightarrow> 'a bio_scheme" where
  "bpin b s = upd_buf b (\<lambda>x. x\<lparr>refcnt := refcnt x + 1\<rparr>) s"

definition bunpin :: "nat \<Rightarrow> 'a bio_scheme \<Rightarrow> 'a bio_scheme" where
  "bunpin b s = upd_buf b (\<lambda>x. x\<lparr>refcnt := refcnt x - 1\<rparr>) s"

section \<open>The list of buffers\<close>

text \<open>\<open>seg nx pv a xs b\<close>: from \<open>a\<close> through \<open>xs\<close> to \<open>b\<close>, with matching links in both directions.\<close>

fun seg :: "(nat \<Rightarrow> nat) \<Rightarrow> (nat \<Rightarrow> nat) \<Rightarrow> nat \<Rightarrow> nat list \<Rightarrow> nat \<Rightarrow> bool" where
  "seg nx pv a [] b \<longleftrightarrow> nx a = b \<and> pv b = a"
| "seg nx pv a (x # xs) b \<longleftrightarrow> nx a = x \<and> pv x = a \<and> seg nx pv x xs b"

lemma seg_append: "seg nx pv a (xs @ y # ys) b \<longleftrightarrow> seg nx pv a xs y \<and> seg nx pv y ys b"
  by (induction xs arbitrary: a) auto

lemma seg_cong:
  assumes "\<And>x. x \<in> set (a # xs) \<Longrightarrow> nx' x = nx x" and "\<And>x. x \<in> set xs \<union> {b} \<Longrightarrow> pv' x = pv x"
  shows "seg nx' pv' a xs b = seg nx pv a xs b"
  using assms by (induction xs arbitrary: a) auto

lemma seg_ends: "seg nx pv a xs b \<Longrightarrow> pv b = last (a # xs) \<and> nx a = hd (xs @ [b])"
  by (induction xs arbitrary: a) auto

lemma seg_retarget:
  assumes "seg nx pv a xs b" and "distinct (a # xs)" and "c \<notin> set xs"
  shows "seg (nx(last (a # xs) := c)) (pv(c := last (a # xs))) a xs c"
  using assms
proof (induction xs arbitrary: a)
  case (Cons x xs)
  then have "seg nx pv x xs b" "distinct (x # xs)" "c \<notin> set xs" by simp_all
  from Cons.IH [OF this] have "seg (nx(last (x # xs) := c)) (pv(c := last (x # xs))) x xs c" .
  with Cons.prems show ?case by (auto simp del: fun_upd_apply) (auto simp: last_in_set)
qed simp

lemma seg_rev_scan: "seg nx pv a (xs @ [y]) b \<Longrightarrow> pv b = y \<and> seg nx pv a xs y"
  by (simp add: seg_append)

text \<open>The circular list of the cache, most recently used buffer first.\<close>

definition lru :: "(nat \<Rightarrow> buf) \<Rightarrow> nat list \<Rightarrow> bool" where
  "lru bs xs \<longleftrightarrow> distinct xs \<and> set xs = {..<NBUF} \<and> seg (\<lambda>i. bnext (bs i)) (\<lambda>i. bprev (bs i)) NBUF xs NBUF"

declare NBUF_def [simp del]

lemma lru_cong: "(\<And>i. bnext (bs' i) = bnext (bs i) \<and> bprev (bs' i) = bprev (bs i)) \<Longrightarrow> lru bs' xs = lru bs xs"
  by (simp add: lru_def)

lemma scan_next:
  "seg (\<lambda>i. bnext (bs i)) pv a xs NBUF \<Longrightarrow> NBUF \<notin> set xs \<Longrightarrow>
   scan bnext P bs (bnext (bs a)) = Some (find (\<lambda>i. P (bs i)) xs)"
proof (induction xs arbitrary: a)
  case Nil
  then show ?case by (simp add: scan.simps)
next
  case (Cons x xs)
  then show ?case by (subst scan.simps) auto
qed

lemma scan_prev:
  "seg nx (\<lambda>i. bprev (bs i)) NBUF xs b \<Longrightarrow> NBUF \<notin> set xs \<Longrightarrow>
   scan bprev P bs (bprev (bs b)) = Some (find (\<lambda>i. P (bs i)) (rev xs))"
proof (induction xs arbitrary: b rule: rev_induct)
  case Nil
  then show ?case by (simp add: scan.simps)
next
  case (snoc x xs)
  then have "bprev (bs b) = x" "seg nx (\<lambda>i. bprev (bs i)) NBUF xs x" using seg_rev_scan by blast+
  moreover have "x \<noteq> NBUF" "NBUF \<notin> set xs" using snoc.prems(2) by auto
  ultimately show ?case using snoc.IH by (subst scan.simps) auto
qed

lemma lru_scans:
  assumes "lru bs xs"
  shows "scan bnext P bs (bnext (bs NBUF)) = Some (find (\<lambda>i. P (bs i)) xs)"
    "scan bprev P bs (bprev (bs NBUF)) = Some (find (\<lambda>i. P (bs i)) (rev xs))"
  using assms scan_next [of bs _ NBUF xs P] scan_prev [of _ bs xs NBUF P] by (auto simp: lru_def)

text \<open>Unlinking a buffer and putting it in front moves it to the front of the list.\<close>

lemma seg_front:
  assumes "seg nx pv h xs h" and "h \<notin> set xs" and "b \<notin> set xs" and "b \<noteq> h" and "distinct xs"
  shows "seg (nx(b := nx h, h := b)) (pv(b := h, nx h := b)) h (b # xs) h"
proof (cases xs)
  case Nil
  then show ?thesis using assms by auto
next
  case (Cons x ys)
  with assms have "seg nx pv x ys h" "nx h = x" by auto
  then have "seg (nx(b := x, h := b)) (pv(b := h, x := b)) x ys h"
    using Cons assms by (subst seg_cong [of _ _ _ nx _ _ pv]) auto
  then show ?thesis using Cons assms by auto
qed

lemma seg_unlink:
  assumes "seg nx pv h (us @ b # vs) h" and "distinct (us @ b # vs)" and "h \<notin> set (us @ b # vs)"
  shows "seg (nx(pv b := nx b)) (pv(nx b := pv b)) h (us @ vs) h"
proof -
  have s: "seg nx pv h us b" "seg nx pv b vs h" using assms(1) by (auto simp: seg_append)
  have e: "pv b = last (h # us)" "nx b = hd (vs @ [h])" using seg_ends s by blast+
  have l: "last (h # us) \<in> set (h # us)" by (rule last_in_set) simp
  show ?thesis
  proof (cases vs)
    case Nil
    then have "seg (nx(last (h # us) := h)) (pv(h := last (h # us))) h us h"
      using seg_retarget [OF s(1)] assms by auto
    then show ?thesis using Nil e by simp
  next
    case (Cons v ws)
    have 1: "seg (nx(last (h # us) := v)) (pv(v := last (h # us))) h us v"
      using seg_retarget [OF s(1), of v] assms Cons by auto
    have "seg nx pv v ws h" using s(2) Cons by simp
    then have "seg (nx(last (h # us) := v)) (pv(v := last (h # us))) v ws h"
      using assms Cons l by (subst seg_cong [of _ _ _ nx _ _ pv]) auto
    then show ?thesis using Cons e 1 by (simp add: seg_append)
  qed
qed

section \<open>The abstract cache\<close>

text \<open>Buffer \<open>i\<close> caches block \<open>b\<close> of device \<open>d\<close>.\<close>

definition caches :: "u32 \<Rightarrow> 'a bio_scheme \<Rightarrow> u32 \<Rightarrow> nat \<Rightarrow> bool" where
  "caches d s b i \<longleftrightarrow> i < NBUF \<and> bdev (bufs s i) = d \<and> blockno (bufs s i) = b"

definition buf_of :: "u32 \<Rightarrow> 'a bio_scheme \<Rightarrow> u32 \<Rightarrow> nat option" where
  "buf_of d s b = find (caches d s b) [0..<NBUF]"

definition mypid :: "'a ptab_scheme \<Rightarrow> int option" where
  "mypid s = map_option (\<lambda>p. pid (procs s p)) (myproc s)"

text \<open>What the cache does not touch; waking a process changes its state only.\<close>

definition bio_rest :: "'a bio_scheme \<Rightarrow> 'a bio_scheme" where
  "bio_rest s = s\<lparr>procs := (\<lambda>p. (procs s p)\<lparr>state := UNUSED\<rparr>),
     slocks := (\<lambda>l. case l of Ch_buf _ \<Rightarrow> \<lparr>slocked = 0, sname = [], spid = 0\<rparr> | _ \<Rightarrow> slocks s l),
     bufs := (\<lambda>_. \<lparr>bvalid = 0, bdev = 0, blockno = 0, refcnt = 0, bprev = 0, bnext = 0, bdata = (\<lambda>_. 0)\<rparr>),
     disk := (\<lambda>_ _. 0), dwrites := []\<rparr>"

definition bio_abs :: "u32 \<Rightarrow> 'a bio_scheme \<Rightarrow> (u32, bytes, nat, 'a bio_scheme) cache" where
  "bio_abs d s =
     \<lparr>view = (\<lambda>b. case buf_of d s b of Some i \<Rightarrow> (if bvalid (bufs s i) \<noteq> 0 then bdata (bufs s i) else disk s b) | None \<Rightarrow> disk s b),
      refs = (\<lambda>b. case buf_of d s b of Some i \<Rightarrow> unat (refcnt (bufs s i)) | None \<Rightarrow> 0),
      busy = (\<lambda>b. case buf_of d s b of Some i \<Rightarrow> slocked (slocks s (Ch_buf i)) \<noteq> 0 | None \<Rightarrow> False),
      hand = (\<lambda>b. case buf_of d s b of
          Some i \<Rightarrow> (if slocked (slocks s (Ch_buf i)) \<noteq> 0 \<and> Some (spid (slocks s (Ch_buf i))) = mypid s then Some i else None)
        | None \<Rightarrow> None),
      dsk = disk s, wr = dwrites s, rest = bio_rest s\<rparr>"

definition bio_inv :: "u32 \<Rightarrow> 'a bio_scheme \<Rightarrow> bool" where
  "bio_inv d s \<longleftrightarrow> (\<exists>xs. lru (bufs s) xs) \<and>
     (\<forall>i < NBUF. \<forall>j < NBUF. bdev (bufs s i) = d \<longrightarrow> bdev (bufs s j) = d \<longrightarrow> blockno (bufs s i) = blockno (bufs s j) \<longrightarrow> i = j) \<and>
     (\<forall>i < NBUF. bdev (bufs s i) = d \<or> bvalid (bufs s i) = 0 \<and> refcnt (bufs s i) = 0) \<and>
     (\<forall>i < NBUF. bvalid (bufs s i) \<noteq> 0 \<longrightarrow> refcnt (bufs s i) = 0 \<longrightarrow> bdata (bufs s i) = disk s (blockno (bufs s i))) \<and>
     (\<forall>i < NBUF. slocked (slocks s (Ch_buf i)) \<noteq> 0 \<longrightarrow> refcnt (bufs s i) \<noteq> 0) \<and>
     (\<forall>i < NBUF. refcnt (bufs s i) \<noteq> 0 \<longrightarrow> bvalid (bufs s i) \<noteq> 0) \<and>
     myproc s \<noteq> None"

lemma bio_invD:
  assumes "bio_inv d s"
  shows "\<exists>xs. lru (bufs s) xs" "caches d s b i \<Longrightarrow> caches d s b j \<Longrightarrow> i = j"
    "i < NBUF \<Longrightarrow> bdev (bufs s i) \<noteq> d \<Longrightarrow> bvalid (bufs s i) = 0 \<and> refcnt (bufs s i) = 0"
    "i < NBUF \<Longrightarrow> bvalid (bufs s i) \<noteq> 0 \<Longrightarrow> refcnt (bufs s i) = 0 \<Longrightarrow> bdata (bufs s i) = disk s (blockno (bufs s i))"
    "i < NBUF \<Longrightarrow> slocked (slocks s (Ch_buf i)) \<noteq> 0 \<Longrightarrow> refcnt (bufs s i) \<noteq> 0"
    "i < NBUF \<Longrightarrow> refcnt (bufs s i) \<noteq> 0 \<Longrightarrow> bvalid (bufs s i) \<noteq> 0"
    "myproc s \<noteq> None"
  using assms unfolding bio_inv_def caches_def by blast+

lemma buf_of_Some: "buf_of d s b = Some i \<Longrightarrow> caches d s b i"
  unfolding buf_of_def by (auto simp: find_Some_iff)

lemma buf_of_iff: "bio_inv d s \<Longrightarrow> buf_of d s b = Some i \<longleftrightarrow> caches d s b i"
proof
  assume inv: "bio_inv d s" and c: "caches d s b i"
  have "i < NBUF" using c by (simp add: caches_def)
  with c have "buf_of d s b \<noteq> None" by (auto simp: buf_of_def find_None_iff)
  then obtain j where j: "buf_of d s b = Some j" by blast
  then show "buf_of d s b = Some i" using bio_invD(2) [OF inv c buf_of_Some [OF j]] by simp
qed (rule buf_of_Some)

text \<open>
  Where only one buffer changes, and it keeps its block, the abstract state changes at that
  block only.
\<close>

lemma buf_of_upd:
  assumes "\<And>j. j < NBUF \<Longrightarrow> bdev (bufs s' j) = bdev (bufs s j) \<and> blockno (bufs s' j) = blockno (bufs s j)"
  shows "buf_of d s' = buf_of d s"
proof -
  have "caches d s' b = caches d s b" for b using assms by (auto simp: caches_def fun_eq_iff)
  then show ?thesis unfolding buf_of_def by (intro ext) (simp only:)
qed

lemma hand_buf_of:
  "hand (bio_abs d s) b = Some i \<longleftrightarrow> buf_of d s b = Some i \<and> slocked (slocks s (Ch_buf i)) \<noteq> 0 \<and> Some (spid (slocks s (Ch_buf i))) = mypid s"
  by (auto simp: bio_abs_def split: option.splits if_splits)

lemma holdingsleep_hand:
  assumes "bio_inv d s" "hand (bio_abs d s) b = Some i"
  shows "holdingsleep (Ch_buf i) s = Some True" "caches d s b i" "refcnt (bufs s i) \<noteq> 0" "bvalid (bufs s i) \<noteq> 0"
    "i < NBUF" "blockno (bufs s i) = b" "bdev (bufs s i) = d" "slocked (slocks s (Ch_buf i)) \<noteq> 0"
    "Some (spid (slocks s (Ch_buf i))) = mypid s" "buf_of d s b = Some i"
proof -
  have h: "buf_of d s b = Some i" "slocked (slocks s (Ch_buf i)) \<noteq> 0" "Some (spid (slocks s (Ch_buf i))) = mypid s"
    using assms(2) by (simp_all add: hand_buf_of)
  then show "caches d s b i" "buf_of d s b = Some i" "slocked (slocks s (Ch_buf i)) \<noteq> 0"
      "Some (spid (slocks s (Ch_buf i))) = mypid s" by (simp_all add: buf_of_Some)
  then show i: "i < NBUF" "blockno (bufs s i) = b" "bdev (bufs s i) = d" by (simp_all add: caches_def)
  show "refcnt (bufs s i) \<noteq> 0" using bio_invD(5) [OF assms(1) i(1) h(2)] .
  then show "bvalid (bufs s i) \<noteq> 0" using bio_invD(6) [OF assms(1) i(1)] by blast
  obtain p where "myproc s = Some p" using bio_invD(7) [OF assms(1)] by blast
  then show "holdingsleep (Ch_buf i) s = Some True" using h by (simp add: holdingsleep_def mypid_def)
qed

definition only_buf :: "nat \<Rightarrow> 'a bio_scheme \<Rightarrow> 'a bio_scheme \<Rightarrow> bool" where
  "only_buf i s s' \<longleftrightarrow> mypid s' = mypid s \<and> (\<forall>j < NBUF. bdev (bufs s' j) = bdev (bufs s j) \<and> blockno (bufs s' j) = blockno (bufs s j) \<and>
     (j \<noteq> i \<longrightarrow> bvalid (bufs s' j) = bvalid (bufs s j) \<and> refcnt (bufs s' j) = refcnt (bufs s j) \<and>
        bdata (bufs s' j) = bdata (bufs s j) \<and> slocks s' (Ch_buf j) = slocks s (Ch_buf j)))"

lemma bio_inv_only_buf:
  assumes inv: "bio_inv d s" and c: "caches d s b i" and o: "only_buf i s s'"
    and dk: "\<And>x. x \<noteq> b \<Longrightarrow> disk s' x = disk s x" and l: "lru (bufs s') xs" and my: "myproc s' \<noteq> None"
    and i: "bvalid (bufs s' i) \<noteq> 0 \<Longrightarrow> refcnt (bufs s' i) = 0 \<Longrightarrow> bdata (bufs s' i) = disk s' b"
      "slocked (slocks s' (Ch_buf i)) \<noteq> 0 \<Longrightarrow> refcnt (bufs s' i) \<noteq> 0"
      "refcnt (bufs s' i) \<noteq> 0 \<Longrightarrow> bvalid (bufs s' i) \<noteq> 0"
  shows "bio_inv d s'"
proof -
  have oj: "bdev (bufs s' j) = bdev (bufs s j)" "blockno (bufs s' j) = blockno (bufs s j)"
    "j \<noteq> i \<Longrightarrow> bvalid (bufs s' j) = bvalid (bufs s j)" "j \<noteq> i \<Longrightarrow> refcnt (bufs s' j) = refcnt (bufs s j)"
    "j \<noteq> i \<Longrightarrow> bdata (bufs s' j) = bdata (bufs s j)" "j \<noteq> i \<Longrightarrow> slocks s' (Ch_buf j) = slocks s (Ch_buf j)"
    if "j < NBUF" for j using o that unfolding only_buf_def by blast+
  have ci: "i < NBUF" "bdev (bufs s i) = d" "blockno (bufs s i) = b" using c by (simp_all add: caches_def)
  show ?thesis unfolding bio_inv_def
  proof (intro conjI allI impI)
    fix j k
    assume jk: "j < NBUF" "k < NBUF" "bdev (bufs s' j) = d" "bdev (bufs s' k) = d" "blockno (bufs s' j) = blockno (bufs s' k)"
    have "caches d s (blockno (bufs s j)) j" "caches d s (blockno (bufs s j)) k"
      using jk oj(1,2) [OF jk(1)] oj(1,2) [OF jk(2)] by (simp_all add: caches_def)
    then show "j = k" by (rule bio_invD(2) [OF inv])
  next
    fix j
    assume j: "j < NBUF" "bvalid (bufs s' j) \<noteq> 0" "refcnt (bufs s' j) = 0"
    show "bdata (bufs s' j) = disk s' (blockno (bufs s' j))"
    proof (cases "j = i")
      case True
      then show ?thesis using i(1) j oj(2) ci by simp
    next
      case False
      have v: "bvalid (bufs s j) \<noteq> 0" "refcnt (bufs s j) = 0" using j oj(3,4) [OF j(1) False] by simp_all
      then have "bdev (bufs s j) = d" using bio_invD(3) [OF inv j(1)] by blast
      then have "blockno (bufs s j) \<noteq> b" using bio_invD(2) [OF inv c, of j] False j(1) by (auto simp: caches_def)
      then show ?thesis using bio_invD(4) [OF inv j(1) v] oj(2) [OF j(1)] oj(5) [OF j(1) False] dk by simp
    qed
  next
    fix j
    assume j: "j < NBUF"
    show "bdev (bufs s' j) = d \<or> bvalid (bufs s' j) = 0 \<and> refcnt (bufs s' j) = 0"
      using bio_invD(3) [OF inv j] oj(1,3,4) [OF j] ci(2) by (cases "j = i") auto
    show "refcnt (bufs s' j) \<noteq> 0" if "slocked (slocks s' (Ch_buf j)) \<noteq> 0"
      using bio_invD(5) [OF inv j] oj(4,6) [OF j] i(2) that by (cases "j = i") auto
    show "bvalid (bufs s' j) \<noteq> 0" if "refcnt (bufs s' j) \<noteq> 0"
      using bio_invD(6) [OF inv j] oj(3,4) [OF j] i(3) that by (cases "j = i") auto
  qed (use l my in auto)
qed

lemma bio_abs_only_buf:
  assumes inv: "bio_inv d s" and c: "caches d s b i" and o: "only_buf i s s'"
    and dk: "\<And>x. x \<noteq> b \<Longrightarrow> disk s' x = disk s x"
  shows "bio_abs d s' =
    \<lparr>view = (view (bio_abs d s))(b := if bvalid (bufs s' i) \<noteq> 0 then bdata (bufs s' i) else disk s' b),
     refs = (refs (bio_abs d s))(b := unat (refcnt (bufs s' i))),
     busy = (busy (bio_abs d s))(b := slocked (slocks s' (Ch_buf i)) \<noteq> 0),
     hand = (hand (bio_abs d s))(b := if slocked (slocks s' (Ch_buf i)) \<noteq> 0 \<and> Some (spid (slocks s' (Ch_buf i))) = mypid s
       then Some i else None),
     dsk = disk s', wr = dwrites s', rest = bio_rest s'\<rparr>"
proof -
  have bo: "buf_of d s' = buf_of d s" by (rule buf_of_upd) (use o in \<open>auto simp: only_buf_def\<close>)
  have b: "buf_of d s b = Some i" using c inv by (simp add: buf_of_iff)
  have my: "mypid s' = mypid s" using o by (simp add: only_buf_def)
  have other: "bvalid (bufs s' j) = bvalid (bufs s j) \<and> refcnt (bufs s' j) = refcnt (bufs s j) \<and>
      bdata (bufs s' j) = bdata (bufs s j) \<and> slocks s' (Ch_buf j) = slocks s (Ch_buf j)"
    if "buf_of d s x = Some j" "x \<noteq> b" for x j
  proof -
    have "caches d s x j" using that(1) by (rule buf_of_Some)
    then have "j < NBUF" "j \<noteq> i" using that(2) c by (auto simp: caches_def)
    then show ?thesis using o by (simp add: only_buf_def)
  qed
  note sp = bio_abs_def bo my b dk
  have "view (bio_abs d s') x = (if x = b then if bvalid (bufs s' i) \<noteq> 0 then bdata (bufs s' i) else disk s' b
      else view (bio_abs d s) x)" for x
    using other [of x] by (cases "x = b"; cases "buf_of d s x") (simp_all add: sp)
  moreover have "refs (bio_abs d s') x = (if x = b then unat (refcnt (bufs s' i)) else refs (bio_abs d s) x)" for x
    using other [of x] by (cases "x = b"; cases "buf_of d s x") (simp_all add: sp)
  moreover have "busy (bio_abs d s') x = (if x = b then slocked (slocks s' (Ch_buf i)) \<noteq> 0 else busy (bio_abs d s) x)" for x
    using other [of x] by (cases "x = b"; cases "buf_of d s x") (simp_all add: sp)
  moreover have "hand (bio_abs d s') x =
      (if x = b then if slocked (slocks s' (Ch_buf i)) \<noteq> 0 \<and> Some (spid (slocks s' (Ch_buf i))) = mypid s then Some i else None
       else hand (bio_abs d s) x)" for x
    using other [of x] by (cases "x = b"; cases "buf_of d s x") (simp_all add: sp)
  moreover have "dsk (bio_abs d s') = disk s'" "wr (bio_abs d s') = dwrites s'" "rest (bio_abs d s') = bio_rest s'"
    by (simp_all add: bio_abs_def)
  ultimately show ?thesis by (intro cache.equality) (auto simp: fun_eq_iff)
qed

lemma bio_rest_upd [simp]:
  "bio_rest (s\<lparr>bufs := x\<rparr>) = bio_rest s" "bio_rest (s\<lparr>disk := y\<rparr>) = bio_rest s"
  "bio_rest (s\<lparr>dwrites := z\<rparr>) = bio_rest s"
  "(\<And>l. (\<forall>i. l \<noteq> Ch_buf i) \<Longrightarrow> f l = slocks s l) \<Longrightarrow> bio_rest (s\<lparr>slocks := f\<rparr>) = bio_rest s"
proof -
  assume f: "\<And>l. (\<forall>i. l \<noteq> Ch_buf i) \<Longrightarrow> f l = slocks s l"
  have "(\<lambda>l. case l of Ch_buf _ \<Rightarrow> \<lparr>slocked = 0, sname = [], spid = 0\<rparr> | _ \<Rightarrow> f l) =
      (\<lambda>l. case l of Ch_buf _ \<Rightarrow> \<lparr>slocked = 0, sname = [], spid = 0\<rparr> | _ \<Rightarrow> slocks s l)"
    by (auto simp: fun_eq_iff f split: chan.split)
  then show "bio_rest (s\<lparr>slocks := f\<rparr>) = bio_rest s" by (simp add: bio_rest_def cong: chan.case_cong)
qed (simp_all add: bio_rest_def cong: chan.case_cong)

lemma bio_rest_procs:
  "(\<And>p. (f p)\<lparr>state := UNUSED\<rparr> = (procs s p)\<lparr>state := UNUSED\<rparr>) \<Longrightarrow> bio_rest (s\<lparr>procs := f\<rparr>) = bio_rest s"
  by (simp add: bio_rest_def cong: chan.case_cong)

lemma bio_rest_wakeup [simp]: "bio_rest (wakeup c s) = bio_rest s"
  unfolding wakeup_eq by (rule bio_rest_procs) (simp add: wake_one_def)

lemma mypid_simps [simp]:
  "myproc (s\<lparr>bufs := x\<rparr>) = myproc s" "mypid (s\<lparr>bufs := x\<rparr>) = mypid s"
  "myproc (s\<lparr>disk := y\<rparr>) = myproc s" "mypid (s\<lparr>disk := y\<rparr>) = mypid s"
  "myproc (s\<lparr>dwrites := z\<rparr>) = myproc s" "mypid (s\<lparr>dwrites := z\<rparr>) = mypid s"
  "myproc (s\<lparr>slocks := l\<rparr>) = myproc s" "mypid (s\<lparr>slocks := l\<rparr>) = mypid s"
  "myproc (wakeup c s) = myproc s" "mypid (wakeup c s) = mypid s"
  by (simp_all add: mypid_def myproc_def mycpu_def wakeup_eq wake_one_def map_option_case split: option.split)

lemma wakeup_bio [simp]:
  "bufs (wakeup c s) = bufs s" "slocks (wakeup c s) = slocks s" "disk (wakeup c s) = disk s" "dwrites (wakeup c s) = dwrites s"
  by (simp_all add: wakeup_eq)

lemma bio_abs_sel:
  "dsk (bio_abs d s) = disk s" "wr (bio_abs d s) = dwrites s" "rest (bio_abs d s) = bio_rest s"
  by (simp_all add: bio_abs_def)

lemma bio_abs_cached:
  assumes "buf_of d s b = Some i"
  shows "view (bio_abs d s) b = (if bvalid (bufs s i) \<noteq> 0 then bdata (bufs s i) else disk s b)"
    "refs (bio_abs d s) b = unat (refcnt (bufs s i))" "busy (bio_abs d s) b \<longleftrightarrow> slocked (slocks s (Ch_buf i)) \<noteq> 0"
  using assms by (simp_all add: bio_abs_def)

lemma bio_write:
  assumes inv: "bio_inv d s" and h: "hand (bio_abs d s) b = Some i"
  shows "\<exists>s'. bwrite i s = Some s' \<and> bio_inv d s' \<and> bio_abs d s' = c_write b (bio_abs d s)"
proof -
  note H = holdingsleep_hand [OF inv h]
  define s' where "s' = disk_transfer i True s"
  have s': "bufs s' = bufs s" "slocks s' = slocks s" "disk s' = (disk s)(b := bdata (bufs s i))"
      "dwrites s' = dwrites s @ [(b, bdata (bufs s i))]" "bio_rest s' = bio_rest s" "mypid s' = mypid s" "myproc s' = myproc s"
    using H(6) by (simp_all add: s'_def disk_transfer_def)
  obtain xs where l: "lru (bufs s) xs" using bio_invD(1) [OF inv] by blast
  have o: "only_buf i s s'" by (simp add: only_buf_def s')
  have "bio_inv d s'"
    by (rule bio_inv_only_buf [OF inv H(2) o, of xs]) (use H l bio_invD(7) [OF inv] in \<open>auto simp: s'\<close>)
  moreover have "bio_abs d s' = c_write b (bio_abs d s)"
    unfolding bio_abs_only_buf [OF inv H(2) o, simplified s' fun_upd_apply, simplified]
    by (rule cache.equality) (use H(4,8,9) bio_abs_cached [OF H(10)] h in \<open>auto simp: c_defs bio_abs_sel fun_eq_iff s'\<close>)
  ultimately show ?thesis using H(1) by (auto simp: bwrite_def s'_def)
qed

lemma bio_modify:
  assumes inv: "bio_inv d s" and h: "hand (bio_abs d s) b = Some i"
  shows "bio_inv d (upd_buf i (\<lambda>x. x\<lparr>bdata := v\<rparr>) s) \<and>
    bio_abs d (upd_buf i (\<lambda>x. x\<lparr>bdata := v\<rparr>) s) = c_modify b v (bio_abs d s)"
proof -
  note H = holdingsleep_hand [OF inv h]
  define s' where "s' = upd_buf i (\<lambda>x. x\<lparr>bdata := v\<rparr>) s"
  obtain xs where l: "lru (bufs s) xs" using bio_invD(1) [OF inv] by blast
  then have l': "lru (bufs s') xs" by (subst lru_cong [of _ "bufs s"]) (auto simp: s'_def)
  have o: "only_buf i s s'" by (simp add: only_buf_def s'_def)
  have "bio_inv d s'"
    by (rule bio_inv_only_buf [OF inv H(2) o _ l']) (use H bio_invD(7) [OF inv] in \<open>auto simp: s'_def\<close>)
  moreover have "bio_abs d s' = c_modify b v (bio_abs d s)"
    unfolding bio_abs_only_buf [OF inv H(2) o, unfolded s'_def, simplified] s'_def
    by (rule cache.equality) (use H(4,8,9) bio_abs_cached [OF H(10)] h in \<open>auto simp: c_defs bio_abs_sel fun_eq_iff\<close>)
  ultimately show ?thesis by (simp add: s'_def)
qed

lemma link_front_links:
  assumes "b \<noteq> NBUF"
  shows "(\<lambda>i. bnext (bufs (link_front b s) i)) = (\<lambda>i. bnext (bufs s i))(b := bnext (bufs s NBUF), NBUF := b)"
    "(\<lambda>i. bprev (bufs (link_front b s) i)) = (\<lambda>i. bprev (bufs s i))(b := NBUF, bnext (bufs s NBUF) := b)"
  using assms by (auto simp: link_front_def Let_def fun_eq_iff)

lemma unlink_buf_links:
  assumes "bnext (bufs s b) \<noteq> b" "bprev (bufs s b) \<noteq> b"
  shows "(\<lambda>i. bnext (bufs (unlink_buf b s) i)) = (\<lambda>i. bnext (bufs s i))(bprev (bufs s b) := bnext (bufs s b))"
    "(\<lambda>i. bprev (bufs (unlink_buf b s) i)) = (\<lambda>i. bprev (bufs s i))(bnext (bufs s b) := bprev (bufs s b))"
  using assms by (auto simp: unlink_buf_def Let_def fun_eq_iff)

lemma relink_frame [simp]:
  "bvalid (bufs (link_front b s) i) = bvalid (bufs s i)" "bvalid (bufs (unlink_buf b s) i) = bvalid (bufs s i)"
  "refcnt (bufs (link_front b s) i) = refcnt (bufs s i)" "refcnt (bufs (unlink_buf b s) i) = refcnt (bufs s i)"
  "bdev (bufs (link_front b s) i) = bdev (bufs s i)" "bdev (bufs (unlink_buf b s) i) = bdev (bufs s i)"
  "blockno (bufs (link_front b s) i) = blockno (bufs s i)" "blockno (bufs (unlink_buf b s) i) = blockno (bufs s i)"
  "bdata (bufs (link_front b s) i) = bdata (bufs s i)" "bdata (bufs (unlink_buf b s) i) = bdata (bufs s i)"
  "slocks (link_front b s) = slocks s" "slocks (unlink_buf b s) = slocks s"
  "disk (link_front b s) = disk s" "disk (unlink_buf b s) = disk s"
  "dwrites (link_front b s) = dwrites s" "dwrites (unlink_buf b s) = dwrites s"
  "bio_rest (link_front b s) = bio_rest s" "bio_rest (unlink_buf b s) = bio_rest s"
  "myproc (link_front b s) = myproc s" "myproc (unlink_buf b s) = myproc s"
  "mypid (link_front b s) = mypid s" "mypid (unlink_buf b s) = mypid s"
  by (auto simp: link_front_def unlink_buf_def Let_def)

lemma lru_move_to_front:
  assumes "lru (bufs s) xs" and "b < NBUF"
  shows "lru (bufs (link_front b (unlink_buf b s))) (b # remove1 b xs)"
proof -
  have x: "distinct xs" "set xs = {..<NBUF}" and sg: "seg (\<lambda>i. bnext (bufs s i)) (\<lambda>i. bprev (bufs s i)) NBUF xs NBUF"
    using assms(1) by (auto simp: lru_def)
  obtain us vs where xs: "xs = us @ b # vs" using split_list [of b xs] assms(2) x(2) by auto
  have nb: "NBUF \<notin> set xs" using x by simp
  have r: "remove1 b xs = us @ vs" using x(1) xs by (simp add: remove1_append)
  have ends: "seg (\<lambda>i. bnext (bufs s i)) (\<lambda>i. bprev (bufs s i)) NBUF us b" "seg (\<lambda>i. bnext (bufs s i)) (\<lambda>i. bprev (bufs s i)) b vs NBUF"
    using sg by (simp_all add: xs seg_append)
  have "bprev (bufs s b) = last (NBUF # us)" "bnext (bufs s b) = hd (vs @ [NBUF])"
    using seg_ends [OF ends(1)] seg_ends [OF ends(2)] by simp_all
  then have "bprev (bufs s b) \<in> set (NBUF # us)" "bnext (bufs s b) \<in> set (vs @ [NBUF])"
    using last_in_set [of "NBUF # us"] hd_in_set [of "vs @ [NBUF]"] by simp_all
  then have ne: "bprev (bufs s b) \<noteq> b" "bnext (bufs s b) \<noteq> b" using x(1) nb by (auto simp: xs)
  have "seg (\<lambda>i. bnext (bufs (unlink_buf b s) i)) (\<lambda>i. bprev (bufs (unlink_buf b s) i)) NBUF (us @ vs) NBUF"
    using seg_unlink [OF sg [unfolded xs]] x(1) nb unfolding unlink_buf_links [OF ne(2,1)] by (simp add: xs)
  from seg_front [OF this, of b]
  have "seg (\<lambda>i. bnext (bufs (link_front b (unlink_buf b s)) i)) (\<lambda>i. bprev (bufs (link_front b (unlink_buf b s)) i))
      NBUF (b # us @ vs) NBUF"
    unfolding link_front_links [OF less_imp_neq [OF assms(2)]] using x(1) nb assms(2) xs by auto
  moreover have "distinct (b # us @ vs)" "set (b # us @ vs) = {..<NBUF}" using x xs by auto
  ultimately show ?thesis by (simp add: lru_def r)
qed

lemma bio_pin:
  assumes inv: "bio_inv d s" and h: "hand (bio_abs d s) b = Some i" and r: "refs (bio_abs d s) b < 2 ^ 32 - 1"
  shows "bio_inv d (bpin i s) \<and> bio_abs d (bpin i s) = c_pin b (bio_abs d s)"
proof -
  note H = holdingsleep_hand [OF inv h]
  define s' where "s' = bpin i s"
  have rc: "unat (refcnt (bufs s i) + 1) = Suc (unat (refcnt (bufs s i)))"
    using unat_add1 [of "refcnt (bufs s i)"] r bio_abs_cached [OF H(10)] by simp
  then have nz: "refcnt (bufs s i) + 1 \<noteq> 0" by (metis nat.distinct(1) unat_0)
  obtain xs where l: "lru (bufs s) xs" using bio_invD(1) [OF inv] by blast
  then have l': "lru (bufs s') xs" by (subst lru_cong [of _ "bufs s"]) (auto simp: s'_def bpin_def)
  have o: "only_buf i s s'" and dk: "disk s' = disk s" by (simp_all add: only_buf_def s'_def bpin_def)
  have "bio_inv d s'"
    by (rule bio_inv_only_buf [OF inv H(2) o _ l']) (use H bio_invD(7) [OF inv] nz in \<open>auto simp: s'_def bpin_def\<close>)
  moreover have "bio_abs d s' = c_pin b (bio_abs d s)"
    unfolding bio_abs_only_buf [OF inv H(2) o, of, unfolded dk, OF refl]
    by (rule cache.equality)
      (use H(4,8,9) bio_abs_cached [OF H(10)] h rc in \<open>auto simp: c_defs bio_abs_sel fun_eq_iff s'_def bpin_def\<close>)
  ultimately show ?thesis by (simp add: s'_def)
qed

lemma bio_unpin:
  assumes inv: "bio_inv d s" and h: "hand (bio_abs d s) b = Some i" and r: "1 < refs (bio_abs d s) b"
  shows "bio_inv d (bunpin i s) \<and> bio_abs d (bunpin i s) = c_unpin b (bio_abs d s)"
proof -
  note H = holdingsleep_hand [OF inv h]
  define s' where "s' = bunpin i s"
  have rc: "unat (refcnt (bufs s i) - 1) = unat (refcnt (bufs s i)) - 1" "1 < unat (refcnt (bufs s i))"
    using r bio_abs_cached [OF H(10)] by (simp_all add: unat_minus_one H(3))
  then have nz: "refcnt (bufs s i) - 1 \<noteq> 0" by auto
  obtain xs where l: "lru (bufs s) xs" using bio_invD(1) [OF inv] by blast
  then have l': "lru (bufs s') xs" by (subst lru_cong [of _ "bufs s"]) (auto simp: s'_def bunpin_def)
  have o: "only_buf i s s'" and dk: "disk s' = disk s" by (simp_all add: only_buf_def s'_def bunpin_def)
  have "bio_inv d s'"
    by (rule bio_inv_only_buf [OF inv H(2) o _ l']) (use H bio_invD(7) [OF inv] nz in \<open>auto simp: s'_def bunpin_def\<close>)
  moreover have "bio_abs d s' = c_unpin b (bio_abs d s)"
    unfolding bio_abs_only_buf [OF inv H(2) o, of, unfolded dk, OF refl]
    by (rule cache.equality)
      (use H(4,8,9) bio_abs_cached [OF H(10)] h rc in \<open>auto simp: c_defs bio_abs_sel fun_eq_iff s'_def bunpin_def\<close>)
  ultimately show ?thesis by (simp add: s'_def)
qed

lemma bio_release:
  assumes inv: "bio_inv d s" and h: "hand (bio_abs d s) b = Some i"
    and cl: "1 < refs (bio_abs d s) b \<or> view (bio_abs d s) b = dsk (bio_abs d s) b"
  shows "\<exists>s'. brelse i s = Some s' \<and> bio_inv d s' \<and> bio_abs d s' = c_release b (bio_abs d s)"
proof -
  note H = holdingsleep_hand [OF inv h] and ca = bio_abs_cached [OF holdingsleep_hand(10) [OF inv h]]
  define t where "t = upd_buf i (\<lambda>x. x\<lparr>refcnt := refcnt x - 1\<rparr>) (releasesleep (Ch_buf i) s)"
  define s' where "s' = (if refcnt (bufs t i) = 0 then link_front i (unlink_buf i t) else t)"
  have rc: "unat (refcnt (bufs s i) - 1) = unat (refcnt (bufs s i)) - 1"
    by (simp add: unat_minus_one H(3))
  obtain xs where l: "lru (bufs s) xs" using bio_invD(1) [OF inv] by blast
  then have lt: "lru (bufs t) xs" by (subst lru_cong [of _ "bufs s"]) (auto simp: t_def releasesleep_def)
  then obtain ys where l': "lru (bufs s') ys" using lru_move_to_front [OF lt H(5)]
    by (cases "refcnt (bufs t i) = 0") (auto simp: s'_def)
  have t: "bufs t = (bufs s)(i := (bufs s i)\<lparr>refcnt := refcnt (bufs s i) - 1\<rparr>)" "disk t = disk s" "dwrites t = dwrites s"
    "slocks t = (slocks s)(Ch_buf i := (slocks s (Ch_buf i))\<lparr>slocked := 0, spid := 0\<rparr>)" "bio_rest t = bio_rest s"
    "myproc t = myproc s" "mypid t = mypid s"
    by (simp_all add: t_def releasesleep_def)
  have o: "only_buf i s s'" and dk: "disk s' = disk s" by (auto simp: only_buf_def s'_def t)
  have i: "refcnt (bufs s' i) = refcnt (bufs s i) - 1" "bvalid (bufs s' i) = bvalid (bufs s i)" "bdata (bufs s' i) = bdata (bufs s i)"
    "slocked (slocks s' (Ch_buf i)) = 0" "dwrites s' = dwrites s" "bio_rest s' = bio_rest s" "myproc s' = myproc s"
    by (simp_all add: s'_def t)
  have "bdata (bufs s i) = disk s b" if "refcnt (bufs s i) - 1 = 0"
    using cl that H(4) by (simp add: ca bio_abs_sel)
  then have "bio_inv d s'"
    by (intro bio_inv_only_buf [OF inv H(2) o _ l']) (use H bio_invD(7) [OF inv] in \<open>auto simp: i dk\<close>)
  moreover have "bio_abs d s' = c_release b (bio_abs d s)"
    unfolding bio_abs_only_buf [OF inv H(2) o, of, unfolded dk, OF refl] i
    by (rule cache.equality) (use H(4,8,9) ca h rc in \<open>auto simp: c_defs bio_abs_sel fun_eq_iff\<close>)
  moreover have "brelse i s = Some s'" using H(1) by (simp add: brelse_def Let_def s'_def t_def)
  ultimately show ?thesis by blast
qed

text \<open>Taking over an unused buffer for a block that is not cached does not show.\<close>

lemma bio_steal:
  assumes inv: "bio_inv d s" and v: "v < NBUF" "refcnt (bufs s v) = 0" and nc: "\<And>j. \<not> caches d s b j"
  defines "s' \<equiv> upd_buf v (\<lambda>x. x\<lparr>bdev := d, blockno := b, bvalid := 0\<rparr>) s"
  shows "bio_inv d s' \<and> bio_abs d s' = bio_abs d s \<and> caches d s' b v"
proof -
  have ul: "slocked (slocks s (Ch_buf v)) = 0" using bio_invD(5) [OF inv v(1)] v(2) by blast
  obtain xs where "lru (bufs s) xs" using bio_invD(1) [OF inv] by blast
  then have l: "lru (bufs s') xs" by (subst lru_cong [of _ "bufs s"]) (auto simp: s'_def)
  have cs: "caches d s' x j \<longleftrightarrow> (if j = v then x = b else caches d s x j)" for x j
    using v(1) by (auto simp: caches_def s'_def)
  have inv': "bio_inv d s'" unfolding bio_inv_def
  proof (intro conjI allI impI)
    fix j k
    assume "j < NBUF" "k < NBUF" "bdev (bufs s' j) = d" "bdev (bufs s' k) = d" "blockno (bufs s' j) = blockno (bufs s' k)"
    then have jk: "caches d s' (blockno (bufs s' j)) j" "caches d s' (blockno (bufs s' j)) k" by (simp_all add: caches_def)
    then show "j = k" using bio_invD(2) [OF inv, of _ j k] nc unfolding cs by (auto split: if_splits)
  qed (use l inv ul v in \<open>auto simp: s'_def bio_inv_def\<close>)
  have bo: "buf_of d s' x = (if x = b then Some v else if buf_of d s x = Some v then None else buf_of d s x)" for x
  proof (cases "x = b")
    case True
    then show ?thesis using cs [of b v] by (simp add: buf_of_iff [OF inv'])
  next
    case False
    show ?thesis
    proof (cases "buf_of d s x")
      case None
      then have "\<not> caches d s x j" for j using buf_of_iff [OF inv, of x j] by simp
      then have "buf_of d s' x \<noteq> Some j" for j using False by (simp add: buf_of_iff [OF inv'] cs)
      then show ?thesis using False None by auto
    next
      case (Some k)
      then have k: "caches d s x k" by (rule buf_of_Some)
      show ?thesis
      proof (cases "k = v")
        case True
        have "buf_of d s' x \<noteq> Some j" for j
          using False True bio_invD(2) [OF inv k, of j] by (auto simp: buf_of_iff [OF inv'] cs)
        then show ?thesis using False Some True by auto
      next
        case neq: False
        then have "caches d s' x k" using k by (simp add: cs)
        then show ?thesis using False Some neq by (simp add: buf_of_iff [OF inv'])
      qed
    qed
  qed
  have old: "bvalid (bufs s v) = 0 \<or> bdata (bufs s v) = disk s x" if "buf_of d s x = Some v" for x
    using bio_invD(4) [OF inv v(1) _ v(2)] buf_of_Some [OF that] by (auto simp: caches_def)
  have nb: "buf_of d s b = None" using nc buf_of_Some [of d s b] by (cases "buf_of d s b") blast+
  have keep: "bufs s' j = bufs s j" if "j \<noteq> v" for j using that by (simp add: s'_def)
  have st: "bvalid (bufs s' v) = 0" "refcnt (bufs s' v) = 0" "slocks s' = slocks s" "disk s' = disk s" "dwrites s' = dwrites s"
    "mypid s' = mypid s" "bio_rest s' = bio_rest s"
    using v(2) by (simp_all add: s'_def)
  have "view (bio_abs d s') x = view (bio_abs d s) x \<and> refs (bio_abs d s') x = refs (bio_abs d s) x \<and>
      busy (bio_abs d s') x = busy (bio_abs d s) x \<and> hand (bio_abs d s') x = hand (bio_abs d s) x" for x
  proof -
    consider "buf_of d s' x = Some v" "buf_of d s x = None" | "buf_of d s' x = None" "buf_of d s x = Some v"
      | "buf_of d s' x = None" "buf_of d s x = None"
      | j where "buf_of d s' x = Some j" "buf_of d s x = Some j" "j \<noteq> v"
      using bo [of x] nb by (cases "buf_of d s x") (auto split: if_splits)
    then show ?thesis
    proof cases
      case 2
      then show ?thesis using old [OF 2(2)] ul v(2) by (auto simp: bio_abs_def st)
    qed (use st ul keep in \<open>simp_all add: bio_abs_def\<close>)
  qed
  then have "bio_abs d s' = bio_abs d s"
    by (intro cache.equality) (simp_all add: fun_eq_iff bio_abs_sel st)
  then show ?thesis using inv' cs [of b v] by simp
qed

lemma find_SomeD: "find P xs = Some x \<Longrightarrow> x \<in> set xs \<and> P x"
  by (auto simp: find_Some_iff)

text \<open>The number of referenced blocks and of referenced buffers agree.\<close>

lemma bio_referenced:
  assumes inv: "bio_inv d s"
  shows "finite {b. 0 < refs (bio_abs d s) b}"
    "card {b. 0 < refs (bio_abs d s) b} < NBUF \<Longrightarrow> \<exists>v < NBUF. refcnt (bufs s v) = 0"
proof -
  let ?R = "{i. i < NBUF \<and> refcnt (bufs s i) \<noteq> 0}"
  have "{b. 0 < refs (bio_abs d s) b} = (\<lambda>i. blockno (bufs s i)) ` ?R"
  proof (intro set_eqI iffI)
    fix b
    assume "b \<in> {b. 0 < refs (bio_abs d s) b}"
    then obtain i where i: "buf_of d s b = Some i" "refcnt (bufs s i) \<noteq> 0"
      by (auto simp: bio_abs_def unat_gt_0 split: option.splits)
    then show "b \<in> (\<lambda>i. blockno (bufs s i)) ` ?R" using buf_of_Some [OF i(1)] by (force simp: caches_def)
  next
    fix b
    assume "b \<in> (\<lambda>i. blockno (bufs s i)) ` ?R"
    then obtain i where i: "i < NBUF" "refcnt (bufs s i) \<noteq> 0" "b = blockno (bufs s i)" by auto
    then have "caches d s b i" using bio_invD(3) [OF inv i(1)] by (auto simp: caches_def)
    then have "buf_of d s b = Some i" using buf_of_iff [OF inv] by simp
    then show "b \<in> {b. 0 < refs (bio_abs d s) b}" using i(2) by (simp add: bio_abs_def unat_gt_0)
  qed
  moreover have "inj_on (\<lambda>i. blockno (bufs s i)) ?R"
  proof (rule inj_onI)
    fix i j
    assume "i \<in> ?R" "j \<in> ?R" "blockno (bufs s i) = blockno (bufs s j)"
    then show "i = j" using bio_invD(2) [OF inv, of "blockno (bufs s i)" i j] bio_invD(3) [OF inv] by (auto simp: caches_def)
  qed
  moreover have fin: "finite ?R" by simp
  ultimately have e: "finite {b. 0 < refs (bio_abs d s) b}" "card {b. 0 < refs (bio_abs d s) b} = card ?R"
    by (simp_all add: card_image)
  then show "finite {b. 0 < refs (bio_abs d s) b}" by simp
  assume "card {b. 0 < refs (bio_abs d s) b} < NBUF"
  then have "card ?R < card {..<NBUF}" using e by simp
  moreover have "?R \<subseteq> {..<NBUF}" by auto
  ultimately have "\<not> {..<NBUF} \<subseteq> ?R" using card_mono [OF fin, of "{..<NBUF}"] by linarith
  then show "\<exists>v < NBUF. refcnt (bufs s v) = 0" by blast
qed

text \<open>The common end of a read: the buffer is referenced, locked and filled.\<close>

definition bread_end :: "nat \<Rightarrow> 'a bio_scheme \<Rightarrow> 'a bio_scheme" where
  "bread_end i s =
     (let s1 = upd_slock (Ch_buf i) (\<lambda>l. l\<lparr>slocked := 1, spid := the (mypid s)\<rparr>) (upd_buf i (\<lambda>x. x\<lparr>refcnt := refcnt x + 1\<rparr>) s)
      in if bvalid (bufs s i) = 0 then upd_buf i (\<lambda>x. x\<lparr>bvalid := 1\<rparr>) (disk_transfer i False s1) else s1)"

lemma bread_end_spec:
  assumes inv: "bio_inv d s" and c: "caches d s b i" and r: "refs (bio_abs d s) b < 2 ^ 32 - 1"
  shows "bio_inv d (bread_end i s) \<and> bio_abs d (bread_end i s) = c_read b i (bio_abs d s)"
proof -
  define s' where "s' = bread_end i s"
  have bo: "buf_of d s b = Some i" using c buf_of_iff [OF inv] by simp
  note ca = bio_abs_cached [OF bo]
  have b: "blockno (bufs s i) = b" using c by (simp add: caches_def)
  obtain p where p: "mypid s = Some p" using bio_invD(7) [OF inv] by (auto simp: mypid_def)
  have s': "bufs s' = (bufs s)(i := (bufs s i)\<lparr>refcnt := refcnt (bufs s i) + 1, bdata := (if bvalid (bufs s i) = 0 then disk s b else bdata (bufs s i)),
        bvalid := (if bvalid (bufs s i) = 0 then 1 else bvalid (bufs s i))\<rparr>)"
    "slocks s' = (slocks s)(Ch_buf i := (slocks s (Ch_buf i))\<lparr>slocked := 1, spid := p\<rparr>)"
    "disk s' = disk s" "dwrites s' = dwrites s" "bio_rest s' = bio_rest s" "myproc s' = myproc s" "mypid s' = mypid s"
    by (simp_all add: s'_def bread_end_def Let_def disk_transfer_def b p)
  have rc: "unat (refcnt (bufs s i) + 1) = Suc (unat (refcnt (bufs s i)))"
    using unat_add1 [of "refcnt (bufs s i)"] r ca by simp
  then have nz: "refcnt (bufs s i) + 1 \<noteq> 0" by (metis nat.distinct(1) unat_0)
  obtain xs where "lru (bufs s) xs" using bio_invD(1) [OF inv] by blast
  then have l': "lru (bufs s') xs" by (subst lru_cong [of _ "bufs s"]) (auto simp: s')
  have o: "only_buf i s s'" by (simp add: only_buf_def s')
  have "bio_inv d s'"
    by (rule bio_inv_only_buf [OF inv c o _ l']) (use bio_invD(7) [OF inv] nz in \<open>auto simp: s'\<close>)
  moreover have "bio_abs d s' = c_read b i (bio_abs d s)"
    unfolding bio_abs_only_buf [OF inv c o, of, unfolded s', OF refl]
    by (rule cache.equality) (use ca rc p in \<open>auto simp: c_defs bio_abs_sel fun_eq_iff s'\<close>)
  ultimately show ?thesis by (simp add: s'_def)
qed

lemma bio_read:
  assumes inv: "bio_inv d s" and nb: "\<not> busy (bio_abs d s) b" and r: "refs (bio_abs d s) b < 2 ^ 32 - 1"
    and room: "room NBUF b (bio_abs d s)"
  shows "\<exists>i s'. bread d b s = Some (i, s') \<and> bio_inv d s' \<and> bio_abs d s' = c_read b i (bio_abs d s)"
proof -
  obtain xs where l: "lru (bufs s) xs" using bio_invD(1) [OF inv] by blast
  note sc = lru_scans [OF l]
  have xs: "set xs = {..<NBUF}" using l by (simp add: lru_def)
  obtain p where p: "myproc s = Some p" using bio_invD(7) [OF inv] by blast
  show ?thesis
  proof (cases "\<exists>i. caches d s b i")
    case True
    then obtain i where i: "caches d s b i" by blast
    have "find (\<lambda>i. bdev (bufs s i) = d \<and> blockno (bufs s i) = b) xs = Some i"
    proof (cases "find (\<lambda>i. bdev (bufs s i) = d \<and> blockno (bufs s i) = b) xs")
      case None
      then show ?thesis using i xs by (auto simp: find_None_iff caches_def)
    next
      case (Some j)
      then have "j \<in> set xs" "bdev (bufs s j) = d \<and> blockno (bufs s j) = b" using find_SomeD [OF Some] by simp_all
      then have "caches d s b j" using xs by (simp add: caches_def)
      then show ?thesis using Some bio_invD(2) [OF inv i] by simp
    qed
    moreover have "slocked (slocks s (Ch_buf i)) = 0" using nb i buf_of_iff [OF inv] by (simp add: bio_abs_cached)
    ultimately have "bread d b s = Some (i, bread_end i s)"
      using p by (simp add: bread_def bget_def sc acquiresleep_def bread_end_def Let_def mypid_def myproc_def mycpu_def)
    then show ?thesis using bread_end_spec [OF inv i r] by blast
  next
    case False
    then have miss: "find (\<lambda>i. bdev (bufs s i) = d \<and> blockno (bufs s i) = b) xs = None"
      using xs by (auto simp: find_None_iff caches_def)
    have "buf_of d s b = None" using False buf_of_Some by (cases "buf_of d s b") blast+
    then have "card {x. 0 < refs (bio_abs d s) x} < NBUF" using room by (simp add: room_def bio_abs_def)
    then obtain w where "w < NBUF" "refcnt (bufs s w) = 0" using bio_referenced(2) [OF inv] by blast
    then have "find (\<lambda>i. refcnt (bufs s i) = 0) (rev xs) \<noteq> None" using xs by (auto simp: find_None_iff)
    then obtain v where fv: "find (\<lambda>i. refcnt (bufs s i) = 0) (rev xs) = Some v" by blast
    then have "v \<in> set (rev xs)" "refcnt (bufs s v) = 0" using find_SomeD [OF fv] by simp_all
    then have v: "v < NBUF" "refcnt (bufs s v) = 0" using xs by auto
    have ul: "slocked (slocks s (Ch_buf v)) = 0" using bio_invD(5) [OF inv v(1)] v(2) by blast
    define t where "t = upd_buf v (\<lambda>x. x\<lparr>bdev := d, blockno := b, bvalid := 0\<rparr>) s"
    have t: "bio_inv d t" "bio_abs d t = bio_abs d s" "caches d t b v"
      using bio_steal [OF inv v, of b] False by (auto simp: t_def)
    have "bread d b s = Some (v, bread_end v t)"
      using p ul v by (simp add: bread_def bget_def sc miss fv acquiresleep_def bread_end_def Let_def mypid_def myproc_def mycpu_def t_def)
    then show ?thesis using bread_end_spec [OF t(1,3)] t(2) r by auto
  qed
qed

interpretation bc: block_cache "bio_inv d" "bio_abs d" NBUF "2 ^ 32 - 1" "bread d" bwrite brelse bpin bunpin
  "\<lambda>i s. bdata (bufs s i)" "\<lambda>i x s. upd_buf i (\<lambda>b. b\<lparr>bdata := x\<rparr>) s" for d
proof (unfold_locales, goal_cases)
  case (1 s b) then show ?case by (rule bio_read)
next
  case (2 s b h) then show ?case by (rule bio_write)
next
  case (3 s b h) then show ?case by (rule bio_release)
next
  case (4 s b h) then show ?case by (rule bio_pin)
next
  case (5 s b h) then show ?case by (rule bio_unpin)
next
  case (6 s b h)
  then show ?case using bio_abs_cached holdingsleep_hand [OF 6] by metis
next
  case (7 s b h x) then show ?case by (rule bio_modify)
next
  case (8 s) then show ?case by (rule bio_referenced)
next
  case (9 s b h)
  then show ?case using holdingsleep_hand(3,8) [OF 9] bio_abs_cached [OF holdingsleep_hand(10) [OF 9]] by (simp add: unat_gt_0)
qed

section \<open>Initialisation\<close>

lemma initsleeplock_frame [simp]:
  "bufs (initsleeplock l nm s) = bufs s" "myproc (initsleeplock l nm s) = myproc s" "disk (initsleeplock l nm s) = disk s"
  "dwrites (initsleeplock l nm s) = dwrites s"
  by (simp_all add: initsleeplock_def)

lemma link_front_new:
  assumes "seg (\<lambda>i. bnext (bufs s i)) (\<lambda>i. bprev (bufs s i)) NBUF xs NBUF"
    and "NBUF \<notin> set xs" "b \<notin> set xs" "b \<noteq> NBUF" "distinct xs"
  shows "seg (\<lambda>i. bnext (bufs (link_front b s) i)) (\<lambda>i. bprev (bufs (link_front b s) i)) NBUF (b # xs) NBUF"
  unfolding link_front_links [OF assms(4)] by (rule seg_front) (use assms in auto)

lemma binit_upto:
  assumes "n \<le> NBUF" and "seg (\<lambda>i. bnext (bufs s i)) (\<lambda>i. bprev (bufs s i)) NBUF [] NBUF"
  defines "s' \<equiv> fold (\<lambda>b s. initsleeplock (Ch_buf b) ''buffer'' (link_front b s)) [0..<n] s"
  shows "seg (\<lambda>i. bnext (bufs s' i)) (\<lambda>i. bprev (bufs s' i)) NBUF (rev [0..<n]) NBUF \<and>
    (\<forall>i. bvalid (bufs s' i) = bvalid (bufs s i) \<and> refcnt (bufs s' i) = refcnt (bufs s i) \<and> bdev (bufs s' i) = bdev (bufs s i) \<and>
      blockno (bufs s' i) = blockno (bufs s i)) \<and>
    (\<forall>i < n. slocked (slocks s' (Ch_buf i)) = 0) \<and> myproc s' = myproc s \<and> disk s' = disk s \<and> dwrites s' = dwrites s"
  using assms(1) unfolding s'_def
proof (induction n)
  case 0
  then show ?case using assms(2) by simp
next
  case (Suc n)
  let ?s = "fold (\<lambda>b s. initsleeplock (Ch_buf b) ''buffer'' (link_front b s)) [0..<n] s"
  from Suc have IH: "seg (\<lambda>i. bnext (bufs ?s i)) (\<lambda>i. bprev (bufs ?s i)) NBUF (rev [0..<n]) NBUF"
    "\<forall>i. bvalid (bufs ?s i) = bvalid (bufs s i) \<and> refcnt (bufs ?s i) = refcnt (bufs s i) \<and> bdev (bufs ?s i) = bdev (bufs s i) \<and>
      blockno (bufs ?s i) = blockno (bufs s i)"
    "\<forall>i < n. slocked (slocks ?s (Ch_buf i)) = 0" "myproc ?s = myproc s" "disk ?s = disk s" "dwrites ?s = dwrites s" by simp_all
  have "seg (\<lambda>i. bnext (bufs (link_front n ?s) i)) (\<lambda>i. bprev (bufs (link_front n ?s) i)) NBUF (n # rev [0..<n]) NBUF"
    using Suc.prems by (intro link_front_new [OF IH(1)]) auto
  then show ?case using IH(2-) by (simp add: initsleeplock_def less_Suc_eq)
qed

lemma binit_spec:
  assumes "\<And>i. i < NBUF \<Longrightarrow> bvalid (bufs s i) = 0 \<and> refcnt (bufs s i) = 0 \<and> bdev (bufs s i) \<noteq> d" and "myproc s \<noteq> None"
  shows "bio_inv d (binit s) \<and> lru (bufs (binit s)) (rev [0..<NBUF]) \<and>
    disk (binit s) = disk s \<and> dwrites (binit s) = dwrites s \<and> (\<forall>b. buf_of d (binit s) b = None)"
proof -
  let ?t = "upd_buf NBUF (\<lambda>x. x\<lparr>bprev := NBUF, bnext := NBUF\<rparr>) s"
  have t: "bvalid (bufs ?t i) = bvalid (bufs s i)" "refcnt (bufs ?t i) = refcnt (bufs s i)" "bdev (bufs ?t i) = bdev (bufs s i)"
    "myproc ?t = myproc s" "disk ?t = disk s" "dwrites ?t = dwrites s" for i by simp_all
  have e: "binit s = fold (\<lambda>b s. initsleeplock (Ch_buf b) ''buffer'' (link_front b s)) [0..<NBUF] ?t"
    by (simp add: binit_def Let_def)
  have "seg (\<lambda>i. bnext (bufs ?t i)) (\<lambda>i. bprev (bufs ?t i)) NBUF [] NBUF" by simp
  note U = binit_upto [OF le_refl this, folded e, unfolded t]
  have l: "lru (bufs (binit s)) (rev [0..<NBUF])" using U by (auto simp: lru_def)
  have "\<not> caches d (binit s) b i" for b i using U assms(1) by (auto simp: caches_def)
  then have "buf_of d (binit s) b = None" for b by (simp add: buf_of_def find_None_iff)
  then show ?thesis using U l assms unfolding bio_inv_def by auto
qed

section \<open>Properties\<close>

text \<open>A system in which process 0 runs, with an initialised cache over a disk.\<close>

definition no_buf :: buf where
  "no_buf = \<lparr>bvalid = 0, bdev = 0, blockno = 0, refcnt = 0, bprev = 0, bnext = 0, bdata = (\<lambda>_. 0)\<rparr>"

definition boot_bio :: "(u32 \<Rightarrow> bytes) \<Rightarrow> bio" where
  "boot_bio D = binit (slp.extend (ptabp.extend (boot_pipes boot 0 (boot_pipe []))
       (slp.fields (\<lambda>_. \<lparr>slocked = 0, sname = [], spid = 0\<rparr>))) (bio.fields (\<lambda>_. no_buf) D []))"

definition boot_disk :: "u32 \<Rightarrow> bytes" where
  "boot_disk b k = (if k < 1024 then ucast b else 0)"

lemma boot_bio: "bio_inv 1 (boot_bio D)" "lru (bufs (boot_bio D)) (rev [0..<NBUF])" "disk (boot_bio D) = D"
  "dwrites (boot_bio D) = []" "buf_of 1 (boot_bio D) b = None"
proof -
  define s where "s = slp.extend (ptabp.extend (boot_pipes boot 0 (boot_pipe []))
       (slp.fields (\<lambda>_. \<lparr>slocked = 0, sname = [], spid = 0\<rparr>))) (bio.fields (\<lambda>_. no_buf) D [])"
  have s: "bufs s = (\<lambda>_. no_buf)" "disk s = D" "dwrites s = []" "myproc s = Some 0"
    using boot_pipes_sel(3) [of boot 0 "boot_pipe []"]
    by (simp_all add: s_def slp.defs ptabp.defs bio.defs myproc_def mycpu_def)
  have "boot_bio D = binit s" by (simp add: boot_bio_def s_def)
  moreover have "bvalid (bufs s i) = 0 \<and> refcnt (bufs s i) = 0 \<and> bdev (bufs s i) \<noteq> 1" for i by (simp add: s no_buf_def)
  ultimately show "bio_inv 1 (boot_bio D)" "lru (bufs (boot_bio D)) (rev [0..<NBUF])" "disk (boot_bio D) = D"
    "dwrites (boot_bio D) = []" "buf_of 1 (boot_bio D) b = None"
    using binit_spec [of s 1] s by simp_all
qed

lemma boot_bio_abs:
  "view (bio_abs 1 (boot_bio D)) = D" "refs (bio_abs 1 (boot_bio D)) = (\<lambda>_. 0)" "busy (bio_abs 1 (boot_bio D)) = (\<lambda>_. False)"
  "hand (bio_abs 1 (boot_bio D)) = (\<lambda>_. None)" "dsk (bio_abs 1 (boot_bio D)) = D" "wr (bio_abs 1 (boot_bio D)) = []"
  by (simp_all add: bio_abs_def boot_bio fun_eq_iff)

text \<open>
  C4: the buffer cache implements a store of blocks. When a block is not locked and it is referenced
  or a buffer is unused, \<open>bread\<close> returns a buffer with the current contents of the block; after any
  change of the buffer, \<open>bwrite\<close> writes exactly that block of the disk, and \<open>brelse\<close> ends the
  cycle with the new contents current, every other block, reference count and lock as before and
  the invariant of the cache intact.
\<close>

theorem cache_read_modify_write:
  assumes "bio_inv d s" and "\<not> busy (bio_abs d s) b" and "refs (bio_abs d s) b < 2 ^ 32 - 1" and "room NBUF b (bio_abs d s)"
  shows "\<exists>i s1 s2 s3. bread d b s = Some (i, s1) \<and> bdata (bufs s1 i) = view (bio_abs d s) b \<and> disk s1 = disk s \<and>
    bwrite i (upd_buf i (\<lambda>x. x\<lparr>bdata := v\<rparr>) s1) = Some s2 \<and> disk s2 = (disk s)(b := v) \<and> dwrites s2 = dwrites s @ [(b, v)] \<and>
    brelse i s2 = Some s3 \<and> bio_inv d s3 \<and> view (bio_abs d s3) = (view (bio_abs d s))(b := v) \<and>
    refs (bio_abs d s3) = refs (bio_abs d s) \<and> busy (bio_abs d s3) = busy (bio_abs d s) \<and> disk s3 = disk s2"
proof -
  obtain i s1 where 1: "bread d b s = Some (i, s1)" "bio_inv d s1" "bio_abs d s1 = c_read b i (bio_abs d s)"
    using bc.rd assms by blast
  have h: "hand (bio_abs d s1) b = Some i" by (simp add: 1(3) c_defs)
  let ?m = "upd_buf i (\<lambda>x. x\<lparr>bdata := v\<rparr>) s1"
  have m: "bio_inv d ?m" "bio_abs d ?m = c_modify b v (bio_abs d s1)" using bc.modify [OF 1(2) h] by simp_all
  then have "hand (bio_abs d ?m) b = Some i" using h by (simp add: c_defs)
  then obtain s2 where 2: "bwrite i ?m = Some s2" "bio_inv d s2" "bio_abs d s2 = c_write b (c_modify b v (bio_abs d s1))"
    using bc.wt [OF m(1)] m(2) by auto
  have "hand (bio_abs d s2) b = Some i" "view (bio_abs d s2) b = dsk (bio_abs d s2) b" using h by (simp_all add: 2(3) c_defs)
  then obtain s3 where 3: "brelse i s2 = Some s3" "bio_inv d s3" "bio_abs d s3 = c_release b (bio_abs d s2)"
    using bc.rel [OF 2(2)] by blast
  have "disk s1 = disk s" using arg_cong [OF 1(3), of dsk] by (simp add: c_defs bio_abs_sel)
  moreover have "bdata (bufs s1 i) = view (bio_abs d s) b" using bc.content [OF 1(2) h] by (simp add: 1(3) c_defs)
  moreover have "disk s2 = (disk s)(b := v)" "dwrites s2 = dwrites s @ [(b, v)]"
    using arg_cong [OF 2(3), of dsk] arg_cong [OF 2(3), of wr] by (simp_all add: 1(3) c_defs bio_abs_sel)
  moreover have "disk s3 = disk s2" using arg_cong [OF 3(3), of dsk] by (simp add: c_defs bio_abs_sel)
  moreover have "view (bio_abs d s3) = (view (bio_abs d s))(b := v)" "refs (bio_abs d s3) = refs (bio_abs d s)"
    "busy (bio_abs d s3) = busy (bio_abs d s)"
    using assms(2) by (auto simp: 3(3) 2(3) 1(3) c_defs fun_eq_iff)
  ultimately show ?thesis using 1(1) 2(1) 3(1,2) by blast
qed

theorem cache_read_modify_write_witness:
  "\<exists>i s1 s2 s3. bread 1 7 (boot_bio boot_disk) = Some (i, s1) \<and> bdata (bufs s1 i) = boot_disk 7 \<and>
    bwrite i (upd_buf i (\<lambda>x. x\<lparr>bdata := (\<lambda>_. 9)\<rparr>) s1) = Some s2 \<and> brelse i s2 = Some s3 \<and> disk s3 7 = (\<lambda>_. 9)"
proof -
  have "room NBUF 7 (bio_abs 1 (boot_bio boot_disk))" by (simp add: room_def boot_bio_abs NBUF_def)
  from cache_read_modify_write [OF boot_bio(1) _ _ this, of "\<lambda>_. 9"] show ?thesis by (auto simp: boot_bio_abs boot_bio(3))
qed

text \<open>
  C24: the list of buffers is kept in order of use. A miss takes the least recently used buffer
  that is not referenced and panics when there is none; releasing the last reference to a buffer
  makes it the most recently used one, and any other release leaves the order alone.
\<close>

theorem cache_recycles_lru:
  assumes "lru (bufs s) xs" and "myproc s = Some p" and "i < NBUF"
  shows "((\<forall>i \<in> set xs. \<not> (bdev (bufs s i) = d \<and> blockno (bufs s i) = b)) \<longrightarrow>
      bget d b s =
        (case find (\<lambda>i. refcnt (bufs s i) = 0) (rev xs) of
           None \<Rightarrow> None
         | Some v \<Rightarrow>
             if slocked (slocks s (Ch_buf v)) \<noteq> 0 then None
             else Some (v, upd_slock (Ch_buf v) (\<lambda>l. l\<lparr>slocked := 1, spid := pid (procs s p)\<rparr>)
               (upd_buf v (\<lambda>x. x\<lparr>bdev := d, blockno := b, bvalid := 0, refcnt := 1\<rparr>) s)))) \<and>
    (brelse i s = Some s' \<longrightarrow> lru (bufs s') (if refcnt (bufs s i) = 1 then i # remove1 i xs else xs))"
proof (intro conjI impI)
  assume "\<forall>i \<in> set xs. \<not> (bdev (bufs s i) = d \<and> blockno (bufs s i) = b)"
  then have "find (\<lambda>i. bdev (bufs s i) = d \<and> blockno (bufs s i) = b) xs = None" by (simp add: find_None_iff)
  then show "bget d b s =
        (case find (\<lambda>i. refcnt (bufs s i) = 0) (rev xs) of
           None \<Rightarrow> None
         | Some v \<Rightarrow>
             if slocked (slocks s (Ch_buf v)) \<noteq> 0 then None
             else Some (v, upd_slock (Ch_buf v) (\<lambda>l. l\<lparr>slocked := 1, spid := pid (procs s p)\<rparr>)
               (upd_buf v (\<lambda>x. x\<lparr>bdev := d, blockno := b, bvalid := 0, refcnt := 1\<rparr>) s)))"
    using assms(2) by (cases "find (\<lambda>i. refcnt (bufs s i) = 0) (rev xs)")
      (simp_all add: bget_def lru_scans [OF assms(1)] acquiresleep_def myproc_def mycpu_def)
next
  assume r: "brelse i s = Some s'"
  define t where "t = upd_buf i (\<lambda>x. x\<lparr>refcnt := refcnt x - 1\<rparr>) (releasesleep (Ch_buf i) s)"
  have t: "refcnt (bufs t i) = 0 \<longleftrightarrow> refcnt (bufs s i) = 1" by (simp add: t_def releasesleep_def)
  have lt: "lru (bufs t) xs" using assms(1) by (subst lru_cong [of _ "bufs s"]) (auto simp: t_def releasesleep_def)
  have "s' = (if refcnt (bufs t i) = 0 then link_front i (unlink_buf i t) else t)"
    using r by (auto simp: brelse_def t_def Let_def Option.bind_eq_Some_conv split: if_splits)
  then show "lru (bufs s') (if refcnt (bufs s i) = 1 then i # remove1 i xs else xs)"
    using lru_move_to_front [OF lt assms(3)] lt t by simp
qed

theorem cache_recycles_lru_witness: "\<exists>s1. bget 1 7 (boot_bio boot_disk) = Some (0, s1) \<and> bdev (bufs s1 0) = 1 \<and> blockno (bufs s1 0) = 7"
proof -
  obtain p where p: "myproc (boot_bio boot_disk) = Some p" using bio_invD(7) [OF boot_bio(1)] by blast
  have z: "0 < NBUF" by (simp add: NBUF_def)
  have nc: "\<not> caches 1 (boot_bio boot_disk) b i" for b i
    using boot_bio(5) [of boot_disk b] by (simp flip: buf_of_iff [OF boot_bio(1)])
  have miss: "\<forall>i \<in> set (rev [0..<NBUF]). \<not> (bdev (bufs (boot_bio boot_disk) i) = 1 \<and> blockno (bufs (boot_bio boot_disk) i) = 7)"
    using nc [of 7] by (simp add: caches_def)
  have free: "refcnt (bufs (boot_bio boot_disk) 0) = 0" "slocked (slocks (boot_bio boot_disk) (Ch_buf 0)) = 0"
    using bio_invD(3,5) [OF boot_bio(1) z] nc [of "blockno (bufs (boot_bio boot_disk) 0)" 0] z by (auto simp: caches_def)
  then have "find (\<lambda>i. refcnt (bufs (boot_bio boot_disk) i) = 0) (rev (rev [0..<NBUF])) = Some 0"
    unfolding rev_rev_ident find_upt using z by simp
  then show ?thesis
    using conjunct1 [OF cache_recycles_lru [OF boot_bio(2) p z, where d = 1 and b = 7], THEN mp, OF miss] free(2) by simp
qed

end
