(* ===== verification/Log.thy ===== *)
theory Log
  imports Bio
begin

text \<open>
  The write-ahead log, \<^verbatim>\<open>kernel/log.c\<close>. Block numbers are kept as \<open>uint\<close>; the counters are C
  \<open>int\<close>s of small range. An on-disk header that claims more than \<open>LOGSIZE\<close> blocks would make
  \<open>read_head\<close> write past its array; the model stops there.
\<close>

section \<open>Model\<close>

definition BSIZE :: nat where "BSIZE = 1024"

record superblock =
  sb_magic :: u32
  sb_size :: u32
  sb_nblocks :: u32
  sb_ninodes :: u32
  sb_nlog :: u32
  sb_logstart :: u32
  sb_inodestart :: u32
  sb_bmapstart :: u32

record logheader =
  lh_n :: int
  lh_block :: "nat \<Rightarrow> u32"

record log =
  lstart :: int
  lsize :: int
  outstanding :: int
  committing :: bool
  ldev :: u32
  lh :: logheader

record logged = bio +
  the_log :: log

abbreviation upd_log :: "(log \<Rightarrow> log) \<Rightarrow> 'a logged_scheme \<Rightarrow> 'a logged_scheme" where
  "upd_log f s \<equiv> s\<lparr>the_log := f (the_log s)\<rparr>"

text \<open>Block number of log block \<open>tail\<close>, and of the header.\<close>

definition log_blk :: "log \<Rightarrow> nat \<Rightarrow> u32" where
  "log_blk l tail = of_int (lstart l + int tail + 1)"

definition head_blk :: "log \<Rightarrow> u32" where
  "head_blk l = of_int (lstart l)"

text \<open>Copying a block of data into a buffer, \<open>memmove(to->data, from->data, BSIZE)\<close>.\<close>

definition copy_data :: "nat \<Rightarrow> nat \<Rightarrow> 'a bio_scheme \<Rightarrow> 'a bio_scheme" where
  "copy_data dst src s = upd_buf dst (\<lambda>x. x\<lparr>bdata := bdata (bufs s src)\<rparr>) s"

fun install_trans_from :: "bool \<Rightarrow> nat list \<Rightarrow> 'a logged_scheme \<Rightarrow> 'a logged_scheme option" where
  "install_trans_from recovering [] s = Some s"
| "install_trans_from recovering (tail # ts) s =
     do {
       (lbuf, s) \<leftarrow> bread (ldev (the_log s)) (log_blk (the_log s) tail) s;
       (dbuf, s) \<leftarrow> bread (ldev (the_log s)) (lh_block (lh (the_log s)) tail) s;
       let s = copy_data dbuf lbuf s;
       s \<leftarrow> bwrite dbuf s;
       let s = (if \<not> recovering then bunpin dbuf s else s);
       s \<leftarrow> brelse lbuf s;
       s \<leftarrow> brelse dbuf s;
       install_trans_from recovering ts s
     }"

definition install_trans :: "bool \<Rightarrow> 'a logged_scheme \<Rightarrow> 'a logged_scheme option" where
  "install_trans recovering s = install_trans_from recovering [0..<nat (lh_n (lh (the_log s)))] s"

definition head_n :: "bytes \<Rightarrow> int" where "head_n d = sint (get32 d 0)"
definition head_block :: "bytes \<Rightarrow> nat \<Rightarrow> u32" where "head_block d i = get32 d (4 + 4 * i)"

definition read_head :: "'a logged_scheme \<Rightarrow> 'a logged_scheme option" where
  "read_head s =
     do {
       (b, s) \<leftarrow> bread (ldev (the_log s)) (head_blk (the_log s)) s;
       let d = bdata (bufs s b);
       if int LOGSIZE < head_n d then None
       else brelse b (upd_log (\<lambda>l. l\<lparr>lh := \<lparr>lh_n = head_n d,
          lh_block = (\<lambda>i. if i < nat (head_n d) then head_block d i else lh_block (lh l) i)\<rparr>\<rparr>) s)
     }"

text \<open>The header as stored by \<open>write_head\<close> over the old contents of its block.\<close>

definition put_head :: "logheader \<Rightarrow> bytes \<Rightarrow> bytes" where
  "put_head h d = fold (\<lambda>i d. put32 d (4 + 4 * i) (lh_block h i)) [0..<nat (lh_n h)] (put32 d 0 (of_int (lh_n h)))"

definition write_head :: "'a logged_scheme \<Rightarrow> 'a logged_scheme option" where
  "write_head s =
     do {
       (b, s) \<leftarrow> bread (ldev (the_log s)) (head_blk (the_log s)) s;
       let s = upd_buf b (\<lambda>x. x\<lparr>bdata := put_head (lh (the_log s)) (bdata x)\<rparr>) s;
       s \<leftarrow> bwrite b s;
       brelse b s
     }"

definition clear_head :: "'a logged_scheme \<Rightarrow> 'a logged_scheme" where
  "clear_head s = upd_log (\<lambda>l. l\<lparr>lh := (lh l)\<lparr>lh_n := 0\<rparr>\<rparr>) s"

definition recover_from_log :: "'a logged_scheme \<Rightarrow> 'a logged_scheme option" where
  "recover_from_log s =
     do { s \<leftarrow> read_head s; s \<leftarrow> install_trans True s; write_head (clear_head s) }"

definition initlog :: "u32 \<Rightarrow> superblock \<Rightarrow> 'a logged_scheme \<Rightarrow> 'a logged_scheme option" where
  "initlog d sb s =
     recover_from_log (upd_log (\<lambda>l. l\<lparr>lstart := sint (sb_logstart sb), lsize := sint (sb_nlog sb), ldev := d\<rparr>) s)"

definition begin_op :: "'a logged_scheme \<Rightarrow> (unit outcome \<times> 'a logged_scheme) option" where
  "begin_op s =
     do {
       p \<leftarrow> myproc s;
       let l = the_log s;
       if committing l then Some (Sleep Ch_log, sleep_enter p Ch_log s)
       else if int LOGSIZE < lh_n (lh l) + (outstanding l + 1) * int MAXOPBLOCKS then Some (Sleep Ch_log, sleep_enter p Ch_log s)
       else Some (Done (), upd_log (\<lambda>l. l\<lparr>outstanding := outstanding l + 1\<rparr>) s)
     }"

fun write_log_from :: "nat list \<Rightarrow> 'a logged_scheme \<Rightarrow> 'a logged_scheme option" where
  "write_log_from [] s = Some s"
| "write_log_from (tail # ts) s =
     do {
       (to, s) \<leftarrow> bread (ldev (the_log s)) (log_blk (the_log s) tail) s;
       (from', s) \<leftarrow> bread (ldev (the_log s)) (lh_block (lh (the_log s)) tail) s;
       let s = copy_data to from' s;
       s \<leftarrow> bwrite to s;
       s \<leftarrow> brelse from' s;
       s \<leftarrow> brelse to s;
       write_log_from ts s
     }"

definition write_log :: "'a logged_scheme \<Rightarrow> 'a logged_scheme option" where
  "write_log s = write_log_from [0..<nat (lh_n (lh (the_log s)))] s"

definition commit :: "'a logged_scheme \<Rightarrow> 'a logged_scheme option" where
  "commit s =
     (if 0 < lh_n (lh (the_log s))
      then do {
        s \<leftarrow> write_log s;
        s \<leftarrow> write_head s;
        s \<leftarrow> install_trans False s;
        write_head (clear_head s)
      }
      else Some s)"

definition end_op :: "'a logged_scheme \<Rightarrow> 'a logged_scheme option" where
  "end_op s =
     (let s = upd_log (\<lambda>l. l\<lparr>outstanding := outstanding l - 1\<rparr>) s
      in if committing (the_log s) then None
         else if outstanding (the_log s) = 0
         then do {
           s \<leftarrow> commit (upd_log (\<lambda>l. l\<lparr>committing := True\<rparr>) s);
           Some (wakeup Ch_log (upd_log (\<lambda>l. l\<lparr>committing := False\<rparr>) s))
         }
         else Some (wakeup Ch_log s))"

definition log_write :: "nat \<Rightarrow> 'a logged_scheme \<Rightarrow> 'a logged_scheme option" where
  "log_write b s =
     (let l = the_log s; h = lh l; bno = blockno (bufs s b)
      in if int LOGSIZE \<le> lh_n h \<or> lsize l - 1 \<le> lh_n h then None
         else if outstanding l < 1 then None
         else let n = nat (lh_n h);
                  i = (case find (\<lambda>i. lh_block h i = bno) [0..<n] of Some i \<Rightarrow> i | None \<Rightarrow> n);
                  s = upd_log (\<lambda>l. l\<lparr>lh := (lh l)\<lparr>lh_block := (lh_block (lh l))(i := bno)\<rparr>\<rparr>) s
              in Some (if i = n then upd_log (\<lambda>l. l\<lparr>lh := (lh l)\<lparr>lh_n := lh_n (lh l) + 1\<rparr>\<rparr>) (bpin b s) else s))"

section \<open>Writes to the disk\<close>

definition apply_writes :: "('b \<times> 'c) list \<Rightarrow> ('b \<Rightarrow> 'c) \<Rightarrow> 'b \<Rightarrow> 'c" where
  "apply_writes W D = fold (\<lambda>(b, x) D. D(b := x)) W D"

lemma apply_writes_simps [simp]:
  "apply_writes [] D = D" "apply_writes ((b, x) # W) D = apply_writes W (D(b := x))"
  "apply_writes (V @ W) D = apply_writes W (apply_writes V D)"
  by (simp_all add: apply_writes_def)

lemma apply_writes_other: "b \<notin> fst ` set W \<Longrightarrow> apply_writes W D b = D b"
  by (induction W arbitrary: D) auto

text \<open>Writing \<open>g t\<close> to the pairwise different blocks \<open>f t\<close>.\<close>

definition writes_of :: "(nat \<Rightarrow> 'b) \<Rightarrow> (nat \<Rightarrow> 'c) \<Rightarrow> nat list \<Rightarrow> ('b \<times> 'c) list" where
  "writes_of f g ts = map (\<lambda>t. (f t, g t)) ts"

lemma writes_of_Cons [simp]: "writes_of f g (t # ts) = (f t, g t) # writes_of f g ts"
  and writes_of_Nil [simp]: "writes_of f g [] = []"
  and length_writes_of [simp]: "length (writes_of f g ts) = length ts"
  and take_writes_of: "take k (writes_of f g ts) = writes_of f g (take k ts)"
  and fst_writes_of [simp]: "fst ` set (writes_of f g ts) = f ` set ts"
  by (simp_all add: writes_of_def take_map image_image)

lemma apply_writes_of:
  assumes "inj_on f (set ts)" "distinct ts" "t \<in> set ts"
  shows "apply_writes (writes_of f g ts) D (f t) = g t"
  using assms
proof (induction ts arbitrary: D)
  case (Cons u ts)
  show ?case
  proof (cases "t = u")
    case True
    then have "f t \<notin> f ` set ts" using Cons.prems by (auto simp: inj_on_def)
    then have "apply_writes (writes_of f g ts) (D(f u := g u)) (f t) = (D(f u := g u)) (f t)"
      by (intro apply_writes_other) simp
    then show ?thesis using True by simp
  next
    case False
    then show ?thesis using Cons by auto
  qed
qed simp

section \<open>Log and cache\<close>

lemma the_log_rest: "the_log (bio_rest s) = the_log s"
  by (simp add: bio_rest_def)

lemma the_log_abs: "rest (bio_abs d s') = rest (bio_abs d s) \<Longrightarrow> the_log s' = the_log s"
  using the_log_rest by (metis bio_abs_sel(3))

lemma mypid_log [simp]: "myproc (s\<lparr>the_log := l\<rparr>) = myproc s" "mypid (s\<lparr>the_log := l\<rparr>) = mypid s"
  by (simp_all add: myproc_def mycpu_def mypid_def)

lemma bio_inv_log [simp]: "bio_inv d (s\<lparr>the_log := l\<rparr>) = bio_inv d s"
  by (simp add: bio_inv_def)

lemma buf_of_log [simp]: "buf_of d (s\<lparr>the_log := l\<rparr>) = buf_of d s"
  by (rule buf_of_upd) simp

lemma bio_abs_log: "bio_abs d (s\<lparr>the_log := l\<rparr>) = (bio_abs d s)\<lparr>rest := (rest (bio_abs d s))\<lparr>the_log := l\<rparr>\<rparr>"
  by (simp add: bio_abs_def bio_rest_def cong: option.case_cong chan.case_cong if_cong)

lemma c_copy_log:
  assumes "L \<noteq> H" "\<not> busy a L" "\<not> busy a H" "hand a L = None" "hand a H = None"
  shows "c_release L (c_release H (c_write L (c_modify L v (c_read H h2 (c_read L h1 a))))) =
    a\<lparr>view := (view a)(L := v), dsk := (dsk a)(L := v), wr := wr a @ [(L, v)]\<rparr>"
  using assms by (cases a) (auto simp: c_defs fun_eq_iff)

lemma c_copy_home:
  assumes "L \<noteq> H" "\<not> busy a L" "\<not> busy a H" "hand a L = None" "hand a H = None" "refs a H = (if rec then 0 else 1)"
  shows "c_release H (c_release L ((if \<not> rec then c_unpin H else id) (c_write H (c_modify H v (c_read H h2 (c_read L h1 a)))))) =
    a\<lparr>view := (view a)(H := v), refs := (refs a)(H := 0), dsk := (dsk a)(H := v), wr := wr a @ [(H, v)]\<rparr>"
  using assms by (cases a) (auto simp: c_defs fun_eq_iff)

lemma log_read_pair:
  fixes s :: "'a logged_scheme"
  assumes inv: "bio_inv d s" and l: "ldev (the_log s) = d" "L = log_blk (the_log s) t" "H = lh_block (lh (the_log s)) t" "L \<noteq> H"
    and nb: "\<not> busy (bio_abs d s) L" "\<not> busy (bio_abs d s) H" "hand (bio_abs d s) L = None" "hand (bio_abs d s) H = None"
    and r: "refs (bio_abs d s) L = 0" "view (bio_abs d s) L = dsk (bio_abs d s) L" "refs (bio_abs d s) H < 2 ^ 31"
    and room: "card ({x. 0 < refs (bio_abs d s) x} \<union> {L, H}) \<le> NBUF"
  shows "\<exists>h1 s1 h2 s2. bread d L s = Some (h1, s1) \<and> bread d H s1 = Some (h2, s2) \<and> bio_inv d s2 \<and> the_log s1 = the_log s \<and>
    bio_abs d s2 = c_read H h2 (c_read L h1 (bio_abs d s)) \<and> hand (bio_abs d s2) L = Some h1 \<and> hand (bio_abs d s2) H = Some h2 \<and>
    view (bio_abs d s2) = view (bio_abs d s)"
proof -
  have "refs (bio_abs d s) L < 2 ^ 32 - 1" "refs (bio_abs d s) H < 2 ^ 32 - 1" using r by simp_all
  then obtain h1 s1 h2 s2 where rd: "bread d L s = Some (h1, s1)" "bread d H s1 = Some (h2, s2)" "bio_inv d s2"
      "bio_abs d s1 = c_read L h1 (bio_abs d s)" "bio_abs d s2 = c_read H h2 (c_read L h1 (bio_abs d s))"
    using bc.read_two [OF inv l(4) nb(1,2) _ _ room] by blast
  have "the_log s1 = the_log s" by (rule the_log_abs [of d]) (simp add: rd(4) c_defs)
  moreover have "hand (bio_abs d s2) L = Some h1" "hand (bio_abs d s2) H = Some h2" "view (bio_abs d s2) = view (bio_abs d s)"
    using l(4) by (simp_all add: rd(5) c_defs)
  ultimately show ?thesis using rd by blast
qed

lemma write_log_step:
  fixes s :: "'a logged_scheme"
  assumes inv: "bio_inv d s" and l: "ldev (the_log s) = d" "L = log_blk (the_log s) t" "H = lh_block (lh (the_log s)) t" "L \<noteq> H"
    and nb: "\<not> busy (bio_abs d s) L" "\<not> busy (bio_abs d s) H" "hand (bio_abs d s) L = None" "hand (bio_abs d s) H = None"
    and r: "refs (bio_abs d s) L = 0" "view (bio_abs d s) L = dsk (bio_abs d s) L" "refs (bio_abs d s) H < 2 ^ 31"
    and room: "card ({x. 0 < refs (bio_abs d s) x} \<union> {L, H}) \<le> NBUF"
    and pos: "0 < refs (bio_abs d s) H"
  shows "\<exists>s'. write_log_from (t # ts) s = write_log_from ts s' \<and> bio_inv d s' \<and> the_log s' = the_log s \<and>
    bio_abs d s' = (bio_abs d s)\<lparr>view := (view (bio_abs d s))(L := view (bio_abs d s) H),
      dsk := (dsk (bio_abs d s))(L := view (bio_abs d s) H), wr := wr (bio_abs d s) @ [(L, view (bio_abs d s) H)]\<rparr>"
proof -
  obtain h1 s1 h2 s2 where rd: "bread d L s = Some (h1, s1)" "bread d H s1 = Some (h2, s2)" "bio_inv d s2" "the_log s1 = the_log s"
      "bio_abs d s2 = c_read H h2 (c_read L h1 (bio_abs d s))"
    and h: "hand (bio_abs d s2) L = Some h1" "hand (bio_abs d s2) H = Some h2" and v: "view (bio_abs d s2) = view (bio_abs d s)"
    using log_read_pair [OF inv l nb r room] by blast
  obtain s3 where 3: "bwrite h1 (copy_data h1 h2 s2) = Some s3" "bio_inv d s3"
      "bio_abs d s3 = c_write L (c_modify L (view (bio_abs d s) H) (bio_abs d s2))"
    using bc.copy_through [OF rd(3) h(2,1)] by (auto simp: copy_data_def v)
  have "hand (bio_abs d s3) H = Some h2" "1 < refs (bio_abs d s3) H"
    using h pos l(4) by (simp_all add: 3(3) rd(5) c_defs)
  then obtain s4 where 4: "brelse h2 s3 = Some s4" "bio_inv d s4" "bio_abs d s4 = c_release H (bio_abs d s3)"
    using bc.rel [OF 3(2)] by blast
  have "hand (bio_abs d s4) L = Some h1" "view (bio_abs d s4) L = dsk (bio_abs d s4) L"
    using h l(4) by (simp_all add: 4(3) 3(3) rd(5) c_defs)
  then obtain s5 where 5: "brelse h1 s4 = Some s5" "bio_inv d s5" "bio_abs d s5 = c_release L (bio_abs d s4)"
    using bc.rel [OF 4(2)] by blast
  have e: "bio_abs d s5 = (bio_abs d s)\<lparr>view := (view (bio_abs d s))(L := view (bio_abs d s) H),
        dsk := (dsk (bio_abs d s))(L := view (bio_abs d s) H), wr := wr (bio_abs d s) @ [(L, view (bio_abs d s) H)]\<rparr>"
    unfolding 5(3) 4(3) 3(3) rd(5) by (rule c_copy_log [OF l(4) nb])
  have "write_log_from (t # ts) s = write_log_from ts s5"
    using rd(1,2) 3(1) 4(1) 5(1) l rd(4) by simp
  moreover have "the_log s5 = the_log s" by (rule the_log_abs [of d]) (simp add: e)
  ultimately show ?thesis using 5(2) e by blast
qed

lemma install_step:
  fixes s :: "'a logged_scheme"
  assumes inv: "bio_inv d s" and l: "ldev (the_log s) = d" "L = log_blk (the_log s) t" "H = lh_block (lh (the_log s)) t" "L \<noteq> H"
    and nb: "\<not> busy (bio_abs d s) L" "\<not> busy (bio_abs d s) H" "hand (bio_abs d s) L = None" "hand (bio_abs d s) H = None"
    and r: "refs (bio_abs d s) L = 0" "view (bio_abs d s) L = dsk (bio_abs d s) L" "refs (bio_abs d s) H < 2 ^ 31"
    and room: "card ({x. 0 < refs (bio_abs d s) x} \<union> {L, H}) \<le> NBUF"
    and rf: "refs (bio_abs d s) H = (if rec then 0 else 1)"
  shows "\<exists>s'. install_trans_from rec (t # ts) s = install_trans_from rec ts s' \<and> bio_inv d s' \<and> the_log s' = the_log s \<and>
    bio_abs d s' = (bio_abs d s)\<lparr>view := (view (bio_abs d s))(H := view (bio_abs d s) L), refs := (refs (bio_abs d s))(H := 0),
      dsk := (dsk (bio_abs d s))(H := view (bio_abs d s) L), wr := wr (bio_abs d s) @ [(H, view (bio_abs d s) L)]\<rparr>"
proof -
  obtain h1 s1 h2 s2 where rd: "bread d L s = Some (h1, s1)" "bread d H s1 = Some (h2, s2)" "bio_inv d s2" "the_log s1 = the_log s"
      "bio_abs d s2 = c_read H h2 (c_read L h1 (bio_abs d s))"
    and h: "hand (bio_abs d s2) L = Some h1" "hand (bio_abs d s2) H = Some h2" and v: "view (bio_abs d s2) = view (bio_abs d s)"
    using log_read_pair [OF inv l nb r room] by blast
  obtain s3 where 3: "bwrite h2 (copy_data h2 h1 s2) = Some s3" "bio_inv d s3"
      "bio_abs d s3 = c_write H (c_modify H (view (bio_abs d s) L) (bio_abs d s2))"
    using bc.copy_through [OF rd(3) h(1,2)] by (auto simp: copy_data_def v)
  define s3' where "s3' = (if \<not> rec then bunpin h2 s3 else s3)"
  have "hand (bio_abs d s3) H = Some h2" "\<not> rec \<Longrightarrow> 1 < refs (bio_abs d s3) H"
    using h rf l(4) by (simp_all add: 3(3) rd(5) c_defs)
  then have U: "bio_inv d s3'" "bio_abs d s3' = (if \<not> rec then c_unpin H else id) (bio_abs d s3)"
    using bc.unpin [OF 3(2)] 3(2) by (auto simp: s3'_def)
  have "hand (bio_abs d s3') L = Some h1" "view (bio_abs d s3') L = dsk (bio_abs d s3') L"
    using h l(4) r(2) by (simp_all add: U(2) 3(3) rd(5) c_defs)
  then obtain s4 where 4: "brelse h1 s3' = Some s4" "bio_inv d s4" "bio_abs d s4 = c_release L (bio_abs d s3')"
    using bc.rel [OF U(1)] by blast
  have "hand (bio_abs d s4) H = Some h2" "view (bio_abs d s4) H = dsk (bio_abs d s4) H"
    using h l(4) by (simp_all add: 4(3) U(2) 3(3) rd(5) c_defs)
  then obtain s5 where 5: "brelse h2 s4 = Some s5" "bio_inv d s5" "bio_abs d s5 = c_release H (bio_abs d s4)"
    using bc.rel [OF 4(2)] by blast
  have e: "bio_abs d s5 = (bio_abs d s)\<lparr>view := (view (bio_abs d s))(H := view (bio_abs d s) L), refs := (refs (bio_abs d s))(H := 0),
        dsk := (dsk (bio_abs d s))(H := view (bio_abs d s) L), wr := wr (bio_abs d s) @ [(H, view (bio_abs d s) L)]\<rparr>"
    unfolding 5(3) 4(3) U(2) 3(3) rd(5) by (rule c_copy_home [OF l(4) nb rf])
  have "install_trans_from rec (t # ts) s = install_trans_from rec ts s5"
    using rd(1,2) 3(1) 4(1) 5(1) l rd(4) by (simp add: s3'_def)
  moreover have "the_log s5 = the_log s" by (rule the_log_abs [of d]) (simp add: e)
  ultimately show ?thesis using 5(2) e by blast
qed

section \<open>The loops of a commit\<close>

definition in_log :: "log \<Rightarrow> u32 \<Rightarrow> bool" where
  "in_log l b \<longleftrightarrow> lstart l \<le> uint b \<and> uint b < lstart l + lsize l"

text \<open>
  A log that is inside the disk, with room for the logged blocks and their header, and whose
  logged blocks are outside of it.
\<close>

definition log_ok :: "log \<Rightarrow> bool" where
  "log_ok l \<longleftrightarrow> 0 \<le> lstart l \<and> lstart l + lsize l < 2 ^ 31 \<and> 0 \<le> lh_n (lh l) \<and> lh_n (lh l) < lsize l \<and>
     lh_n (lh l) < int NBUF \<and> (\<forall>t < nat (lh_n (lh l)). \<not> in_log l (lh_block (lh l) t))"

abbreviation logn :: "log \<Rightarrow> nat" where
  "logn l \<equiv> nat (lh_n (lh l))"

lemma uint_small: "0 \<le> i \<Longrightarrow> i < 2 ^ 31 \<Longrightarrow> uint (of_int i :: u32) = i"
  by (simp add: uint_word_of_int)

lemma log_blocks:
  assumes "log_ok l"
  shows "t < logn l \<Longrightarrow> uint (log_blk l t) = lstart l + int t + 1" "uint (head_blk l) = lstart l"
    "t < logn l \<Longrightarrow> in_log l (log_blk l t)" "in_log l (head_blk l)" "t < logn l \<Longrightarrow> log_blk l t \<noteq> head_blk l"
    "t < logn l \<Longrightarrow> u < logn l \<Longrightarrow> log_blk l t = log_blk l u \<Longrightarrow> t = u"
    "t < logn l \<Longrightarrow> u < logn l \<Longrightarrow> log_blk l t \<noteq> lh_block (lh l) u" "u < logn l \<Longrightarrow> head_blk l \<noteq> lh_block (lh l) u"
proof -
  have a: "uint (log_blk l t) = lstart l + int t + 1" if "t < logn l" for t
    unfolding log_blk_def by (rule uint_small) (use assms that in \<open>auto simp: log_ok_def\<close>)
  have b: "uint (head_blk l) = lstart l"
    unfolding head_blk_def by (rule uint_small) (use assms in \<open>auto simp: log_ok_def\<close>)
  have c: "in_log l (log_blk l t)" if "t < logn l" for t using a [OF that] assms that by (auto simp: in_log_def log_ok_def)
  have d: "in_log l (head_blk l)" using b assms by (auto simp: in_log_def log_ok_def)
  show "t < logn l \<Longrightarrow> uint (log_blk l t) = lstart l + int t + 1" "uint (head_blk l) = lstart l"
    "t < logn l \<Longrightarrow> in_log l (log_blk l t)" "in_log l (head_blk l)" using a b c d by blast+
  show "t < logn l \<Longrightarrow> log_blk l t \<noteq> head_blk l" using a [of t] b by auto
  show "t < logn l \<Longrightarrow> u < logn l \<Longrightarrow> log_blk l t = log_blk l u \<Longrightarrow> t = u"
  proof -
    assume "t < logn l" "u < logn l" and e: "log_blk l t = log_blk l u"
    from a [OF this(1)] a [OF this(2)] have "lstart l + int t + 1 = lstart l + int u + 1" unfolding e by (rule trans [OF sym])
    then show "t = u" by simp
  qed
  have e: "\<not> in_log l (lh_block (lh l) u)" if "u < logn l" for u using assms that by (simp add: log_ok_def)
  show "t < logn l \<Longrightarrow> u < logn l \<Longrightarrow> log_blk l t \<noteq> lh_block (lh l) u" using c [of t] e [of u] by auto
  show "u < logn l \<Longrightarrow> head_blk l \<noteq> lh_block (lh l) u" using d e [of u] by auto
qed

text \<open>A cache that nobody uses, in which exactly the given blocks are pinned, once each.\<close>

definition pinned :: "u32 set \<Rightarrow> (u32, bytes, nat, 'r) cache \<Rightarrow> bool" where
  "pinned P a \<longleftrightarrow> (\<forall>b. \<not> busy a b \<and> hand a b = None \<and> refs a b = (if b \<in> P then 1 else 0))"

abbreviation home :: "log \<Rightarrow> nat \<Rightarrow> u32" where
  "home l \<equiv> lh_block (lh l)"

lemma pinned_room:
  assumes "pinned (home l ` T) a" "T \<subseteq> {..<logn l}" "log_ok l" "h \<in> home l ` T \<or> T = {}"
  shows "card ({x. 0 < refs a x} \<union> {b, h}) \<le> NBUF"
proof (cases "T = {}")
  case True
  then have "{x. 0 < refs a x} \<union> {b, h} = {b, h}" using assms(1) by (auto simp: pinned_def)
  also have "card \<dots> \<le> 2" by (simp add: card_insert_if)
  finally show ?thesis by (simp add: NBUF_def)
next
  case False
  then have e: "{x. 0 < refs a x} \<union> {b, h} = insert b (home l ` T)" using assms(1,4) by (auto simp: pinned_def split: if_splits)
  have "card (insert b (home l ` T)) \<le> Suc (card T)"
    using finite_subset [OF assms(2)] card_image_le [of T "home l"] by (simp add: card_insert_if)
  moreover have "card T \<le> logn l" using card_mono [OF _ assms(2)] by simp
  moreover have "logn l < NBUF" using assms(3) by (simp add: log_ok_def nat_less_iff)
  ultimately show ?thesis unfolding e by linarith
qed

lemma write_log_loop:
  fixes s :: "'a logged_scheme"
  assumes "bio_inv d s" "ldev (the_log s) = d" "the_log s = l" "log_ok l" "pinned (home l ` {..<logn l}) (bio_abs d s)"
    and "\<And>t. t < logn l \<Longrightarrow> view (bio_abs d s) (log_blk l t) = dsk (bio_abs d s) (log_blk l t)" and "set ts \<subseteq> {..<logn l}"
  defines "W \<equiv> writes_of (log_blk l) (\<lambda>t. view (bio_abs d s) (home l t)) ts"
  shows "\<exists>s'. write_log_from ts s = Some s' \<and> bio_inv d s' \<and> the_log s' = l \<and>
    bio_abs d s' = (bio_abs d s)\<lparr>view := apply_writes W (view (bio_abs d s)), dsk := apply_writes W (dsk (bio_abs d s)),
      wr := wr (bio_abs d s) @ W\<rparr>"
  using assms(1-7) unfolding W_def
proof (induction ts arbitrary: s)
  case Nil
  then show ?case by simp
next
  case (Cons t ts)
  have t: "t < logn l" using Cons.prems(7) by simp
  note lb = log_blocks [OF Cons.prems(4)]
  define a where "a = bio_abs d s"
  have H: "home l t \<in> home l ` {..<logn l}" using t by simp
  have L: "log_blk l t \<notin> home l ` {..<logn l}" using lb(7) [OF t] by auto
  have pin: "pinned (home l ` {..<logn l}) a" using Cons.prems(5) by (simp add: a_def)
  have refs: "refs a (home l t) = 1" "refs a (log_blk l t) = 0" using pin H L by (simp_all add: pinned_def)
  have room: "card ({x. 0 < refs a x} \<union> {log_blk l t, home l t}) \<le> NBUF"
    by (rule pinned_room [OF pin _ Cons.prems(4)]) (use H in auto)
  have nb: "\<not> busy a b" "hand a b = None" for b using pin by (simp_all add: pinned_def)
  have e: "log_blk l t = log_blk (the_log s) t" "home l t = lh_block (lh (the_log s)) t" using Cons.prems(3) by simp_all
  have r: "refs a (home l t) < 2 ^ 31" "0 < refs a (home l t)" using refs by simp_all
  obtain s1 where s1: "write_log_from (t # ts) s = write_log_from ts s1" "bio_inv d s1" "the_log s1 = l"
      "bio_abs d s1 = a\<lparr>view := (view a)(log_blk l t := view a (home l t)), dsk := (dsk a)(log_blk l t := view a (home l t)),
        wr := wr a @ [(log_blk l t, view a (home l t))]\<rparr>"
    using write_log_step [OF Cons.prems(1,2) e lb(7) [OF t t], folded a_def, OF nb(1) nb(1) nb(2) nb(2) refs(2)
        Cons.prems(6) [OF t, folded a_def] r(1) room r(2), of ts]
    unfolding Cons.prems(3) by blast
  have v: "view (bio_abs d s1) (home l u) = view a (home l u)" if "u < logn l" for u
    using lb(7) [OF t that] by (simp add: s1(4) eq_commute [of "home l u"])
  have w: "writes_of (log_blk l) (\<lambda>t. view (bio_abs d s1) (home l t)) ts = writes_of (log_blk l) (\<lambda>t. view a (home l t)) ts"
    using v Cons.prems(7) by (auto simp: writes_of_def)
  have "\<exists>s'. write_log_from ts s1 = Some s' \<and> bio_inv d s' \<and> the_log s' = l \<and>
    bio_abs d s' = (bio_abs d s1)\<lparr>view := apply_writes (writes_of (log_blk l) (\<lambda>t. view (bio_abs d s1) (home l t)) ts) (view (bio_abs d s1)),
      dsk := apply_writes (writes_of (log_blk l) (\<lambda>t. view (bio_abs d s1) (home l t)) ts) (dsk (bio_abs d s1)),
      wr := wr (bio_abs d s1) @ writes_of (log_blk l) (\<lambda>t. view (bio_abs d s1) (home l t)) ts\<rparr>"
    by (rule Cons.IH) (use s1 Cons.prems pin in \<open>auto simp: pinned_def a_def\<close>)
  then show ?case unfolding w s1(1) unfolding s1(4) a_def [symmetric] by simp
qed

lemma install_loop:
  fixes s :: "'a logged_scheme"
  assumes "bio_inv d s" "ldev (the_log s) = d" "the_log s = l" "log_ok l"
    and "pinned (if rec then {} else home l ` set ts) (bio_abs d s)" "rec \<or> inj_on (home l) {..<logn l}" "distinct ts"
    and "\<And>t. t < logn l \<Longrightarrow> view (bio_abs d s) (log_blk l t) = dsk (bio_abs d s) (log_blk l t)" and "set ts \<subseteq> {..<logn l}"
  defines "W \<equiv> writes_of (home l) (\<lambda>t. view (bio_abs d s) (log_blk l t)) ts"
  shows "\<exists>s'. install_trans_from rec ts s = Some s' \<and> bio_inv d s' \<and> the_log s' = l \<and>
    bio_abs d s' = (bio_abs d s)\<lparr>view := apply_writes W (view (bio_abs d s)), refs := (\<lambda>_. 0), dsk := apply_writes W (dsk (bio_abs d s)),
      wr := wr (bio_abs d s) @ W\<rparr>"
  using assms(1-9) unfolding W_def
proof (induction ts arbitrary: s)
  case Nil
  then have "refs (bio_abs d s) = (\<lambda>_. 0)" by (auto simp: pinned_def fun_eq_iff)
  then show ?case using Nil by simp
next
  case (Cons t ts)
  have t: "t < logn l" using Cons.prems(9) by simp
  note lb = log_blocks [OF Cons.prems(4)]
  define a where "a = bio_abs d s"
  have pin: "pinned (if rec then {} else home l ` set (t # ts)) a" using Cons.prems(5) by (simp add: a_def)
  have L: "log_blk l t \<notin> home l ` set (t # ts)" using lb(7) [OF t] Cons.prems(9) by auto
  have refs: "refs a (home l t) = (if rec then 0 else 1)" "refs a (log_blk l t) = 0" using pin L by (auto simp: pinned_def)
  have room: "card ({x. 0 < refs a x} \<union> {log_blk l t, home l t}) \<le> NBUF"
    by (rule pinned_room [OF _ _ Cons.prems(4), of "if rec then {} else set (t # ts)"]) (use pin Cons.prems(9) in \<open>auto split: if_splits\<close>)
  have nb: "\<not> busy a b" "hand a b = None" for b using pin by (simp_all add: pinned_def)
  have e: "log_blk l t = log_blk (the_log s) t" "home l t = lh_block (lh (the_log s)) t" using Cons.prems(3) by simp_all
  have r: "refs a (home l t) < 2 ^ 31" using refs by simp
  obtain s1 where s1: "install_trans_from rec (t # ts) s = install_trans_from rec ts s1" "bio_inv d s1" "the_log s1 = l"
      "bio_abs d s1 = a\<lparr>view := (view a)(home l t := view a (log_blk l t)), refs := (refs a)(home l t := 0),
        dsk := (dsk a)(home l t := view a (log_blk l t)), wr := wr a @ [(home l t, view a (log_blk l t))]\<rparr>"
    using install_step [OF Cons.prems(1,2) e lb(7) [OF t t], folded a_def, OF nb(1) nb(1) nb(2) nb(2) refs(2)
        Cons.prems(8) [OF t, folded a_def] r room refs(1), of ts]
    unfolding Cons.prems(3) by blast
  have keep: "log_blk l u \<noteq> home l t" if "u < logn l" for u using lb(7) [OF that t] .
  have w: "writes_of (home l) (\<lambda>t. view (bio_abs d s1) (log_blk l t)) ts = writes_of (home l) (\<lambda>t. view a (log_blk l t)) ts"
    using keep Cons.prems(9) by (auto simp: writes_of_def s1(4))
  have "pinned (if rec then {} else home l ` set ts) (bio_abs d s1)"
  proof -
    have "b = home l t" if "b \<in> home l ` set (t # ts)" "b \<notin> home l ` set ts" for b using that by auto
    moreover have "home l t \<notin> home l ` set ts" if "\<not> rec"
      using Cons.prems(6,7,9) that by (auto simp: inj_on_def)
    ultimately show ?thesis using pin by (auto simp: pinned_def s1(4))
  qed
  then have "\<exists>s'. install_trans_from rec ts s1 = Some s' \<and> bio_inv d s' \<and> the_log s' = l \<and>
    bio_abs d s' = (bio_abs d s1)\<lparr>view := apply_writes (writes_of (home l) (\<lambda>t. view (bio_abs d s1) (log_blk l t)) ts) (view (bio_abs d s1)),
      refs := (\<lambda>_. 0), dsk := apply_writes (writes_of (home l) (\<lambda>t. view (bio_abs d s1) (log_blk l t)) ts) (dsk (bio_abs d s1)),
      wr := wr (bio_abs d s1) @ writes_of (home l) (\<lambda>t. view (bio_abs d s1) (log_blk l t)) ts\<rparr>"
    by (intro Cons.IH) (use s1(2,3) Cons.prems keep in \<open>auto simp: s1(4) a_def\<close>)
  then show ?case unfolding w s1(1) unfolding s1(4) a_def [symmetric] by simp
qed

text \<open>Writing the header changes the header block only.\<close>

lemma write_head_spec:
  fixes s :: "'a logged_scheme"
  assumes inv: "bio_inv d s" and l: "ldev (the_log s) = d" and hb: "hb = head_blk (the_log s)"
    and nb: "\<not> busy (bio_abs d s) hb" "hand (bio_abs d s) hb = None"
    and r: "refs (bio_abs d s) hb = 0" "card {x. 0 < refs (bio_abs d s) x} < NBUF"
  defines "x \<equiv> put_head (lh (the_log s)) (view (bio_abs d s) hb)"
  shows "\<exists>s'. write_head s = Some s' \<and> bio_inv d s' \<and> the_log s' = the_log s \<and>
    bio_abs d s' = (bio_abs d s)\<lparr>view := (view (bio_abs d s))(hb := x), dsk := (dsk (bio_abs d s))(hb := x), wr := wr (bio_abs d s) @ [(hb, x)]\<rparr>"
proof -
  have "refs (bio_abs d s) hb < 2 ^ 32 - 1" "room NBUF hb (bio_abs d s)" using r by (simp_all add: room_def)
  then obtain i s1 where 1: "bread d hb s = Some (i, s1)" "bio_inv d s1" "bio_abs d s1 = c_read hb i (bio_abs d s)"
    using bc.rd [OF inv nb(1)] by blast
  have lg: "the_log s1 = the_log s" by (rule the_log_abs [of d]) (simp add: 1(3) c_defs)
  have h: "hand (bio_abs d s1) hb = Some i" by (simp add: 1(3) c_defs)
  have c: "bdata (bufs s1 i) = view (bio_abs d s) hb" using bc.content [OF 1(2) h] by (simp add: 1(3) c_defs)
  let ?m = "upd_buf i (\<lambda>b. b\<lparr>bdata := x\<rparr>) s1"
  have m: "bio_inv d ?m" "bio_abs d ?m = c_modify hb x (bio_abs d s1)" using bc.modify [OF 1(2) h] by simp_all
  have "hand (bio_abs d ?m) hb = Some i" using h by (simp add: m(2) c_defs)
  then obtain s2 where 2: "bwrite i ?m = Some s2" "bio_inv d s2" "bio_abs d s2 = c_write hb (c_modify hb x (bio_abs d s1))"
    using bc.wt [OF m(1)] m(2) by auto
  have "hand (bio_abs d s2) hb = Some i" "view (bio_abs d s2) hb = dsk (bio_abs d s2) hb" using h by (simp_all add: 2(3) c_defs)
  then obtain s3 where 3: "brelse i s2 = Some s3" "bio_inv d s3" "bio_abs d s3 = c_release hb (bio_abs d s2)"
    using bc.rel [OF 2(2)] by blast
  have e: "bio_abs d s3 = (bio_abs d s)\<lparr>view := (view (bio_abs d s))(hb := x), dsk := (dsk (bio_abs d s))(hb := x), wr := wr (bio_abs d s) @ [(hb, x)]\<rparr>"
    unfolding 3(3) 2(3) 1(3) using nb by (cases "bio_abs d s") (auto simp: c_defs fun_eq_iff)
  have "write_head s = Some s3" using 1(1) 2(1) 3(1) l hb lg c by (simp add: write_head_def x_def)
  moreover have "the_log s3 = the_log s" by (rule the_log_abs [of d]) (simp add: e)
  ultimately show ?thesis using 3(2) e by blast
qed

section \<open>Commit and recovery\<close>

text \<open>The writes of a commit, for the contents \<open>V\<close> of the cache and the old contents \<open>h\<close> of the header block.\<close>

definition commit_writes :: "log \<Rightarrow> (u32 \<Rightarrow> bytes) \<Rightarrow> bytes \<Rightarrow> (u32 \<times> bytes) list" where
  "commit_writes l V h =
     (let x = put_head (lh l) h; ts = [0..<logn l]
      in writes_of (log_blk l) (\<lambda>t. V (home l t)) ts @ [(head_blk l, x)] @
         writes_of (home l) (\<lambda>t. V (home l t)) ts @ [(head_blk l, put_head ((lh l)\<lparr>lh_n := 0\<rparr>) x)])"

text \<open>
  The state between operations: nobody uses the cache, the logged blocks are pinned, and every
  block that differs from the disk is logged.
\<close>

definition log_ready :: "u32 \<Rightarrow> 'a logged_scheme \<Rightarrow> bool" where
  "log_ready d s \<longleftrightarrow> bio_inv d s \<and> ldev (the_log s) = d \<and> log_ok (the_log s) \<and>
     pinned (home (the_log s) ` {..<logn (the_log s)}) (bio_abs d s) \<and> inj_on (home (the_log s)) {..<logn (the_log s)} \<and>
     (\<forall>b. b \<notin> home (the_log s) ` {..<logn (the_log s)} \<longrightarrow> view (bio_abs d s) b = dsk (bio_abs d s) b)"

lemma log_blk_clear: "log_blk (l\<lparr>lh := h\<rparr>) = log_blk l" "head_blk (l\<lparr>lh := h\<rparr>) = head_blk l"
  by (simp_all add: log_blk_def head_blk_def fun_eq_iff)

lemma pinned_refs: "pinned P a \<Longrightarrow> finite P \<Longrightarrow> card {x. 0 < refs a x} = card P"
proof -
  assume "pinned P a" "finite P"
  then have "{x. 0 < refs a x} = P" by (auto simp: pinned_def)
  then show ?thesis by simp
qed

lemma log_readyD:
  assumes "log_ready d s" "the_log s = l"
  shows "bio_inv d s" "ldev (the_log s) = d" "log_ok l" "pinned (home l ` {..<logn l}) (bio_abs d s)" "inj_on (home l) {..<logn l}"
    "b \<notin> home l ` {..<logn l} \<Longrightarrow> view (bio_abs d s) b = dsk (bio_abs d s) b"
  using assms by (auto simp: log_ready_def)

lemma not_home:
  assumes "log_ok l"
  shows "t < logn l \<Longrightarrow> log_blk l t \<notin> home l ` {..<logn l}" "head_blk l \<notin> home l ` {..<logn l}" "set [0..<logn l] \<subseteq> {..<logn l}"
    "home l ` set [0..<logn l] = home l ` {..<logn l}" "inj_on (log_blk l) {..<logn l}" "head_blk l \<notin> log_blk l ` set [0..<logn l]"
proof -
  note lb = log_blocks [OF assms]
  show "t < logn l \<Longrightarrow> log_blk l t \<notin> home l ` {..<logn l}" "head_blk l \<notin> home l ` {..<logn l}" "inj_on (log_blk l) {..<logn l}"
    using lb(6,7,8) unfolding inj_on_def by blast+
  show "head_blk l \<notin> log_blk l ` set [0..<logn l]" using lb(5) by (metis atLeastLessThan_iff imageE set_upt)
qed (simp_all add: atLeast0LessThan)

text \<open>First half: the blocks and then the header go to the log.\<close>

lemma commit_log_phase:
  fixes s :: "'a logged_scheme"
  assumes ready: "log_ready d s" and lg: "the_log s = l"
  defines "a \<equiv> bio_abs d s"
  defines "W \<equiv> writes_of (log_blk l) (\<lambda>t. view a (home l t)) [0..<logn l] @ [(head_blk l, put_head (lh l) (dsk a (head_blk l)))]"
  shows "\<exists>s1 s2. write_log s = Some s1 \<and> write_head s1 = Some s2 \<and> bio_inv d s2 \<and> the_log s2 = l \<and>
    bio_abs d s2 = a\<lparr>view := apply_writes W (view a), dsk := apply_writes W (dsk a), wr := wr a @ W\<rparr>"
proof -
  note R = log_readyD [OF ready lg, folded a_def] and N = not_home [OF log_readyD(3) [OF ready lg]]
  define W1 where "W1 = writes_of (log_blk l) (\<lambda>t. view a (home l t)) [0..<logn l]"
  obtain s1 where s1: "write_log_from [0..<logn l] s = Some s1" "bio_inv d s1" "the_log s1 = l"
      "bio_abs d s1 = a\<lparr>view := apply_writes W1 (view a), dsk := apply_writes W1 (dsk a), wr := wr a @ W1\<rparr>"
    using write_log_loop [OF R(1,2) lg R(3), folded a_def, OF R(4) R(6) [OF N(1)] N(3)] unfolding W1_def by blast
  have hd1: "apply_writes W1 f (head_blk l) = f (head_blk l)" for f :: "u32 \<Rightarrow> bytes"
    by (rule apply_writes_other) (use N(6) in \<open>simp add: W1_def\<close>)
  have W: "W = W1 @ [(head_blk l, put_head (lh l) (dsk a (head_blk l)))]" by (simp add: W_def W1_def)
  have "card (home l ` {..<logn l}) < NBUF"
    using card_image_le [of "{..<logn l}" "home l"] R(3) by (auto simp: log_ok_def nat_less_iff)
  then have nb: "card {x. 0 < refs (bio_abs d s1) x} < NBUF" "refs (bio_abs d s1) (head_blk l) = 0"
      "\<not> busy (bio_abs d s1) b" "hand (bio_abs d s1) b = None" for b
    using pinned_refs [OF R(4)] R(4) N(2) by (simp_all add: s1(4) pinned_def)
  have dev: "ldev (the_log s1) = d" "head_blk l = head_blk (the_log s1)" using s1(3) R(2) lg by simp_all
  obtain s2 where s2: "write_head s1 = Some s2" "bio_inv d s2" "the_log s2 = l"
      "bio_abs d s2 = a\<lparr>view := apply_writes W (view a), dsk := apply_writes W (dsk a), wr := wr a @ W\<rparr>"
    using write_head_spec [OF s1(2) dev nb(3,4,2,1)] R(6) [OF N(2)] unfolding s1(3,4) by (auto simp: hd1 W)
  have "write_log s = Some s1" using s1(1) by (simp add: write_log_def lg)
  with s2 show ?thesis by blast
qed

text \<open>Second half: the blocks go to their homes, then the header is cleared.\<close>

lemma install_phase:
  fixes s :: "'a logged_scheme"
  assumes s: "bio_inv d s" "ldev (the_log s) = d" and lg: "the_log s = l" and ok: "log_ok l"
    and pin: "pinned (if rec then {} else home l ` {..<logn l}) (bio_abs d s)" and inj: "rec \<or> inj_on (home l) {..<logn l}"
  defines "a \<equiv> bio_abs d s"
  assumes cl: "\<And>t. t < logn l \<Longrightarrow> view a (log_blk l t) = dsk a (log_blk l t)" "view a (head_blk l) = dsk a (head_blk l)"
  defines "W \<equiv> writes_of (home l) (\<lambda>t. view a (log_blk l t)) [0..<logn l] @ [(head_blk l, put_head ((lh l)\<lparr>lh_n := 0\<rparr>) (dsk a (head_blk l)))]"
  shows "\<exists>s1 s2. install_trans rec s = Some s1 \<and> write_head (clear_head s1) = Some s2 \<and> bio_inv d s2 \<and>
    the_log s2 = l\<lparr>lh := (lh l)\<lparr>lh_n := 0\<rparr>\<rparr> \<and> view (bio_abs d s2) = apply_writes W (view a) \<and> disk s2 = apply_writes W (dsk a) \<and>
    dwrites s2 = wr a @ W \<and> pinned {} (bio_abs d s2)"
proof -
  note N = not_home [OF ok]
  define W1 where "W1 = writes_of (home l) (\<lambda>t. view a (log_blk l t)) [0..<logn l]"
  have p: "pinned (if rec then {} else home l ` set [0..<logn l]) (bio_abs d s)" using pin unfolding N(4) .
  obtain s1 where s1: "install_trans_from rec [0..<logn l] s = Some s1" "bio_inv d s1" "the_log s1 = l"
      "bio_abs d s1 = a\<lparr>view := apply_writes W1 (view a), refs := (\<lambda>_. 0), dsk := apply_writes W1 (dsk a), wr := wr a @ W1\<rparr>"
    using install_loop [OF s lg ok p inj distinct_upt cl(1) [unfolded a_def] N(3)] unfolding W1_def a_def by blast
  have hd1: "apply_writes W1 f (head_blk l) = f (head_blk l)" for f :: "u32 \<Rightarrow> bytes"
    by (rule apply_writes_other) (use N(2,4) in \<open>simp add: W1_def\<close>)
  have W: "W = W1 @ [(head_blk l, put_head ((lh l)\<lparr>lh_n := 0\<rparr>) (dsk a (head_blk l)))]" by (simp add: W_def W1_def)
  define l' where "l' = l\<lparr>lh := (lh l)\<lparr>lh_n := 0\<rparr>\<rparr>"
  define t where "t = clear_head s1"
  have t: "bio_inv d t" "the_log t = l'" "bio_abs d t = (bio_abs d s1)\<lparr>rest := (rest (bio_abs d s1))\<lparr>the_log := l'\<rparr>\<rparr>"
    "ldev (the_log t) = d" "head_blk l = head_blk (the_log t)"
    using s1(2,3) s(2) lg by (simp_all add: t_def clear_head_def bio_abs_log l'_def log_blk_clear)
  have nb: "\<not> busy (bio_abs d t) b" "hand (bio_abs d t) b = None" "refs (bio_abs d t) b = 0" "card {x. 0 < refs (bio_abs d t) x} < NBUF" for b
    using pin by (simp_all add: t(3) s1(4) pinned_def NBUF_def a_def)
  obtain s2 where s2: "write_head t = Some s2" "bio_inv d s2" "the_log s2 = l'"
      "bio_abs d s2 = (bio_abs d t)\<lparr>view := apply_writes W (view a), dsk := apply_writes W (dsk a), wr := wr a @ W\<rparr>"
    using write_head_spec [OF t(1,4,5) nb] cl(2) unfolding t(2,3) s1(4) by (auto simp: hd1 W l'_def)
  have "disk s2 = apply_writes W (dsk a)" "dwrites s2 = wr a @ W"
    using arg_cong [OF s2(4), of dsk] arg_cong [OF s2(4), of wr] by (simp_all add: bio_abs_sel)
  moreover have "install_trans rec s = Some s1" using s1(1) by (simp add: install_trans_def lg)
  moreover have "pinned {} (bio_abs d s2)" using nb by (simp add: pinned_def s2(4))
  ultimately show ?thesis using s2 unfolding t_def l'_def by auto
qed

lemma commit_spec:
  fixes s :: "'a logged_scheme"
  assumes ready: "log_ready d s" and n: "0 < lh_n (lh (the_log s))" and lg: "the_log s = l"
  defines "W \<equiv> commit_writes l (view (bio_abs d s)) (disk s (head_blk l))"
  shows "\<exists>s'. commit s = Some s' \<and> bio_inv d s' \<and> the_log s' = l\<lparr>lh := (lh l)\<lparr>lh_n := 0\<rparr>\<rparr> \<and>
    view (bio_abs d s') = apply_writes W (view (bio_abs d s)) \<and> disk s' = apply_writes W (disk s) \<and>
    dwrites s' = dwrites s @ W \<and> pinned {} (bio_abs d s')"
proof -
  note R = log_readyD [OF ready lg] and N = not_home [OF log_readyD(3) [OF ready lg]] and lb = log_blocks [OF log_readyD(3) [OF ready lg]]
  define a where "a = bio_abs d s"
  define W1 where "W1 = writes_of (log_blk l) (\<lambda>t. view a (home l t)) [0..<logn l] @ [(head_blk l, put_head (lh l) (dsk a (head_blk l)))]"
  obtain s1 s2 where s2: "write_log s = Some s1" "write_head s1 = Some s2" "bio_inv d s2" "the_log s2 = l"
      "bio_abs d s2 = a\<lparr>view := apply_writes W1 (view a), dsk := apply_writes W1 (dsk a), wr := wr a @ W1\<rparr>"
    using commit_log_phase [OF ready lg] unfolding a_def W1_def by blast
  have at: "apply_writes W1 f (log_blk l t) = view a (home l t)" if "t < logn l" for t and f :: "u32 \<Rightarrow> bytes"
  proof -
    have "apply_writes (writes_of (log_blk l) (\<lambda>t. view a (home l t)) [0..<logn l]) f (log_blk l t) = view a (home l t)"
      by (rule apply_writes_of) (use that N(5) in \<open>auto simp: atLeast0LessThan\<close>)
    then show ?thesis using lb(5) [OF that] by (simp add: W1_def)
  qed
  have hb: "apply_writes W1 f (head_blk l) = put_head (lh l) (dsk a (head_blk l))" for f :: "u32 \<Rightarrow> bytes" by (simp add: W1_def)
  have dev: "ldev (the_log s2) = d" using s2(4) R(2) lg by simp
  have pin: "pinned (if False then {} else home l ` {..<logn l}) (bio_abs d s2)" using R(4) by (simp add: s2(5) pinned_def a_def)
  have cl: "view (bio_abs d s2) (log_blk l t) = dsk (bio_abs d s2) (log_blk l t)" if "t < logn l" for t using at [OF that] by (simp add: s2(5))
  have cl2: "view (bio_abs d s2) (head_blk l) = dsk (bio_abs d s2) (head_blk l)" by (simp add: s2(5) hb)
  define W2 where "W2 = writes_of (home l) (\<lambda>t. view (bio_abs d s2) (log_blk l t)) [0..<logn l] @
      [(head_blk l, put_head ((lh l)\<lparr>lh_n := 0\<rparr>) (dsk (bio_abs d s2) (head_blk l)))]"
  obtain s3 s4 where s4: "install_trans False s2 = Some s3" "write_head (clear_head s3) = Some s4" "bio_inv d s4"
      "the_log s4 = l\<lparr>lh := (lh l)\<lparr>lh_n := 0\<rparr>\<rparr>" "view (bio_abs d s4) = apply_writes W2 (view (bio_abs d s2))"
      "disk s4 = apply_writes W2 (dsk (bio_abs d s2))" "dwrites s4 = wr (bio_abs d s2) @ W2" "pinned {} (bio_abs d s4)"
    using install_phase [OF s2(3) dev s2(4) R(3) pin disjI2 [OF R(5)] cl cl2] unfolding W2_def by blast
  have "writes_of (home l) (\<lambda>t. view (bio_abs d s2) (log_blk l t)) [0..<logn l] = writes_of (home l) (\<lambda>t. view a (home l t)) [0..<logn l]"
    using at by (auto simp: writes_of_def s2(5))
  then have "W = W1 @ W2" by (simp add: W_def commit_writes_def Let_def W1_def W2_def s2(5) hb bio_abs_sel a_def)
  moreover have "commit s = Some s4" using n s2(1,2) s4(1,2) by (simp add: commit_def)
  ultimately show ?thesis using s4(3-) by (auto simp: s2(5) a_def bio_abs_sel)
qed

section \<open>The header on disk\<close>

lemma put_blocks:
  "get32 (fold (\<lambda>i d. put32 d (4 + 4 * i) (f i)) [0..<n] e) 0 = get32 e 0 \<and>
   (\<forall>i < n. get32 (fold (\<lambda>i d. put32 d (4 + 4 * i) (f i)) [0..<n] e) (4 + 4 * i) = f i)"
proof (induction n)
  case (Suc n)
  then show ?case by (auto simp: less_Suc_eq get32_put32_other)
qed simp

lemma head_put_head:
  assumes "0 \<le> lh_n h" "lh_n h < 2 ^ 31"
  shows "head_n (put_head h d) = lh_n h" "i < nat (lh_n h) \<Longrightarrow> head_block (put_head h d) i = lh_block h i"
proof -
  have "sint (of_int (lh_n h) :: u32) = lh_n h"
    using assms uint_small [OF assms] by (simp add: sint_uint signed_take_bit_int_eq_self)
  then show "head_n (put_head h d) = lh_n h" by (simp add: head_n_def put_head_def put_blocks)
  show "i < nat (lh_n h) \<Longrightarrow> head_block (put_head h d) i = lh_block h i" by (simp add: head_block_def put_head_def put_blocks)
qed

definition head_ok :: "log \<Rightarrow> bytes \<Rightarrow> bool" where
  "head_ok l x \<longleftrightarrow> 0 \<le> head_n x \<and> head_n x < lsize l \<and> head_n x < int NBUF \<and> (\<forall>t < nat (head_n x). \<not> in_log l (head_block x t))"

definition recover_writes :: "log \<Rightarrow> (u32 \<Rightarrow> bytes) \<Rightarrow> (u32 \<times> bytes) list" where
  "recover_writes l D =
     (let x = D (head_blk l)
      in writes_of (head_block x) (\<lambda>t. D (log_blk l t)) [0..<nat (head_n x)] @ [(head_blk l, put32 x 0 0)])"

text \<open>A freshly booted system: an unused cache over the disk.\<close>

definition fresh :: "u32 \<Rightarrow> 'a bio_scheme \<Rightarrow> bool" where
  "fresh d r \<longleftrightarrow> bio_inv d r \<and> pinned {} (bio_abs d r) \<and> view (bio_abs d r) = disk r"

lemma read_head_spec:
  fixes r :: "'a logged_scheme"
  assumes "fresh d r" "ldev (the_log r) = d" "head_n (disk r (head_blk (the_log r))) \<le> int LOGSIZE"
  defines "x \<equiv> disk r (head_blk (the_log r))"
  defines "l' \<equiv> (the_log r)\<lparr>lh := \<lparr>lh_n = head_n x, lh_block = (\<lambda>i. if i < nat (head_n x) then head_block x i else lh_block (lh (the_log r)) i)\<rparr>\<rparr>"
  shows "\<exists>r'. read_head r = Some r' \<and> bio_inv d r' \<and> the_log r' = l' \<and> bio_abs d r' = (bio_abs d r)\<lparr>rest := (rest (bio_abs d r))\<lparr>the_log := l'\<rparr>\<rparr>"
proof -
  let ?hb = "head_blk (the_log r)"
  have f: "bio_inv d r" "\<not> busy (bio_abs d r) b" "hand (bio_abs d r) b = None" "refs (bio_abs d r) b = 0" "view (bio_abs d r) = disk r" for b
    using assms(1) by (simp_all add: fresh_def pinned_def)
  have "room NBUF ?hb (bio_abs d r)" by (simp add: room_def f NBUF_def)
  then obtain i s1 where 1: "bread d ?hb r = Some (i, s1)" "bio_inv d s1" "bio_abs d s1 = c_read ?hb i (bio_abs d r)"
    using bc.rd [OF f(1,2)] f(4) by force
  have h: "hand (bio_abs d s1) ?hb = Some i" by (simp add: 1(3) c_defs)
  have c: "bdata (bufs s1 i) = x" using bc.content [OF 1(2) h] by (simp add: 1(3) c_defs f x_def)
  have lg: "the_log s1 = the_log r" by (rule the_log_abs [of d]) (simp add: 1(3) c_defs)
  define t where "t = s1\<lparr>the_log := l'\<rparr>"
  have t: "bio_inv d t" "bio_abs d t = (bio_abs d s1)\<lparr>rest := (rest (bio_abs d s1))\<lparr>the_log := l'\<rparr>\<rparr>"
    using 1(2) by (simp_all add: t_def bio_abs_log)
  have "hand (bio_abs d t) ?hb = Some i" "view (bio_abs d t) ?hb = dsk (bio_abs d t) ?hb"
    using h f by (simp_all add: t(2) 1(3) c_defs bio_abs_sel)
  then obtain r' where 2: "brelse i t = Some r'" "bio_inv d r'" "bio_abs d r' = c_release ?hb (bio_abs d t)" using bc.rel [OF t(1)] by blast
  have e: "bio_abs d r' = (bio_abs d r)\<lparr>rest := (rest (bio_abs d r))\<lparr>the_log := l'\<rparr>\<rparr>"
    unfolding 2(3) t(2) 1(3) using f(2,3) [of ?hb] by (cases "bio_abs d r") (auto simp: c_defs fun_eq_iff)
  have "rest (bio_abs d r') = rest (bio_abs d t)" by (simp add: 2(3) c_defs)
  then have "the_log r' = l'" using the_log_abs [of d r' t] by (simp add: t_def)
  moreover have "read_head r = Some r'"
    using 1(1) 2(1) assms(2,3) c lg unfolding x_def [symmetric] by (simp add: read_head_def t_def l'_def cong: if_cong)
  ultimately show ?thesis using 2(2) e by blast
qed

lemma recover_spec:
  fixes r :: "'a logged_scheme"
  assumes fr: "fresh d r" and l: "ldev (the_log r) = d" "the_log r = l" and g: "0 \<le> lstart l" "lstart l + lsize l < 2 ^ 31"
    and ok: "head_ok l (disk r (head_blk l))"
  defines "W \<equiv> recover_writes l (disk r)"
  shows "\<exists>r'. recover_from_log r = Some r' \<and> fresh d r' \<and> disk r' = apply_writes W (disk r) \<and> dwrites r' = dwrites r @ W \<and>
    lh_n (lh (the_log r')) = 0"
proof -
  define x where "x = disk r (head_blk l)"
  define l' where "l' = l\<lparr>lh := \<lparr>lh_n = head_n x, lh_block = (\<lambda>i. if i < nat (head_n x) then head_block x i else lh_block (lh l) i)\<rparr>\<rparr>"
  have n: "head_n x \<le> int LOGSIZE" using ok by (simp add: head_ok_def x_def NBUF_def)
  then obtain r1 where r1: "read_head r = Some r1" "bio_inv d r1" "the_log r1 = l'"
      "bio_abs d r1 = (bio_abs d r)\<lparr>rest := (rest (bio_abs d r))\<lparr>the_log := l'\<rparr>\<rparr>"
    using read_head_spec [OF fr l(1)] unfolding l(2) x_def [symmetric] l'_def [symmetric] by blast
  have f: "pinned {} (bio_abs d r)" "view (bio_abs d r) = disk r" using fr by (simp_all add: fresh_def)
  have bl: "log_blk l' = log_blk l" "head_blk l' = head_blk l" by (simp_all add: l'_def log_blk_clear)
  have ok': "log_ok l'" using ok g by (auto simp: log_ok_def head_ok_def l'_def in_log_def x_def)
  have pin: "pinned (if True then {} else home l' ` {..<logn l'}) (bio_abs d r1)" using f(1) by (simp add: r1(4) pinned_def)
  have dev: "ldev (the_log r1) = d" using l by (simp add: r1(3) l'_def)
  have cl: "view (bio_abs d r1) b = dsk (bio_abs d r1) b" for b using f by (simp add: r1(4) bio_abs_sel)
  have W: "writes_of (home l') (\<lambda>t. view (bio_abs d r1) (log_blk l' t)) [0..<logn l'] @
      [(head_blk l', put_head ((lh l')\<lparr>lh_n := 0\<rparr>) (dsk (bio_abs d r1) (head_blk l')))] = W"
    unfolding bl W_def recover_writes_def Let_def x_def [symmetric]
    by (auto simp: r1(4) f bio_abs_sel writes_of_def l'_def put_head_def x_def)
  obtain r2 r3 where r3: "install_trans True r1 = Some r2" "write_head (clear_head r2) = Some r3" "bio_inv d r3"
      "the_log r3 = l'\<lparr>lh := (lh l')\<lparr>lh_n := 0\<rparr>\<rparr>" "view (bio_abs d r3) = apply_writes W (view (bio_abs d r1))"
      "disk r3 = apply_writes W (dsk (bio_abs d r1))" "dwrites r3 = wr (bio_abs d r1) @ W" "pinned {} (bio_abs d r3)"
    using install_phase [OF r1(2) dev r1(3) ok' pin disjI1 [OF TrueI] cl cl] unfolding W by blast
  have "recover_from_log r = Some r3" using r1(1) r3(1,2) by (simp add: recover_from_log_def)
  moreover have "fresh d r3" using r3(3,5,6,8) f by (simp add: fresh_def r1(4) bio_abs_sel)
  ultimately show ?thesis using r3 by (auto simp: r1(4) bio_abs_sel)
qed

section \<open>Crashes\<close>

lemma apply_writes_base: "b \<in> fst ` set W \<or> D b = E b \<Longrightarrow> apply_writes W D b = apply_writes W E b"
proof (induction W arbitrary: D E)
  case (Cons w W)
  obtain c x where w: "w = (c, x)" by force
  have "b \<in> fst ` set W \<or> (D(c := x)) b = (E(c := x)) b" using Cons.prems by (auto simp: w)
  from Cons.IH [of "D(c := x)" "E(c := x)", OF this] show ?case unfolding w apply_writes_simps .
qed simp

lemma apply_writes_again: "apply_writes W (apply_writes (take j W) D) b = apply_writes W D b"
proof (cases "b \<in> fst ` set W")
  case True
  then show ?thesis by (intro apply_writes_base) simp
next
  case False
  then have "b \<notin> fst ` set (take j W)" using image_mono [OF set_take_subset [of j W], of fst] by blast
  then show ?thesis by (intro apply_writes_base) (simp add: apply_writes_other)
qed

lemma in_log_writes: "log_ok l \<Longrightarrow> set ts \<subseteq> {..<logn l} \<Longrightarrow> \<not> in_log l b \<Longrightarrow> apply_writes (writes_of (log_blk l) g ts) D b = D b"
  using log_blocks(3) [of l] by (intro apply_writes_other) auto

lemma head_not_home: "log_ok l \<Longrightarrow> set ts \<subseteq> {..<logn l} \<Longrightarrow> apply_writes (writes_of (home l) g ts) D (head_blk l) = D (head_blk l)"
  using not_home(2) [of l] by (intro apply_writes_other) auto

lemma log_not_home: "log_ok l \<Longrightarrow> set ts \<subseteq> {..<logn l} \<Longrightarrow> t < logn l \<Longrightarrow>
    apply_writes (writes_of (home l) g ts) D (log_blk l t) = D (log_blk l t)"
  using not_home(1) [of l t] by (intro apply_writes_other) auto

lemma head_log_writes: "log_ok l \<Longrightarrow> set ts \<subseteq> {..<logn l} \<Longrightarrow> apply_writes (writes_of (log_blk l) g ts) D (head_blk l) = D (head_blk l)"
  using not_home(6) [of l] by (intro apply_writes_other) auto

text \<open>What recovery makes of a disk whose header is empty, or is the header of the transaction.\<close>

lemma recover_empty:
  assumes "log_ok l" "head_n (D (head_blk l)) = 0" "\<not> in_log l b"
  shows "head_ok l (D (head_blk l)) \<and> apply_writes (recover_writes l D) D b = D b"
proof -
  have "b \<noteq> head_blk l" using log_blocks(4) [OF assms(1)] assms(3) by blast
  then show ?thesis using assms by (auto simp: head_ok_def recover_writes_def Let_def NBUF_def log_ok_def)
qed

lemma recover_committed:
  assumes ok: "log_ok l" and inj: "inj_on (home l) {..<logn l}" and x: "D (head_blk l) = put_head (lh l) h"
    and L: "\<And>t. t < logn l \<Longrightarrow> D (log_blk l t) = V (home l t)" and b: "\<not> in_log l b"
  shows "head_ok l (D (head_blk l)) \<and>
    apply_writes (recover_writes l D) D b = (if b \<in> home l ` {..<logn l} then V b else D b)"
proof -
  have n: "0 \<le> lh_n (lh l)" "lh_n (lh l) < 2 ^ 31" using ok by (auto simp: log_ok_def NBUF_def)
  note hp = head_put_head [OF n]
  have hd: "head_ok l (D (head_blk l))" unfolding head_ok_def x hp(1) using ok hp(2) by (auto simp: log_ok_def)
  have bh: "b \<noteq> head_blk l" using log_blocks(4) [OF ok] b by blast
  have "writes_of (head_block (D (head_blk l))) (\<lambda>t. D (log_blk l t)) [0..<nat (head_n (D (head_blk l)))] =
      writes_of (home l) (\<lambda>t. V (home l t)) [0..<logn l]"
    unfolding x hp(1) using hp(2) L by (auto simp: writes_of_def)
  then have e: "apply_writes (recover_writes l D) D b = apply_writes (writes_of (home l) (\<lambda>t. V (home l t)) [0..<logn l]) D b"
    using bh by (simp add: recover_writes_def Let_def)
  show ?thesis
  proof (cases "b \<in> home l ` {..<logn l}")
    case True
    then obtain t where t: "t < logn l" "b = home l t" by auto
    have "apply_writes (writes_of (home l) (\<lambda>t. V (home l t)) [0..<logn l]) D (home l t) = V (home l t)"
      by (rule apply_writes_of) (use inj t in \<open>auto simp: atLeast0LessThan\<close>)
    then show ?thesis using True hd e t by simp
  next
    case False
    then have "apply_writes (writes_of (home l) (\<lambda>t. V (home l t)) [0..<logn l]) D b = D b"
      by (intro apply_writes_other) (simp add: not_home(4) [OF ok] del: set_upt)
    then show ?thesis using False hd e by simp
  qed
qed

lemma crash_during_commit:
  fixes V :: "u32 \<Rightarrow> bytes"
  assumes ok: "log_ok l" and inj: "inj_on (home l) {..<logn l}" and h: "head_n (D (head_blk l)) = 0" and b: "\<not> in_log l b"
  defines "W \<equiv> commit_writes l V (D (head_blk l))"
  assumes k: "k \<le> length W"
  defines "E \<equiv> apply_writes (take k W) D"
  shows "head_ok l (E (head_blk l)) \<and>
    apply_writes (recover_writes l E) E b = (if logn l < k \<and> b \<in> home l ` {..<logn l} then V b else D b)"
proof -
  let ?n = "logn l" and ?hb = "head_blk l"
  define W1 where "W1 = writes_of (log_blk l) (\<lambda>t. V (home l t)) [0..<?n]"
  define W2 where "W2 = writes_of (home l) (\<lambda>t. V (home l t)) [0..<?n]"
  define x where "x = put_head (lh l) (D ?hb)"
  define y where "y = put_head ((lh l)\<lparr>lh_n := 0\<rparr>) x"
  have W: "W = W1 @ [(?hb, x)] @ W2 @ [(?hb, y)]" by (simp add: W_def commit_writes_def Let_def W1_def W2_def x_def y_def)
  have len: "length W1 = ?n" "length W2 = ?n" by (simp_all add: W1_def W2_def)
  have sub: "set (take j [0..<?n]) \<subseteq> {..<?n}" for j using set_take_subset [of j "[0..<?n]"] by (auto simp: atLeast0LessThan)
  have sub0: "set [0..<?n] \<subseteq> {..<?n}" by (simp add: atLeast0LessThan)
  have bh: "b \<noteq> ?hb" using log_blocks(4) [OF ok] b by blast
  consider "k \<le> ?n" | j where "k = ?n + 1 + j" "j \<le> ?n" | "k = 2 * ?n + 2"
  proof -
    have "k \<le> 2 * ?n + 2" using k by (simp add: W len)
    then have "k \<le> ?n \<or> (k = ?n + 1 + (k - ?n - 1) \<and> k - ?n - 1 \<le> ?n) \<or> k = 2 * ?n + 2" by linarith
    then show ?thesis using that by blast
  qed
  then show ?thesis
  proof cases
    case 1
    then have E: "E = apply_writes (writes_of (log_blk l) (\<lambda>t. V (home l t)) (take k [0..<?n])) D"
      by (simp add: E_def W len W1_def take_writes_of)
    have "E ?hb = D ?hb" "E b = D b" unfolding E by (rule head_log_writes [OF ok sub], rule in_log_writes [OF ok sub b])
    then show ?thesis using recover_empty [OF ok, of E b] h b 1 by simp
  next
    case (2 j)
    define E1 where "E1 = (apply_writes W1 D)(?hb := x)"
    have E: "E = apply_writes (writes_of (home l) (\<lambda>t. V (home l t)) (take j [0..<?n])) E1"
      using 2 by (simp add: E_def W len E1_def W2_def take_writes_of)
    have "E1 (log_blk l t) = V (home l t)" if "t < ?n" for t
      using apply_writes_of [of "log_blk l" "[0..<?n]" t "\<lambda>t. V (home l t)" D] not_home(5) [OF ok] log_blocks(5) [OF ok that] that
      by (simp add: E1_def W1_def atLeast0LessThan)
    then have L: "E (log_blk l t) = V (home l t)" if "t < ?n" for t unfolding E log_not_home [OF ok sub that] using that .
    have x: "E ?hb = put_head (lh l) (D ?hb)" unfolding E head_not_home [OF ok sub] by (simp add: E1_def x_def)
    have "E b = D b" if "b \<notin> home l ` {..<?n}"
    proof -
      have "E b = E1 b" unfolding E using that sub [of j] by (intro apply_writes_other) auto
      then show ?thesis using bh in_log_writes [OF ok sub0 b] by (simp add: E1_def W1_def)
    qed
    then show ?thesis using recover_committed [OF ok inj x L b] 2 by auto
  next
    case 3
    have E: "E = (apply_writes W2 ((apply_writes W1 D)(?hb := x)))(?hb := y)" using 3 by (simp add: E_def W len)
    have n0: "0 \<le> lh_n ((lh l)\<lparr>lh_n := 0\<rparr>)" "lh_n ((lh l)\<lparr>lh_n := 0\<rparr>) < 2 ^ 31" by simp_all
    have "head_n (E ?hb) = 0" using head_put_head(1) [OF n0, of x] by (simp add: E y_def)
    moreover have "E b = (if b \<in> home l ` {..<?n} then V b else D b)"
    proof (cases "b \<in> home l ` {..<?n}")
      case True
      then obtain t where t: "t < ?n" "b = home l t" by auto
      then show ?thesis using True bh apply_writes_of [of "home l" "[0..<?n]" t] inj by (simp add: E W2_def atLeast0LessThan)
    next
      case False
      then have "apply_writes W2 f b = f b" for f unfolding W2_def by (intro apply_writes_other) (simp add: not_home(4) [OF ok] del: set_upt)
      then show ?thesis using False bh in_log_writes [OF ok sub0 b] by (simp add: E W1_def)
    qed
    ultimately show ?thesis using recover_empty [OF ok, of E b] b 3 by simp
  qed
qed

section \<open>Properties\<close>

lemma fresh_log: "fresh d (r\<lparr>the_log := l\<rparr>) = fresh d r"
  by (simp add: fresh_def bio_abs_log pinned_def)

lemma initlog_spec:
  fixes r :: "'a logged_scheme"
  assumes "fresh d r" "sint (sb_logstart sb) = lstart l" "sint (sb_nlog sb) = lsize l" "0 \<le> lstart l" "lstart l + lsize l < 2 ^ 31"
    and "head_ok l (disk r (head_blk l))"
  shows "\<exists>r'. initlog d sb r = Some r' \<and> fresh d r' \<and> disk r' = apply_writes (recover_writes l (disk r)) (disk r) \<and>
    dwrites r' = dwrites r @ recover_writes l (disk r) \<and> lh_n (lh (the_log r')) = 0"
proof -
  let ?l = "(the_log r)\<lparr>lstart := sint (sb_logstart sb), lsize := sint (sb_nlog sb), ldev := d\<rparr>"
  have e: "head_blk ?l = head_blk l" "log_blk ?l = log_blk l" "in_log ?l = in_log l" "lsize ?l = lsize l" "lstart ?l = lstart l"
    using assms(2,3) by (simp_all add: head_blk_def log_blk_def in_log_def fun_eq_iff)
  have rw: "recover_writes ?l = recover_writes l" by (simp add: recover_writes_def e fun_eq_iff)
  have "head_ok ?l (disk (r\<lparr>the_log := ?l\<rparr>) (head_blk ?l))" using assms(6) unfolding e by (simp add: head_ok_def e)
  from recover_spec [of d "r\<lparr>the_log := ?l\<rparr>" ?l, OF _ _ _ _ _ this] show ?thesis
    using assms(1,4,5) unfolding fresh_log e rw by (simp add: initlog_def)
qed

text \<open>A system with a log of 30 blocks from block 2 on, as \<^verbatim>\<open>mkfs\<close> makes it, over a disk of zeros.\<close>

definition boot_log :: "log \<Rightarrow> logged" where
  "boot_log l = bio.extend (boot_bio (\<lambda>_ _. 0)) (logged.fields l)"

definition mkfs_log :: log where
  "mkfs_log = \<lparr>lstart = 2, lsize = 30, outstanding = 1, committing = False, ldev = 1, lh = \<lparr>lh_n = 0, lh_block = (\<lambda>_. 0)\<rparr>\<rparr>"

definition mkfs_sb :: superblock where
  "mkfs_sb = \<lparr>sb_magic = 0x10203040, sb_size = 2000, sb_nblocks = 1954, sb_ninodes = 200, sb_nlog = 30, sb_logstart = 2,
     sb_inodestart = 32, sb_bmapstart = 45\<rparr>"

lemma boot_log_sel [simp]:
  "bufs (boot_log l) = bufs (boot_bio (\<lambda>_ _. 0))" "disk (boot_log l) = (\<lambda>_ _. 0)" "dwrites (boot_log l) = []"
  "slocks (boot_log l) = slocks (boot_bio (\<lambda>_ _. 0))" "the_log (boot_log l) = l" "myproc (boot_log l) = myproc (boot_bio (\<lambda>_ _. 0))"
  "mypid (boot_log l) = mypid (boot_bio (\<lambda>_ _. 0))"
  by (simp_all add: boot_log_def bio.defs logged.defs boot_bio myproc_def mycpu_def mypid_def)

lemma boot_log_inv: "bio_inv 1 (boot_log l)"
  using boot_bio(1) [of "\<lambda>_ _. 0"] by (simp add: bio_inv_def boot_bio)

lemma boot_log_buf_of: "buf_of 1 (boot_log l) b = None"
  using boot_bio(5) [of "\<lambda>_ _. 0" b] by (simp add: buf_of_def find_None_iff caches_def)

lemma boot_log_abs:
  "view (bio_abs 1 (boot_log l)) = (\<lambda>_ _. 0)" "refs (bio_abs 1 (boot_log l)) = (\<lambda>_. 0)" "busy (bio_abs 1 (boot_log l)) = (\<lambda>_. False)"
  "hand (bio_abs 1 (boot_log l)) = (\<lambda>_. None)"
  by (simp_all add: bio_abs_def boot_log_buf_of fun_eq_iff)

lemma boot_log_fresh: "fresh 1 (boot_log l)"
  by (simp add: fresh_def boot_log_inv pinned_def boot_log_abs)

lemma boot_log_ready: "log_ready 1 (boot_log mkfs_log)"
  by (simp add: log_ready_def boot_log_inv pinned_def boot_log_abs log_ok_def mkfs_log_def bio_abs_sel NBUF_def)

text \<open>The log with block \<open>b\<close> logged.\<close>

definition with_block :: "u32 \<Rightarrow> log \<Rightarrow> log" where
  "with_block b l =
     (if b \<in> home l ` {..<logn l} then l
      else l\<lparr>lh := (lh l)\<lparr>lh_n := lh_n (lh l) + 1, lh_block := (lh_block (lh l))(logn l := b)\<rparr>\<rparr>)"

lemma log_write_eq:
  fixes s :: "'a logged_scheme"
  assumes "the_log s = l" "blockno (bufs s i) = b" "0 \<le> lh_n (lh l)" "lh_n (lh l) < int LOGSIZE" "lh_n (lh l) < lsize l - 1" "1 \<le> outstanding l"
  shows "log_write i s = Some ((if b \<in> home l ` {..<logn l} then s else bpin i s)\<lparr>the_log := with_block b l\<rparr>)"
proof (cases "b \<in> home l ` {..<logn l}")
  case True
  then have "find (\<lambda>i. home l i = b) [0..<logn l] \<noteq> None" by (auto simp: find_None_iff)
  then obtain t where t: "find (\<lambda>i. home l i = b) [0..<logn l] = Some t" by blast
  then have tb: "t < logn l" "home l t = b" using find_SomeD [OF t] by simp_all
  then have "(lh_block (lh l))(t := b) = lh_block (lh l)" by auto
  then show ?thesis using True t tb assms by (cases "the_log s") (simp add: log_write_def Let_def with_block_def)
next
  case False
  then have "find (\<lambda>i. home l i = b) [0..<logn l] = None" by (auto simp: find_None_iff)
  then show ?thesis using False assms by (simp add: log_write_def Let_def with_block_def bpin_def)
qed

lemma with_block_homes:
  assumes "0 \<le> lh_n (lh l)"
  shows "home (with_block b l) ` {..<logn (with_block b l)} = insert b (home l ` {..<logn l})"
    "inj_on (home l) {..<logn l} \<Longrightarrow> inj_on (home (with_block b l)) {..<logn (with_block b l)}"
    "lh_n (lh (with_block b l)) = lh_n (lh l) + (if b \<in> home l ` {..<logn l} then 0 else 1)"
    "with_block b l = l\<lparr>lh := lh (with_block b l)\<rparr>" "in_log (with_block b l) = in_log l"
proof -
  have n: "nat (lh_n (lh l) + 1) = Suc (logn l)" using assms by simp
  show "home (with_block b l) ` {..<logn (with_block b l)} = insert b (home l ` {..<logn l})"
    by (auto simp: with_block_def n lessThan_Suc)
  show "inj_on (home l) {..<logn l} \<Longrightarrow> inj_on (home (with_block b l)) {..<logn (with_block b l)}"
    by (auto simp: with_block_def n lessThan_Suc inj_on_def)
qed (simp_all add: with_block_def in_log_def fun_eq_iff)

lemma log_ok_with_block:
  assumes "log_ok l" "lsize l \<le> int NBUF" "lh_n (lh l) < lsize l - 1" "\<not> in_log l b"
  shows "log_ok (with_block b l)"
proof -
  have n: "0 \<le> lh_n (lh l)" using assms(1) by (simp add: log_ok_def)
  note w = with_block_homes [OF n, of b]
  have "\<not> in_log l c" if "c \<in> insert b (home l ` {..<logn l})" for c using that assms(1,4) by (auto simp: log_ok_def)
  then have "\<not> in_log l (home (with_block b l) t)" if "t < logn (with_block b l)" for t using that w(1) by auto
  moreover have "lstart (with_block b l) = lstart l" "lsize (with_block b l) = lsize l" by (simp_all add: with_block_def)
  ultimately show ?thesis using assms n w(3,5) by (auto simp: log_ok_def)
qed

lemma log_update_spec:
  fixes s :: "'a logged_scheme"
  assumes ready: "log_ready d s" and tr: "1 \<le> outstanding (the_log s)" and sz: "lsize (the_log s) \<le> int NBUF"
    and n: "lh_n (lh (the_log s)) < lsize (the_log s) - 1" and b: "\<not> in_log (the_log s) b"
  defines "l \<equiv> the_log s"
  shows "\<exists>i s1 s2 s3. bread d b s = Some (i, s1) \<and> bdata (bufs s1 i) = view (bio_abs d s) b \<and>
    log_write i (upd_buf i (\<lambda>x. x\<lparr>bdata := v\<rparr>) s1) = Some s2 \<and> brelse i s2 = Some s3 \<and> log_ready d s3 \<and>
    view (bio_abs d s3) = (view (bio_abs d s))(b := v) \<and> disk s3 = disk s \<and> dwrites s3 = dwrites s \<and>
    home (the_log s3) ` {..<logn (the_log s3)} = insert b (home l ` {..<logn l}) \<and>
    lh_n (lh (the_log s3)) = lh_n (lh l) + (if b \<in> home l ` {..<logn l} then 0 else 1) \<and>
    the_log s3 = l\<lparr>lh := lh (the_log s3)\<rparr> \<and> bio_rest s1 = bio_rest s \<and> bio_rest s3 = (bio_rest s)\<lparr>the_log := the_log s3\<rparr>"
proof -
  have lg: "the_log s = l" by (simp add: l_def)
  note R = log_readyD [OF ready lg]
  let ?H = "home l ` {..<logn l}"
  have pin: "\<not> busy (bio_abs d s) c" "hand (bio_abs d s) c = None" "refs (bio_abs d s) c = (if c \<in> ?H then 1 else 0)" for c
    using R(4) by (simp_all add: pinned_def)
  have n0: "0 \<le> lh_n (lh l)" "lh_n (lh l) < int LOGSIZE" using R(3) by (simp_all add: log_ok_def NBUF_def)
  note w = with_block_homes [OF n0(1), of b]
  have "card ?H < NBUF" using card_image_le [of "{..<logn l}" "home l"] R(3) by (auto simp: log_ok_def nat_less_iff)
  then have room: "room NBUF b (bio_abs d s)" "refs (bio_abs d s) b < 2 ^ 32 - 1" using pinned_refs [OF R(4)] pin(3) by (simp_all add: room_def)
  obtain i s1 where 1: "bread d b s = Some (i, s1)" "bio_inv d s1" "bio_abs d s1 = c_read b i (bio_abs d s)"
    using bc.rd [OF R(1) pin(1) room(2,1)] by blast
  have h: "hand (bio_abs d s1) b = Some i" by (simp add: 1(3) c_defs)
  define m where "m = upd_buf i (\<lambda>x. x\<lparr>bdata := v\<rparr>) s1"
  have m: "bio_inv d m" "bio_abs d m = c_modify b v (bio_abs d s1)" using bc.modify [OF 1(2) h] by (simp_all add: m_def)
  have hm: "hand (bio_abs d m) b = Some i" using h by (simp add: m(2) c_defs)
  have lgm: "the_log m = l" using the_log_abs [of d m s] by (simp add: m(2) 1(3) c_defs lg)
  define q where "q = (if b \<in> ?H then m else bpin i m)"
  have q: "bio_inv d q" "bio_abs d q = (if b \<in> ?H then bio_abs d m else c_pin b (bio_abs d m))"
    using m bc.pin [OF m(1) hm] pin(3) [of b] by (auto simp: q_def 1(3) c_defs)
  define s2 where "s2 = q\<lparr>the_log := with_block b l\<rparr>"
  have lw: "log_write i m = Some s2"
    using log_write_eq [OF lgm holdingsleep_hand(6) [OF m(1) hm] n0] n tr unfolding q_def s2_def l_def by simp
  have s2: "bio_inv d s2" "bio_abs d s2 = (bio_abs d q)\<lparr>rest := (rest (bio_abs d q))\<lparr>the_log := with_block b l\<rparr>\<rparr>"
    using q by (simp_all add: s2_def bio_abs_log)
  have "hand (bio_abs d s2) b = Some i" "1 < refs (bio_abs d s2) b"
    using pin(3) [of b] by (simp_all add: s2(2) q(2) m(2) 1(3) c_defs)
  then obtain s3 where 3: "brelse i s2 = Some s3" "bio_inv d s3" "bio_abs d s3 = c_release b (bio_abs d s2)" using bc.rel [OF s2(1)] by blast
  have lg3: "the_log s3 = with_block b l" using the_log_abs [of d s3 s2] by (simp add: 3(3) c_defs s2_def)
  have a: "view (bio_abs d s3) = (view (bio_abs d s))(b := v)" "dsk (bio_abs d s3) = dsk (bio_abs d s)" "wr (bio_abs d s3) = wr (bio_abs d s)"
    by (simp_all add: 3(3) s2(2) q(2) m(2) 1(3) c_defs)
  have "pinned (insert b ?H) (bio_abs d s3)" using pin by (auto simp: pinned_def 3(3) s2(2) q(2) m(2) 1(3) c_defs)
  moreover have "ldev (with_block b l) = d" using R(2) lg w(4) by (metis log.select_convs(5) log.surjective log.update_convs(6))
  ultimately have "log_ready d s3"
    using 3(2) log_ok_with_block [OF R(3) sz [unfolded lg] n [unfolded lg] b [unfolded lg]] w(2) [OF R(5)] R(6) a
    unfolding log_ready_def lg3 w(1) by auto
  moreover have "bdata (bufs s1 i) = view (bio_abs d s) b" using bc.content [OF 1(2) h] by (simp add: 1(3) c_defs)
  moreover have "rest (bio_abs d s1) = rest (bio_abs d s)" "rest (bio_abs d s3) = (rest (bio_abs d s))\<lparr>the_log := with_block b l\<rparr>"
    by (simp_all add: 3(3) s2(2) q(2) m(2) 1(3) c_defs)
  ultimately show ?thesis using 1(1) lw [unfolded m_def] 3(1) a w(1,3,4) by (auto simp: lg3 bio_abs_sel)
qed

text \<open>
  C7: one update of a logged block, \<open>bread\<close>, change, \<open>log_write\<close>, \<open>brelse\<close>, in a transaction. With
  room in the log it never panics, the new contents are current in the cache, nothing is written to
  disk, and the state stays ready to commit: the changed blocks are exactly the logged ones, each
  pinned once. A block that is already logged takes no further room.
\<close>

theorem log_write_cycle:
  fixes s :: "'a logged_scheme"
  assumes ready: "log_ready d s" and tr: "1 \<le> outstanding (the_log s)" and sz: "lsize (the_log s) \<le> int NBUF"
    and n: "lh_n (lh (the_log s)) < lsize (the_log s) - 1" and b: "\<not> in_log (the_log s) b"
  defines "l \<equiv> the_log s"
  shows "\<exists>i s1 s2 s3. bread d b s = Some (i, s1) \<and> bdata (bufs s1 i) = view (bio_abs d s) b \<and>
    log_write i (upd_buf i (\<lambda>x. x\<lparr>bdata := v\<rparr>) s1) = Some s2 \<and> brelse i s2 = Some s3 \<and> log_ready d s3 \<and>
    view (bio_abs d s3) = (view (bio_abs d s))(b := v) \<and> disk s3 = disk s \<and> dwrites s3 = dwrites s \<and>
    home (the_log s3) ` {..<logn (the_log s3)} = insert b (home l ` {..<logn l}) \<and>
    lh_n (lh (the_log s3)) = lh_n (lh l) + (if b \<in> home l ` {..<logn l} then 0 else 1) \<and>
    the_log s3 = l\<lparr>lh := lh (the_log s3)\<rparr>"
  using log_update_spec [OF assms(1-5)] unfolding l_def by blast

lemma mkfs_log_facts: "1 \<le> outstanding mkfs_log" "lsize mkfs_log \<le> int NBUF" "lh_n (lh mkfs_log) < lsize mkfs_log - 1" "\<not> in_log mkfs_log 50"
  by (simp_all add: mkfs_log_def NBUF_def in_log_def)

theorem log_write_cycle_witness:
  "\<exists>i s1 s2 s3. bread 1 50 (boot_log mkfs_log) = Some (i, s1) \<and>
     log_write i (upd_buf i (\<lambda>x. x\<lparr>bdata := (\<lambda>_. 9)\<rparr>) s1) = Some s2 \<and> brelse i s2 = Some s3 \<and> log_ready 1 s3 \<and>
     lh_n (lh (the_log s3)) = 1 \<and> view (bio_abs 1 s3) 50 = (\<lambda>_. 9) \<and> disk s3 50 = (\<lambda>_. 0) \<and> the_log s3 = mkfs_log\<lparr>lh := lh (the_log s3)\<rparr>"
proof -
  have z: "lh_n (lh mkfs_log) = 0" "home mkfs_log ` {..<nat 0} = {}" by (simp_all add: mkfs_log_def)
  obtain i s1 s2 s3 where "bread 1 50 (boot_log mkfs_log) = Some (i, s1)" "log_write i (upd_buf i (\<lambda>x. x\<lparr>bdata := (\<lambda>_. 9)\<rparr>) s1) = Some s2"
      "brelse i s2 = Some s3" "log_ready 1 s3" "view (bio_abs 1 s3) = (view (bio_abs 1 (boot_log mkfs_log)))(50 := (\<lambda>_. 9))"
      "disk s3 = (\<lambda>_ _. 0)" "lh_n (lh (the_log s3)) = 0 + (if (50 :: u32) \<in> {} then 0 else 1)" "the_log s3 = mkfs_log\<lparr>lh := lh (the_log s3)\<rparr>"
    using log_write_cycle [OF boot_log_ready, unfolded boot_log_sel z, OF mkfs_log_facts [unfolded z], of "\<lambda>_. 9"]
    by (elim exE conjE) (rule that; assumption)
  then show ?thesis by (intro exI conjI) (assumption | simp)+
qed

text \<open>One logged block, ready to commit.\<close>

lemma one_logged:
  "\<exists>s :: logged. log_ready 1 s \<and> 0 < lh_n (lh (the_log s)) \<and> lstart (the_log s) = 2 \<and> lsize (the_log s) = 30 \<and> disk s = (\<lambda>_ _. 0)"
proof -
  obtain s3 :: logged where "log_ready 1 s3" "lh_n (lh (the_log s3)) = lh_n (lh mkfs_log) + (if 50 \<in> home mkfs_log ` {..<logn mkfs_log} then 0 else 1)"
      "disk s3 = (\<lambda>_ _. 0)" "the_log s3 = mkfs_log\<lparr>lh := lh (the_log s3)\<rparr>"
    using log_update_spec [OF boot_log_ready, unfolded boot_log_sel, OF mkfs_log_facts, of "\<lambda>_. 9"]
    by (elim exE conjE) (rule that; assumption)
  note s3 = this
  have "lstart (the_log s3) = lstart mkfs_log" "lsize (the_log s3) = lsize mkfs_log"
    using arg_cong [OF s3(4), of lstart] arg_cong [OF s3(4), of lsize] by simp_all
  then show ?thesis using s3 by (intro exI [of _ s3]) (simp add: mkfs_log_def)
qed

text \<open>
  C1: commits are atomic under crashes. A commit writes every logged block to the log, then the
  header, then every block to its home, then the cleared header. Whatever number \<open>k\<close> of these writes has
  reached the disk when the machine stops, \<open>initlog\<close> of the next boot succeeds and leaves outside
  of the log exactly the old contents of the disk when the header had not been written, and
  exactly the contents of the committed transaction when it had.
\<close>

theorem commit_crash_atomic:
  fixes s :: "'a logged_scheme" and sb :: superblock
  assumes ready: "log_ready d s" and n: "0 < lh_n (lh (the_log s))" and hd: "head_n (disk s (head_blk (the_log s))) = 0"
    and sb: "sint (sb_logstart sb) = lstart (the_log s)" "sint (sb_nlog sb) = lsize (the_log s)"
  defines "l \<equiv> the_log s"
  shows "\<exists>s' W. commit s = Some s' \<and> dwrites s' = dwrites s @ W \<and> length W = 2 * logn l + 2 \<and> disk s' = apply_writes W (disk s) \<and>
    (\<forall>k \<le> length W. \<forall>r :: 'b logged_scheme. fresh d r \<longrightarrow> disk r = apply_writes (take k W) (disk s) \<longrightarrow>
      (\<exists>r'. initlog d sb r = Some r' \<and> fresh d r' \<and>
        (\<forall>b. \<not> in_log l b \<longrightarrow> disk r' b = (if k \<le> logn l then disk s b else view (bio_abs d s) b))))"
proof -
  have lg: "the_log s = l" by (simp add: l_def)
  note R = log_readyD [OF ready lg]
  define W where "W = commit_writes l (view (bio_abs d s)) (disk s (head_blk l))"
  obtain s' where s': "commit s = Some s'" "disk s' = apply_writes W (disk s)" "dwrites s' = dwrites s @ W"
    using commit_spec [OF ready n lg] unfolding W_def by blast
  have len: "length W = 2 * logn l + 2" by (simp add: W_def commit_writes_def Let_def)
  have g: "0 \<le> lstart l" "lstart l + lsize l < 2 ^ 31" using R(3) by (simp_all add: log_ok_def)
  have "\<exists>r'. initlog d sb r = Some r' \<and> fresh d r' \<and>
        (\<forall>b. \<not> in_log l b \<longrightarrow> disk r' b = (if k \<le> logn l then disk s b else view (bio_abs d s) b))"
    if k: "k \<le> length W" and r: "fresh d r" "disk r = apply_writes (take k W) (disk s)" for k and r :: "'b logged_scheme"
  proof -
    note C = crash_during_commit [OF R(3,5), of "disk s" _ k "view (bio_abs d s)", folded W_def, OF hd [unfolded lg] _ k, folded r(2)]
    obtain b0 where "\<not> in_log l b0"
    proof -
      have "0 < logn l" using n lg by simp
      then have "\<not> in_log l (home l 0)" using R(3) by (simp add: log_ok_def)
      then show ?thesis using that by blast
    qed
    then have hok: "head_ok l (disk r (head_blk l))" using C by blast
    obtain r' where r': "initlog d sb r = Some r'" "fresh d r'" "disk r' = apply_writes (recover_writes l (disk r)) (disk r)"
      using initlog_spec [OF r(1) sb [unfolded lg] g hok] by blast
    have "disk r' b = (if k \<le> logn l then disk s b else view (bio_abs d s) b)" if "\<not> in_log l b" for b
      using C [OF that] R(6) [of b] by (auto simp: r'(3) bio_abs_sel)
    with r'(1,2) show ?thesis by blast
  qed
  then show ?thesis using s' len by blast
qed

lemma crash_during_recovery:
  fixes k :: nat
  assumes g: "0 \<le> lstart l" "lstart l + lsize l < 2 ^ 31" and ok: "head_ok l (D (head_blk l))"
  defines "W \<equiv> recover_writes l D"
  defines "E \<equiv> apply_writes (take k W) D"
  shows "head_ok l (E (head_blk l)) \<and> (\<not> in_log l b \<longrightarrow> apply_writes (recover_writes l E) E b = apply_writes W D b)"
proof -
  define x where "x = D (head_blk l)"
  define l' where "l' = l\<lparr>lh := \<lparr>lh_n = head_n x, lh_block = head_block x\<rparr>\<rparr>"
  have bl: "log_blk l' = log_blk l" "head_blk l' = head_blk l" "in_log l' = in_log l" by (simp_all add: l'_def log_blk_clear in_log_def fun_eq_iff)
  have ok': "log_ok l'" using ok g by (auto simp: log_ok_def head_ok_def l'_def in_log_def x_def)
  have rw: "recover_writes l' = recover_writes l" "head_ok l' = head_ok l"
    by (simp_all add: recover_writes_def head_ok_def bl fun_eq_iff) (simp add: l'_def)
  define n where "n = logn l'"
  define W1 where "W1 = writes_of (home l') (\<lambda>t. D (log_blk l t)) [0..<n]"
  have W: "W = W1 @ [(head_blk l, put32 x 0 0)]" by (simp add: W_def W1_def recover_writes_def Let_def x_def n_def l'_def)
  have sub: "set (take j [0..<n]) \<subseteq> {..<logn l'}" for j
    using set_take_subset [of j "[0..<n]"] by (auto simp: atLeast0LessThan n_def)
  show ?thesis
  proof (cases "k \<le> n")
    case True
    then have E: "E = apply_writes (writes_of (home l') (\<lambda>t. D (log_blk l t)) (take k [0..<n])) D"
      by (simp add: E_def W W1_def take_writes_of)
    have hb: "E (head_blk l) = x" unfolding E using head_not_home [OF ok' sub] by (simp only: bl x_def)
    have "E (log_blk l t) = D (log_blk l t)" if "t < n" for t
      unfolding E using log_not_home [OF ok' sub] that by (simp only: bl n_def)
    then have "recover_writes l E = W" unfolding W_def recover_writes_def Let_def hb x_def [symmetric]
      by (auto simp: writes_of_def n_def l'_def)
    then show ?thesis using ok hb apply_writes_again [of W k D b] by (simp add: E_def x_def)
  next
    case False
    then have E: "E = apply_writes W D" by (simp add: E_def W W1_def)
    then have "E (head_blk l) = put32 x 0 0" by (simp add: W)
    then have "head_n (E (head_blk l')) = 0" by (simp add: bl head_n_def)
    note C = recover_empty [of l' E, OF ok' this]
    have "head_ok l (E (head_blk l))" using ok \<open>head_n (E (head_blk l')) = 0\<close> unfolding bl by (auto simp: head_ok_def NBUF_def)
    then show ?thesis using C [of b] E unfolding bl rw by simp
  qed
qed

text \<open>
  C5: a crash during recovery is harmless. Whatever number \<open>k\<close> of the writes of a recovery reached the
  disk, the next recovery succeeds and leaves the same blocks outside of the log as a recovery
  that was not interrupted.
\<close>

theorem recovery_crash_safe:
  fixes r :: "'a logged_scheme" and r2 :: "'b logged_scheme" and sb :: superblock
  assumes r: "fresh d r" and sb: "sint (sb_logstart sb) = lstart l" "sint (sb_nlog sb) = lsize l"
    and g: "0 \<le> lstart l" "lstart l + lsize l < 2 ^ 31" and ok: "head_ok l (disk r (head_blk l))"
  shows "\<exists>r1 W. initlog d sb r = Some r1 \<and> dwrites r1 = dwrites r @ W \<and> disk r1 = apply_writes W (disk r) \<and>
    (\<forall>k. fresh d r2 \<longrightarrow> disk r2 = apply_writes (take k W) (disk r) \<longrightarrow>
      (\<exists>r3. initlog d sb r2 = Some r3 \<and> (\<forall>b. \<not> in_log l b \<longrightarrow> disk r3 b = disk r1 b)))"
proof -
  define W where "W = recover_writes l (disk r)"
  obtain r1 where r1: "initlog d sb r = Some r1" "disk r1 = apply_writes W (disk r)" "dwrites r1 = dwrites r @ W"
    using initlog_spec [OF r sb g ok] unfolding W_def by blast
  have "\<exists>r3. initlog d sb r2 = Some r3 \<and> (\<forall>b. \<not> in_log l b \<longrightarrow> disk r3 b = disk r1 b)"
    if r2: "fresh d r2" "disk r2 = apply_writes (take k W) (disk r)" for k
  proof -
    note C = crash_during_recovery [of l "disk r" k, OF g ok, folded W_def, folded r2(2)]
    obtain r3 where "initlog d sb r2 = Some r3" "disk r3 = apply_writes (recover_writes l (disk r2)) (disk r2)"
      using initlog_spec [OF r2(1) sb g] C by blast
    then show ?thesis using C r1(2) by auto
  qed
  then show ?thesis using r1 by blast
qed

lemma head_n_zero: "head_n (\<lambda>_. 0) = 0"
  by (simp add: head_n_def get32_def)

theorem commit_crash_atomic_witness:
  "\<exists>s s' :: logged. \<exists>W. log_ready 1 s \<and> commit s = Some s' \<and> dwrites s' = dwrites s @ W \<and>
     (\<forall>k \<le> length W. \<forall>r :: logged. fresh 1 r \<longrightarrow> disk r = apply_writes (take k W) (disk s) \<longrightarrow> (\<exists>r'. initlog 1 mkfs_sb r = Some r'))"
proof -
  obtain s :: logged where s: "log_ready 1 s" "0 < lh_n (lh (the_log s))" "lstart (the_log s) = 2" "lsize (the_log s) = 30" "disk s = (\<lambda>_ _. 0)"
    using one_logged by blast
  have "head_n (disk s (head_blk (the_log s))) = 0" by (simp add: s(5) head_n_zero)
  moreover have "sint (sb_logstart mkfs_sb) = lstart (the_log s)" "sint (sb_nlog mkfs_sb) = lsize (the_log s)"
    by (simp_all add: mkfs_sb_def s)
  ultimately show ?thesis using commit_crash_atomic [OF s(1,2), of mkfs_sb, where 'b = unit] s(1) by blast
qed

theorem recovery_crash_safe_witness:
  "\<exists>r1 W. initlog 1 mkfs_sb (boot_log mkfs_log) = Some r1 \<and> dwrites r1 = W \<and>
     (\<forall>k. fresh 1 (boot_log mkfs_log) \<longrightarrow> disk (boot_log mkfs_log) = apply_writes (take k W) (disk (boot_log mkfs_log)) \<longrightarrow>
       (\<exists>r3. initlog 1 mkfs_sb (boot_log mkfs_log) = Some r3))"
proof -
  have "sint (sb_logstart mkfs_sb) = lstart mkfs_log" "sint (sb_nlog mkfs_sb) = lsize mkfs_log" "0 \<le> lstart mkfs_log" "lstart mkfs_log + lsize mkfs_log < 2 ^ 31"
    by (simp_all add: mkfs_sb_def mkfs_log_def)
  moreover have "head_ok mkfs_log (disk (boot_log mkfs_log) (head_blk mkfs_log))"
    by (simp add: head_ok_def head_n_zero mkfs_log_def NBUF_def)
  ultimately obtain r1 W where "initlog 1 mkfs_sb (boot_log mkfs_log) = Some r1" "dwrites r1 = dwrites (boot_log mkfs_log) @ W"
    using recovery_crash_safe [OF boot_log_fresh, where ?r2.0 = "boot_log mkfs_log"] by blast
  then show ?thesis by (intro exI [of _ r1] exI [of _ W]) simp
qed

text \<open>
  C36: the space that \<open>begin_op\<close> reserves is one block short. On the log that \<^verbatim>\<open>mkfs\<close> makes, whose
  \<open>LOGSIZE\<close> blocks include the header, a third operation is admitted to an empty log, which promises
  \<open>LOGSIZE\<close> blocks in total. When those operations have logged all but one of the promised blocks,
  the next \<open>log_write\<close> panics.
\<close>

theorem begin_op_overcommits:
  fixes s :: "'a logged_scheme"
  assumes "myproc s \<noteq> None" and "\<not> committing (the_log s)" and "lsize (the_log s) = int LOGSIZE"
    and "lh_n (lh (the_log s)) = 0" and "outstanding (the_log s) = 2"
  shows "\<exists>s1. begin_op s = Some (Done (), s1) \<and> outstanding (the_log s1) * int MAXOPBLOCKS = int LOGSIZE \<and>
    (\<forall>(s2 :: 'a logged_scheme) b h. the_log s2 = (the_log s1)\<lparr>lh := h\<rparr> \<and> lh_n h = int LOGSIZE - 1 \<longrightarrow> log_write b s2 = None)"
  using assms by (auto simp: begin_op_def log_write_def Let_def)

theorem begin_op_overcommits_witness:
  "\<exists>s1. begin_op (boot_log (mkfs_log\<lparr>outstanding := 2\<rparr>)) = Some (Done (), s1) \<and>
     log_write 0 (boot_log ((the_log s1)\<lparr>lh := \<lparr>lh_n = 29, lh_block = of_nat\<rparr>\<rparr>)) = None"
proof -
  let ?s = "boot_log (mkfs_log\<lparr>outstanding := 2\<rparr>)"
  have "myproc ?s \<noteq> None" using bio_invD(7) [OF boot_log_inv] .
  moreover have "\<not> committing (the_log ?s)" "lsize (the_log ?s) = int LOGSIZE" "lh_n (lh (the_log ?s)) = 0" "outstanding (the_log ?s) = 2"
    by (simp_all add: mkfs_log_def)
  ultimately obtain s1 where s1: "begin_op ?s = Some (Done (), s1)"
      "\<And>(s2 :: logged) b h. the_log s2 = (the_log s1)\<lparr>lh := h\<rparr> \<Longrightarrow> lh_n h = int LOGSIZE - 1 \<Longrightarrow> log_write b s2 = None"
    using begin_op_overcommits by blast
  have "log_write 0 (boot_log ((the_log s1)\<lparr>lh := \<lparr>lh_n = 29, lh_block = of_nat\<rparr>\<rparr>)) = None"
    by (rule s1(2) [of _ "\<lparr>lh_n = 29, lh_block = of_nat\<rparr>"]) simp_all
  then show ?thesis using s1(1) by blast
qed

end
