(* ===== verification/Fs.thy ===== *)
theory Fs
  imports Log
begin

text \<open>
  The file system, \<^verbatim>\<open>kernel/fs.c\<close>: the superblock, the free bitmap, inodes on disk and in the
  table, the contents of inodes, directories and path names. An in-memory inode is named by its
  index in the table, and \<open>None\<close> is a null pointer. The functions take sleep locks and buffers
  and are modelled for the runs in which these are free; messages printed on the console are
  not part of the state.
\<close>

section \<open>Data\<close>

definition FSMAGIC :: u32 where "FSMAGIC = 0x10203040"
definition ROOTINO :: u32 where "ROOTINO = 1"
definition NDIRECT :: nat where "NDIRECT = 12"
definition NINDIRECT :: nat where "NINDIRECT = BSIZE div 4"
definition MAXFILE :: nat where "MAXFILE = NDIRECT + NINDIRECT"
definition BPB :: nat where "BPB = BSIZE * 8"
definition DIRSIZ :: nat where "DIRSIZ = 14"
definition dinode_size :: nat where "dinode_size = 64"
definition dirent_size :: u32 where "dirent_size = 16"
definition IPB :: nat where "IPB = BSIZE div dinode_size"

definition T_DIR :: u16 where "T_DIR = 1"
definition T_FILE :: u16 where "T_FILE = 2"
definition T_DEVICE :: u16 where "T_DEVICE = 3"

record inode =
  idev :: u32
  inum :: u32
  iref :: int
  ivalid :: bool
  itype :: u16
  imajor :: u16
  iminor :: u16
  nlink :: u16
  isize :: u32
  addrs :: "nat \<Rightarrow> u32"

record fsys = logged +
  sb :: superblock
  itable :: "nat \<Rightarrow> inode"

abbreviation upd_inode :: "nat \<Rightarrow> (inode \<Rightarrow> inode) \<Rightarrow> 'a fsys_scheme \<Rightarrow> 'a fsys_scheme" where
  "upd_inode ip f s \<equiv> s\<lparr>itable := (itable s)(ip := f (itable s ip))\<rparr>"

abbreviation upd_data :: "nat \<Rightarrow> (bytes \<Rightarrow> bytes) \<Rightarrow> 'a bio_scheme \<Rightarrow> 'a bio_scheme" where
  "upd_data b f s \<equiv> upd_buf b (\<lambda>x. x\<lparr>bdata := f (bdata x)\<rparr>) s"

definition IBLOCK :: "u32 \<Rightarrow> superblock \<Rightarrow> u32" where
  "IBLOCK i b = i div of_nat IPB + sb_inodestart b"

definition BBLOCK :: "u32 \<Rightarrow> superblock \<Rightarrow> u32" where
  "BBLOCK b x = b div of_nat BPB + sb_bmapstart x"

section \<open>Superblock\<close>

definition get_superblock :: "bytes \<Rightarrow> superblock" where
  "get_superblock d = \<lparr>sb_magic = get32 d 0, sb_size = get32 d 4, sb_nblocks = get32 d 8, sb_ninodes = get32 d 12,
     sb_nlog = get32 d 16, sb_logstart = get32 d 20, sb_inodestart = get32 d 24, sb_bmapstart = get32 d 28\<rparr>"

definition readsb :: "u32 \<Rightarrow> 'a fsys_scheme \<Rightarrow> 'a fsys_scheme option" where
  "readsb dev s =
     do {
       (bp, s) \<leftarrow> bread dev 1 s;
       let s = s\<lparr>sb := get_superblock (bdata (bufs s bp))\<rparr>;
       brelse bp s
     }"

definition fsinit :: "u32 \<Rightarrow> 'a fsys_scheme \<Rightarrow> 'a fsys_scheme option" where
  "fsinit dev s =
     do {
       s \<leftarrow> readsb dev s;
       if sb_magic (sb s) \<noteq> FSMAGIC then None else initlog dev (sb s) s
     }"

section \<open>Blocks\<close>

definition bzero :: "u32 \<Rightarrow> u32 \<Rightarrow> 'a logged_scheme \<Rightarrow> 'a logged_scheme option" where
  "bzero dev bno s =
     do {
       (bp, s) \<leftarrow> bread dev bno s;
       let s = upd_data bp (\<lambda>_ _. 0) s;
       s \<leftarrow> log_write bp s;
       brelse bp s
     }"

text \<open>Bit \<open>bi\<close> of a block of the bitmap.\<close>

definition bit_mask :: "nat \<Rightarrow> u8" where "bit_mask bi = push_bit (bi mod 8) 1"
definition bmap_clear :: "bytes \<Rightarrow> nat \<Rightarrow> bool" where "bmap_clear d bi \<longleftrightarrow> d (bi div 8) AND bit_mask bi = 0"
definition bmap_set :: "nat \<Rightarrow> bytes \<Rightarrow> bytes" where "bmap_set bi d = d(bi div 8 := d (bi div 8) OR bit_mask bi)"
definition bmap_unset :: "nat \<Rightarrow> bytes \<Rightarrow> bytes" where "bmap_unset bi d = d(bi div 8 := d (bi div 8) AND NOT (bit_mask bi))"

text \<open>The outer loop of \<open>balloc\<close> from block \<open>b\<close> on; the inner loop is the search in one block of the bitmap.\<close>

partial_function (option) balloc_from :: "u32 \<Rightarrow> u32 \<Rightarrow> 'a fsys_scheme \<Rightarrow> (u32 \<times> 'a fsys_scheme) option" where
  "balloc_from dev b s =
     (if b < sb_size (sb s)
      then do {
        (bp, s) \<leftarrow> bread dev (BBLOCK b (sb s)) s;
        case find (bmap_clear (bdata (bufs s bp))) [0..<min BPB (unat (sb_size (sb s) - b))] of
          Some bi \<Rightarrow> do {
            let s = upd_data bp (bmap_set bi) s;
            s \<leftarrow> log_write bp s;
            s \<leftarrow> brelse bp s;
            s \<leftarrow> bzero dev (b + of_nat bi) s;
            Some (b + of_nat bi, s)
          }
        | None \<Rightarrow> do {
            s \<leftarrow> brelse bp s;
            balloc_from dev (b + of_nat BPB) s
          }
      }
      else Some (0, s))"

definition balloc :: "u32 \<Rightarrow> 'a fsys_scheme \<Rightarrow> (u32 \<times> 'a fsys_scheme) option" where
  "balloc dev s = balloc_from dev 0 s"

definition bfree :: "u32 \<Rightarrow> u32 \<Rightarrow> 'a fsys_scheme \<Rightarrow> 'a fsys_scheme option" where
  "bfree dev b s =
     do {
       (bp, s) \<leftarrow> bread dev (BBLOCK b (sb s)) s;
       let bi = unat b mod BPB;
       if bmap_clear (bdata (bufs s bp)) bi then None
       else do {
         let s = upd_data bp (bmap_unset bi) s;
         s \<leftarrow> log_write bp s;
         brelse bp s
       }
     }"

section \<open>Inodes\<close>

definition iinit :: "'a fsys_scheme \<Rightarrow> 'a fsys_scheme" where
  "iinit s = fold (\<lambda>i s. initsleeplock (Ch_inode i) ''inode'' s) [0..<NINODE] s"

text \<open>The offset of an inode in its block, and the fields of \<open>struct dinode\<close> there.\<close>

definition dinode_off :: "u32 \<Rightarrow> nat" where
  "dinode_off i = dinode_size * (unat i mod IPB)"

definition put_dinode :: "inode \<Rightarrow> nat \<Rightarrow> bytes \<Rightarrow> bytes" where
  "put_dinode ip pos d =
     (let d = put16 d pos (itype ip); d = put16 d (pos + 2) (imajor ip); d = put16 d (pos + 4) (iminor ip);
          d = put16 d (pos + 6) (nlink ip); d = put32 d (pos + 8) (isize ip)
      in fold (\<lambda>i d. put32 d (pos + 12 + 4 * i) (addrs ip i)) [0..<NDIRECT + 1] d)"

definition get_dinode :: "bytes \<Rightarrow> nat \<Rightarrow> inode \<Rightarrow> inode" where
  "get_dinode d pos ip = ip\<lparr>itype := get16 d pos, imajor := get16 d (pos + 2), iminor := get16 d (pos + 4), nlink := get16 d (pos + 6),
     isize := get32 d (pos + 8), addrs := (\<lambda>i. if i < NDIRECT + 1 then get32 d (pos + 12 + 4 * i) else addrs ip i)\<rparr>"

definition zero_bytes :: "nat \<Rightarrow> nat \<Rightarrow> bytes \<Rightarrow> bytes" where
  "zero_bytes pos n d = (\<lambda>k. if pos \<le> k \<and> k < pos + n then 0 else d k)"

definition iget :: "u32 \<Rightarrow> u32 \<Rightarrow> 'a fsys_scheme \<Rightarrow> (nat \<times> 'a fsys_scheme) option" where
  "iget dev i s =
     (case find (\<lambda>ip. 0 < iref (itable s ip) \<and> idev (itable s ip) = dev \<and> inum (itable s ip) = i) [0..<NINODE] of
        Some ip \<Rightarrow> Some (ip, upd_inode ip (\<lambda>x. x\<lparr>iref := iref x + 1\<rparr>) s)
      | None \<Rightarrow> do {
          ip \<leftarrow> find (\<lambda>ip. iref (itable s ip) = 0) [0..<NINODE];
          Some (ip, upd_inode ip (\<lambda>x. x\<lparr>idev := dev, inum := i, iref := 1, ivalid := False\<rparr>) s)
        })"

fun ialloc_from :: "u32 \<Rightarrow> u16 \<Rightarrow> nat list \<Rightarrow> 'a fsys_scheme \<Rightarrow> (nat option \<times> 'a fsys_scheme) option" where
  "ialloc_from dev ty [] s = Some (None, s)"
| "ialloc_from dev ty (i # is) s =
     do {
       (bp, s) \<leftarrow> bread dev (IBLOCK (of_nat i) (sb s)) s;
       let dip = dinode_off (of_nat i);
       if get16 (bdata (bufs s bp)) dip = 0
       then do {
         let s = upd_data bp (\<lambda>d. put16 (zero_bytes dip dinode_size d) dip ty) s;
         s \<leftarrow> log_write bp s;
         s \<leftarrow> brelse bp s;
         (ip, s) \<leftarrow> iget dev (of_nat i) s;
         Some (Some ip, s)
       }
       else do { s \<leftarrow> brelse bp s; ialloc_from dev ty is s }
     }"

definition ialloc :: "u32 \<Rightarrow> u16 \<Rightarrow> 'a fsys_scheme \<Rightarrow> (nat option \<times> 'a fsys_scheme) option" where
  "ialloc dev ty s = ialloc_from dev ty [1..<unat (sb_ninodes (sb s))] s"

definition iupdate :: "nat \<Rightarrow> 'a fsys_scheme \<Rightarrow> 'a fsys_scheme option" where
  "iupdate ip s =
     do {
       (bp, s) \<leftarrow> bread (idev (itable s ip)) (IBLOCK (inum (itable s ip)) (sb s)) s;
       let s = upd_data bp (put_dinode (itable s ip) (dinode_off (inum (itable s ip)))) s;
       s \<leftarrow> log_write bp s;
       brelse bp s
     }"

definition idup :: "nat \<Rightarrow> 'a fsys_scheme \<Rightarrow> 'a fsys_scheme" where
  "idup ip s = upd_inode ip (\<lambda>x. x\<lparr>iref := iref x + 1\<rparr>) s"

definition ilock :: "nat \<Rightarrow> 'a fsys_scheme \<Rightarrow> 'a fsys_scheme option" where
  "ilock ip s =
     (if iref (itable s ip) < 1 then None
      else do {
        (_, s) \<leftarrow> at_once (acquiresleep (Ch_inode ip) s);
        if \<not> ivalid (itable s ip)
        then do {
          (bp, s) \<leftarrow> bread (idev (itable s ip)) (IBLOCK (inum (itable s ip)) (sb s)) s;
          let s = upd_inode ip (get_dinode (bdata (bufs s bp)) (dinode_off (inum (itable s ip)))) s;
          s \<leftarrow> brelse bp s;
          let s = upd_inode ip (\<lambda>x. x\<lparr>ivalid := True\<rparr>) s;
          if itype (itable s ip) = 0 then None else Some s
        }
        else Some s
      })"

definition iunlock :: "nat \<Rightarrow> 'a fsys_scheme \<Rightarrow> 'a fsys_scheme option" where
  "iunlock ip s =
     do {
       h \<leftarrow> holdingsleep (Ch_inode ip) s;
       if \<not> h \<or> iref (itable s ip) < 1 then None else Some (releasesleep (Ch_inode ip) s)
     }"

section \<open>Contents of inodes\<close>

definition bmap :: "nat \<Rightarrow> u32 \<Rightarrow> 'a fsys_scheme \<Rightarrow> (u32 \<times> 'a fsys_scheme) option" where
  "bmap ip bn s =
     (let n = unat bn
      in if n < NDIRECT
         then if addrs (itable s ip) n = 0
           then do {
             (addr, s) \<leftarrow> balloc (idev (itable s ip)) s;
             if addr = 0 then Some (0, s)
             else Some (addr, upd_inode ip (\<lambda>x. x\<lparr>addrs := (addrs x)(n := addr)\<rparr>) s)
           }
           else Some (addrs (itable s ip) n, s)
         else let n = n - NDIRECT
           in if n < NINDIRECT
              then do {
                (ind, s) \<leftarrow> (if addrs (itable s ip) NDIRECT = 0
                  then do {
                    (addr, s) \<leftarrow> balloc (idev (itable s ip)) s;
                    if addr = 0 then Some (0, s)
                    else Some (addr, upd_inode ip (\<lambda>x. x\<lparr>addrs := (addrs x)(NDIRECT := addr)\<rparr>) s)
                  }
                  else Some (addrs (itable s ip) NDIRECT, s));
                if ind = 0 then Some (0, s)
                else do {
                  (bp, s) \<leftarrow> bread (idev (itable s ip)) ind s;
                  (addr, s) \<leftarrow> (if get32 (bdata (bufs s bp)) (4 * n) = 0
                    then do {
                      (addr, s) \<leftarrow> balloc (idev (itable s ip)) s;
                      if addr \<noteq> 0
                      then do {
                        s \<leftarrow> log_write bp (upd_data bp (\<lambda>d. put32 d (4 * n) addr) s);
                        Some (addr, s)
                      }
                      else Some (addr, s)
                    }
                    else Some (get32 (bdata (bufs s bp)) (4 * n), s));
                  s \<leftarrow> brelse bp s;
                  Some (addr, s)
                }
              }
              else None)"

fun itrunc_direct :: "nat \<Rightarrow> nat list \<Rightarrow> 'a fsys_scheme \<Rightarrow> 'a fsys_scheme option" where
  "itrunc_direct ip [] s = Some s"
| "itrunc_direct ip (i # is) s =
     (if addrs (itable s ip) i \<noteq> 0
      then do {
        s \<leftarrow> bfree (idev (itable s ip)) (addrs (itable s ip) i) s;
        itrunc_direct ip is (upd_inode ip (\<lambda>x. x\<lparr>addrs := (addrs x)(i := 0)\<rparr>) s)
      }
      else itrunc_direct ip is s)"

fun itrunc_indirect :: "nat \<Rightarrow> nat \<Rightarrow> nat list \<Rightarrow> 'a fsys_scheme \<Rightarrow> 'a fsys_scheme option" where
  "itrunc_indirect ip bp [] s = Some s"
| "itrunc_indirect ip bp (j # js) s =
     (let a = get32 (bdata (bufs s bp)) (4 * j)
      in if a \<noteq> 0
         then do { s \<leftarrow> bfree (idev (itable s ip)) a s; itrunc_indirect ip bp js s }
         else itrunc_indirect ip bp js s)"

definition itrunc :: "nat \<Rightarrow> 'a fsys_scheme \<Rightarrow> 'a fsys_scheme option" where
  "itrunc ip s =
     do {
       s \<leftarrow> itrunc_direct ip [0..<NDIRECT] s;
       s \<leftarrow> (if addrs (itable s ip) NDIRECT \<noteq> 0
         then do {
           (bp, s) \<leftarrow> bread (idev (itable s ip)) (addrs (itable s ip) NDIRECT) s;
           s \<leftarrow> itrunc_indirect ip bp [0..<NINDIRECT] s;
           s \<leftarrow> brelse bp s;
           s \<leftarrow> bfree (idev (itable s ip)) (addrs (itable s ip) NDIRECT) s;
           Some (upd_inode ip (\<lambda>x. x\<lparr>addrs := (addrs x)(NDIRECT := 0)\<rparr>) s)
         }
         else Some s);
       iupdate ip (upd_inode ip (\<lambda>x. x\<lparr>isize := 0\<rparr>) s)
     }"

definition iput :: "nat \<Rightarrow> 'a fsys_scheme \<Rightarrow> 'a fsys_scheme option" where
  "iput ip s =
     do {
       s \<leftarrow> (if iref (itable s ip) = 1 \<and> ivalid (itable s ip) \<and> nlink (itable s ip) = 0
         then do {
           (_, s) \<leftarrow> at_once (acquiresleep (Ch_inode ip) s);
           s \<leftarrow> itrunc ip s;
           s \<leftarrow> iupdate ip (upd_inode ip (\<lambda>x. x\<lparr>itype := 0\<rparr>) s);
           Some (releasesleep (Ch_inode ip) (upd_inode ip (\<lambda>x. x\<lparr>ivalid := False\<rparr>) s))
         }
         else Some s);
       Some (upd_inode ip (\<lambda>x. x\<lparr>iref := iref x - 1\<rparr>) s)
     }"

definition iunlockput :: "nat \<Rightarrow> 'a fsys_scheme \<Rightarrow> 'a fsys_scheme option" where
  "iunlockput ip s = do { s \<leftarrow> iunlock ip s; iput ip s }"

record stat =
  st_dev :: u32
  st_ino :: u32
  st_type :: u16
  st_nlink :: u16
  st_size :: u64

definition stati :: "nat \<Rightarrow> 'a fsys_scheme \<Rightarrow> stat" where
  "stati ip s = (let x = itable s ip in
     \<lparr>st_dev = idev x, st_ino = inum x, st_type = itype x, st_nlink = nlink x, st_size = ucast (isize x)\<rparr>)"

text \<open>The chunk of a transfer at an offset: \<open>min(n - tot, BSIZE - off%BSIZE)\<close>.\<close>

definition io_chunk :: "u32 \<Rightarrow> u32 \<Rightarrow> u32 \<Rightarrow> u32" where
  "io_chunk n tot off = min (n - tot) (of_nat BSIZE - off mod of_nat BSIZE)"

lemma io_chunk_less: "tot < n \<Longrightarrow> unat (n - (tot + io_chunk n tot off)) < unat (n - tot)"
proof -
  assume "tot < n"
  let ?m = "io_chunk n tot off"
  have "off mod 1024 < (1024 :: u32)" by (rule word_mod_less_divisor) simp
  then have "0 < 1024 - off mod (1024 :: u32)" by (simp add: word_gt_0)
  moreover have "0 < n - tot" using \<open>tot < n\<close> by (simp add: word_gt_0)
  ultimately have "0 < ?m" "?m \<le> n - tot" by (simp_all add: io_chunk_def BSIZE_def)
  then have "unat (n - tot - ?m) = unat (n - tot) - unat ?m" "0 < unat ?m" "unat ?m \<le> unat (n - tot)"
    by (simp_all add: unat_sub word_le_nat_alt word_less_nat_alt)
  then show ?thesis by (simp add: algebra_simps)
qed

function readi_loop :: "nat \<Rightarrow> dest \<Rightarrow> u32 \<Rightarrow> u32 \<Rightarrow> u32 \<Rightarrow> 'a fsys_scheme \<Rightarrow> (u32 \<times> 'a fsys_scheme) option" where
  "readi_loop ip dst off n tot s =
     (if tot < n
      then do {
        (addr, s) \<leftarrow> bmap ip (off div of_nat BSIZE) s;
        if addr = 0 then Some (tot, s)
        else do {
          (bp, s) \<leftarrow> bread (idev (itable s ip)) addr s;
          let m = io_chunk n tot off;
          (r, s) \<leftarrow> either_copyout dst (\<lambda>k. bdata (bufs s bp) (unat (off mod of_nat BSIZE) + k)) (ucast m) s;
          s \<leftarrow> brelse bp s;
          if r = -1 then Some (-1, s) else readi_loop ip (dest_add dst m) (off + m) n (tot + m) s
        }
      }
      else Some (tot, s))"
  by pat_completeness auto
termination
  by (relation "measure (\<lambda>(_, _, _, n, tot, _). unat (n - tot))") (auto simp: io_chunk_less)

declare readi_loop.simps [simp del]

definition readi :: "nat \<Rightarrow> dest \<Rightarrow> u32 \<Rightarrow> u32 \<Rightarrow> 'a fsys_scheme \<Rightarrow> (int \<times> 'a fsys_scheme) option" where
  "readi ip dst off n s =
     (let sz = isize (itable s ip)
      in if sz < off \<or> off + n < off then Some (0, s)
         else let n = (if sz < off + n then sz - off else n)
           in do { (tot, s) \<leftarrow> readi_loop ip dst off n 0 s; Some (sint tot, s) })"

function writei_loop :: "nat \<Rightarrow> dest \<Rightarrow> u32 \<Rightarrow> u32 \<Rightarrow> u32 \<Rightarrow> 'a fsys_scheme \<Rightarrow> (u32 \<times> u32 \<times> 'a fsys_scheme) option" where
  "writei_loop ip src off n tot s =
     (if tot < n
      then do {
        (addr, s) \<leftarrow> bmap ip (off div of_nat BSIZE) s;
        if addr = 0 then Some (tot, off, s)
        else do {
          (bp, s) \<leftarrow> bread (idev (itable s ip)) addr s;
          let m = io_chunk n tot off;
          let pos = unat (off mod of_nat BSIZE);
          (r, d) \<leftarrow> either_copyin (\<lambda>k. bdata (bufs s bp) (pos + k)) src (ucast m) s;
          let s = upd_data bp (\<lambda>x k. if k < pos then x k else d (k - pos)) s;
          if r = -1 then do { s \<leftarrow> brelse bp s; Some (tot, off, s) }
          else do {
            s \<leftarrow> log_write bp s;
            s \<leftarrow> brelse bp s;
            writei_loop ip (dest_add src m) (off + m) n (tot + m) s
          }
        }
      }
      else Some (tot, off, s))"
  by pat_completeness auto
termination
  by (relation "measure (\<lambda>(_, _, _, n, tot, _). unat (n - tot))") (auto simp: io_chunk_less)

declare writei_loop.simps [simp del]

definition writei :: "nat \<Rightarrow> dest \<Rightarrow> u32 \<Rightarrow> u32 \<Rightarrow> 'a fsys_scheme \<Rightarrow> (int \<times> 'a fsys_scheme) option" where
  "writei ip src off n s =
     (if isize (itable s ip) < off \<or> off + n < off then Some (-1, s)
      else if of_nat (MAXFILE * BSIZE) < off + n then Some (-1, s)
      else do {
        (tot, off, s) \<leftarrow> writei_loop ip src off n 0 s;
        let s = (if isize (itable s ip) < off then upd_inode ip (\<lambda>x. x\<lparr>isize := off\<rparr>) s else s);
        s \<leftarrow> iupdate ip s;
        Some (sint tot, s)
      })"

section \<open>Directories\<close>

definition namecmp :: "bytes \<Rightarrow> bytes \<Rightarrow> int" where
  "namecmp p q = strncmp p q DIRSIZ"

text \<open>The directory entry \<open>de\<close> on the stack of \<open>dirlookup\<close> and \<open>dirlink\<close> is the kernel object \<open>kobj\<close>.\<close>

definition de_inum :: "bytes \<Rightarrow> u16" where "de_inum d = get16 d 0"
definition de_name :: "bytes \<Rightarrow> bytes" where "de_name d = (\<lambda>k. d (2 + k))"

partial_function (option) dirlookup_from :: "nat \<Rightarrow> bytes \<Rightarrow> u32 \<Rightarrow> 'a fsys_scheme \<Rightarrow> ((nat \<times> u32) option \<times> 'a fsys_scheme) option" where
  "dirlookup_from dp nm off s =
     (if off < isize (itable s dp)
      then do {
        (r, s) \<leftarrow> readi dp (Kobj 0) off dirent_size s;
        if r \<noteq> uint dirent_size then None
        else if de_inum (kobj s) \<noteq> 0 \<and> namecmp nm (de_name (kobj s)) = 0
        then do {
          (ip, s) \<leftarrow> iget (idev (itable s dp)) (ucast (de_inum (kobj s))) s;
          Some (Some (ip, off), s)
        }
        else dirlookup_from dp nm (off + dirent_size) s
      }
      else Some (None, s))"

definition dirlookup :: "nat \<Rightarrow> bytes \<Rightarrow> 'a fsys_scheme \<Rightarrow> ((nat \<times> u32) option \<times> 'a fsys_scheme) option" where
  "dirlookup dp nm s = (if itype (itable s dp) \<noteq> T_DIR then None else dirlookup_from dp nm 0 s)"

partial_function (option) dirlink_slot :: "nat \<Rightarrow> u32 \<Rightarrow> 'a fsys_scheme \<Rightarrow> (u32 \<times> 'a fsys_scheme) option" where
  "dirlink_slot dp off s =
     (if off < isize (itable s dp)
      then do {
        (r, s) \<leftarrow> readi dp (Kobj 0) off dirent_size s;
        if r \<noteq> uint dirent_size then None
        else if de_inum (kobj s) = 0 then Some (off, s)
        else dirlink_slot dp (off + dirent_size) s
      }
      else Some (off, s))"

definition put_dirent :: "bytes \<Rightarrow> u16 \<Rightarrow> bytes \<Rightarrow> bytes" where
  "put_dirent nm i d =
     (let n = strncpy (\<lambda>k. d (2 + k)) nm (int DIRSIZ)
      in put16 (\<lambda>k. if 2 \<le> k \<and> k < 2 + DIRSIZ then n (k - 2) else d k) 0 i)"

definition dirlink :: "nat \<Rightarrow> bytes \<Rightarrow> u32 \<Rightarrow> 'a fsys_scheme \<Rightarrow> (int \<times> 'a fsys_scheme) option" where
  "dirlink dp nm i s =
     do {
       (found, s) \<leftarrow> dirlookup dp nm s;
       case found of
         Some (ip, _) \<Rightarrow> do { s \<leftarrow> iput ip s; Some (-1, s) }
       | None \<Rightarrow> do {
           (off, s) \<leftarrow> dirlink_slot dp 0 s;
           let s = s\<lparr>kobj := put_dirent nm (ucast i) (kobj s)\<rparr>;
           (r, s) \<leftarrow> writei dp (Kobj 0) off dirent_size s;
           Some (if r \<noteq> uint dirent_size then -1 else 0, s)
         }
     }"

section \<open>Paths\<close>

abbreviation slash :: u8 where "slash \<equiv> 47"

partial_function (option) skip_while :: "(u8 \<Rightarrow> bool) \<Rightarrow> bytes \<Rightarrow> nat \<Rightarrow> nat option" where
  "skip_while P pth i = (if P (pth i) then skip_while P pth (i + 1) else Some i)"

text \<open>
  A position in a path instead of a pointer into it. The result is the position after the element
  and the element, or \<open>None\<close> where the code returns 0.
\<close>

definition skipelem :: "bytes \<Rightarrow> nat \<Rightarrow> bytes \<Rightarrow> (nat \<times> bytes) option option" where
  "skipelem pth i nm =
     do {
       s \<leftarrow> skip_while (\<lambda>c. c = slash) pth i;
       if pth s = 0 then Some None
       else do {
         p \<leftarrow> skip_while (\<lambda>c. c \<noteq> slash \<and> c \<noteq> 0) pth s;
         let len = p - s;
         let nm = (if DIRSIZ \<le> len then (\<lambda>k. if k < DIRSIZ then pth (s + k) else nm k)
                     else (\<lambda>k. if k < len then pth (s + k) else if k = len then 0 else nm k));
         q \<leftarrow> skip_while (\<lambda>c. c = slash) pth p;
         Some (Some (q, nm))
       }
     }"

partial_function (option) namex_from ::
    "bytes \<Rightarrow> bool \<Rightarrow> nat \<Rightarrow> nat \<Rightarrow> bytes \<Rightarrow> 'a fsys_scheme \<Rightarrow> (nat option \<times> bytes \<times> 'a fsys_scheme) option" where
  "namex_from pth parent' i ip nm s =
     do {
       e \<leftarrow> skipelem pth i nm;
       case e of
         None \<Rightarrow> if parent' then do { s \<leftarrow> iput ip s; Some (None, nm, s) } else Some (Some ip, nm, s)
       | Some (i, nm) \<Rightarrow> do {
           s \<leftarrow> ilock ip s;
           if itype (itable s ip) \<noteq> T_DIR then do { s \<leftarrow> iunlockput ip s; Some (None, nm, s) }
           else if parent' \<and> pth i = 0 then do { s \<leftarrow> iunlock ip s; Some (Some ip, nm, s) }
           else do {
             (next, s) \<leftarrow> dirlookup ip nm s;
             s \<leftarrow> iunlockput ip s;
             case next of
               None \<Rightarrow> Some (None, nm, s)
             | Some (next, _) \<Rightarrow> namex_from pth parent' i next nm s
           }
         }
     }"

definition namex :: "bytes \<Rightarrow> bool \<Rightarrow> bytes \<Rightarrow> 'a fsys_scheme \<Rightarrow> (nat option \<times> bytes \<times> 'a fsys_scheme) option" where
  "namex pth parent' nm s =
     do {
       (ip, s) \<leftarrow> (if pth 0 = slash then iget ROOTDEV ROOTINO s
         else do { p \<leftarrow> myproc s; ip \<leftarrow> cwd (procs s p); Some (ip, idup ip s) });
       namex_from pth parent' 0 ip nm s
     }"

definition namei :: "bytes \<Rightarrow> 'a fsys_scheme \<Rightarrow> (nat option \<times> 'a fsys_scheme) option" where
  "namei pth s = do { (ip, _, s) \<leftarrow> namex pth False (\<lambda>_. 0) s; Some (ip, s) }"

definition nameiparent :: "bytes \<Rightarrow> bytes \<Rightarrow> 'a fsys_scheme \<Rightarrow> (nat option \<times> bytes \<times> 'a fsys_scheme) option" where
  "nameiparent pth nm s = namex pth True nm s"

end
