(* ===== verification/Console.thy ===== *)
theory Console
  imports Fs
begin

text \<open>
  The serial port, \<^verbatim>\<open>kernel/uart.c\<close>, formatted output, \<^verbatim>\<open>kernel/printf.c\<close>, and the console,
  \<^verbatim>\<open>kernel/console.c\<close>. The device is outside the program: what the reads of its status register
  and of its receive register return are two sequences in the state, consumed one value per
  read, and the writes to its registers are a list. A loop that waits for the device ends when
  the sequence says so, and is \<open>None\<close> when it never does.
\<close>

section \<open>The serial port\<close>

definition THR :: nat where "THR = 0"
definition IER :: nat where "IER = 1"
definition IER_RX_ENABLE :: u8 where "IER_RX_ENABLE = 1"
definition IER_TX_ENABLE :: u8 where "IER_TX_ENABLE = 2"
definition FCR :: nat where "FCR = 2"
definition FCR_FIFO_ENABLE :: u8 where "FCR_FIFO_ENABLE = 1"
definition FCR_FIFO_CLEAR :: u8 where "FCR_FIFO_CLEAR = 6"
definition LCR :: nat where "LCR = 3"
definition LCR_EIGHT_BITS :: u8 where "LCR_EIGHT_BITS = 3"
definition LCR_BAUD_LATCH :: u8 where "LCR_BAUD_LATCH = 128"
definition LSR_RX_READY :: u8 where "LSR_RX_READY = 1"
definition LSR_TX_IDLE :: u8 where "LSR_TX_IDLE = 32"
definition UART_TX_BUF_SIZE :: u64 where "UART_TX_BUF_SIZE = 32"

record txring =
  uart_tx_buf :: bytes
  uart_tx_w :: u64
  uart_tx_r :: u64

record uart = fsys +
  tx :: txring
  panicked :: int
  lsr :: "nat \<Rightarrow> u8"
  lsr_n :: nat
  rhr :: "nat \<Rightarrow> u8"
  rhr_n :: nat
  uart_writes :: "(nat \<times> u8) list"

definition ReadLSR :: "'a uart_scheme \<Rightarrow> u8 \<times> 'a uart_scheme" where
  "ReadLSR s = (lsr s (lsr_n s), s\<lparr>lsr_n := lsr_n s + 1\<rparr>)"

definition ReadRHR :: "'a uart_scheme \<Rightarrow> u8 \<times> 'a uart_scheme" where
  "ReadRHR s = (rhr s (rhr_n s), s\<lparr>rhr_n := rhr_n s + 1\<rparr>)"

definition WriteReg :: "nat \<Rightarrow> u8 \<Rightarrow> 'a uart_scheme \<Rightarrow> 'a uart_scheme" where
  "WriteReg r v s = s\<lparr>uart_writes := uart_writes s @ [(r, v)]\<rparr>"

definition uartinit :: "'a uart_scheme \<Rightarrow> 'a uart_scheme" where
  "uartinit s =
     (let s = WriteReg IER 0 s;
          s = WriteReg LCR LCR_BAUD_LATCH s;
          s = WriteReg 0 3 s;
          s = WriteReg 1 0 s;
          s = WriteReg LCR LCR_EIGHT_BITS s;
          s = WriteReg FCR (FCR_FIFO_ENABLE OR FCR_FIFO_CLEAR) s
      in WriteReg IER (IER_TX_ENABLE OR IER_RX_ENABLE) s)"

text \<open>The transmit buffer: \<open>uart_tx_buf[uart_tx_w % UART_TX_BUF_SIZE] = c; uart_tx_w += 1\<close>, and its reading.\<close>

definition tx_put :: "u8 \<Rightarrow> txring \<Rightarrow> txring" where
  "tx_put c q = q\<lparr>uart_tx_buf := (uart_tx_buf q)(unat (uart_tx_w q mod UART_TX_BUF_SIZE) := c), uart_tx_w := uart_tx_w q + 1\<rparr>"

definition tx_get :: "txring \<Rightarrow> u8 \<times> txring" where
  "tx_get q = (uart_tx_buf q (unat (uart_tx_r q mod UART_TX_BUF_SIZE)), q\<lparr>uart_tx_r := uart_tx_r q + 1\<rparr>)"

lemma wakeup_tx [simp]: "tx (wakeup c s) = tx s"
  unfolding wakeup_def by (rule fold_invariant [where Q = "\<lambda>_. True" and P = "\<lambda>s'. tx s' = tx s"]) auto

lemma tx_distance_less:
  assumes "uart_tx_w q \<noteq> uart_tx_r q"
  shows "unat (uart_tx_w q - (uart_tx_r q + 1)) < unat (uart_tx_w q - uart_tx_r q)"
proof -
  have "uart_tx_w q - uart_tx_r q \<noteq> 0" using assms by simp
  then have "unat (uart_tx_w q - uart_tx_r q - 1) < unat (uart_tx_w q - uart_tx_r q)"
    by (metis measure_unat)
  then show ?thesis by (simp add: algebra_simps)
qed

function uartstart :: "'a uart_scheme \<Rightarrow> 'a uart_scheme" where
  "uartstart s =
     (if uart_tx_w (tx s) = uart_tx_r (tx s) then s
      else let (l, s') = ReadLSR s
        in if l AND LSR_TX_IDLE = 0 then s'
           else let (c, q) = tx_get (tx s')
             in uartstart (WriteReg THR c (wakeup Ch_uart (s'\<lparr>tx := q\<rparr>))))"
  by pat_completeness auto
termination
  by (relation "measure (\<lambda>s. unat (uart_tx_w (tx s) - uart_tx_r (tx s)))")
    (auto simp: ReadLSR_def WriteReg_def tx_get_def tx_distance_less)

declare uartstart.simps [simp del]

text \<open>The loop of \<open>uartputc\<close>, from its head to the return or the sleep; a call that is woken goes on at its head.\<close>

definition uartputc_loop :: "u8 \<Rightarrow> 'a uart_scheme \<Rightarrow> (unit outcome \<times> 'a uart_scheme) option" where
  "uartputc_loop c s =
     (if uart_tx_w (tx s) = uart_tx_r (tx s) + UART_TX_BUF_SIZE
      then do { p \<leftarrow> myproc s; Some (Sleep Ch_uart, sleep_enter p Ch_uart s) }
      else Some (Done (), uartstart (s\<lparr>tx := tx_put c (tx s)\<rparr>)))"

definition uartputc :: "u8 \<Rightarrow> 'a uart_scheme \<Rightarrow> (unit outcome \<times> 'a uart_scheme) option" where
  "uartputc c s = (if panicked s \<noteq> 0 then None else uartputc_loop c s)"

partial_function (option) tx_wait :: "'a uart_scheme \<Rightarrow> 'a uart_scheme option" where
  "tx_wait s = (let (l, s) = ReadLSR s in if l AND LSR_TX_IDLE = 0 then tx_wait s else Some s)"

definition uartputc_sync :: "u8 \<Rightarrow> 'a uart_scheme \<Rightarrow> 'a uart_scheme option" where
  "uartputc_sync c s =
     (let s = s\<lparr>cpu_tab := (cpu_tab s)(hart s := push_off (mycpu s))\<rparr>
      in if panicked s \<noteq> 0 then None
         else do {
           s \<leftarrow> tx_wait s;
           let s = WriteReg THR c s;
           cp \<leftarrow> pop_off (mycpu s);
           Some (s\<lparr>cpu_tab := (cpu_tab s)(hart s := cp)\<rparr>)
         })"

definition uartgetc :: "'a uart_scheme \<Rightarrow> int \<times> 'a uart_scheme" where
  "uartgetc s =
     (let (l, s) = ReadLSR s
      in if l AND 1 \<noteq> 0 then let (c, s) = ReadRHR s in (uint c, s) else (-1, s))"

section \<open>Formatted output\<close>

definition BACKSPACE :: int where "BACKSPACE = 256"

definition consputc :: "int \<Rightarrow> 'a uart_scheme \<Rightarrow> 'a uart_scheme option" where
  "consputc c s =
     (if c = BACKSPACE
      then do { s \<leftarrow> uartputc_sync 8 s; s \<leftarrow> uartputc_sync 32 s; uartputc_sync 8 s }
      else uartputc_sync (of_int c) s)"

fun consputs :: "u8 list \<Rightarrow> 'a uart_scheme \<Rightarrow> 'a uart_scheme option" where
  "consputs [] s = Some s"
| "consputs (c # cs) s = do { s \<leftarrow> consputc (uint c) s; consputs cs s }"

definition digits :: "nat \<Rightarrow> u8" where
  "digits = cstring ''0123456789abcdef''"

text \<open>
  The characters that \<open>printint\<close> puts into \<open>buf\<close>, which it then prints from the last to the first.
  The loop divides until the number is zero.
\<close>

partial_function (option) printint_loop :: "u32 \<Rightarrow> u32 \<Rightarrow> u8 list option" where
  "printint_loop base x =
     (let c = digits (unat (x mod base)); x = x div base
      in if x \<noteq> 0 then do { cs \<leftarrow> printint_loop base x; Some (c # cs) } else Some [c])"

definition printint_buf :: "u32 \<Rightarrow> u32 \<Rightarrow> bool \<Rightarrow> u8 list option" where
  "printint_buf xx base sg =
     (let neg = (sg \<and> sint xx < 0); x = (if neg then - xx else xx)
      in do { cs \<leftarrow> printint_loop base x; Some (if neg then cs @ [45] else cs) })"

definition printint :: "u32 \<Rightarrow> u32 \<Rightarrow> bool \<Rightarrow> 'a uart_scheme \<Rightarrow> 'a uart_scheme option" where
  "printint xx base sg s = do { buf \<leftarrow> printint_buf xx base sg; consputs (rev buf) s }"

definition printptr :: "u64 \<Rightarrow> 'a uart_scheme \<Rightarrow> 'a uart_scheme option" where
  "printptr x s =
     do {
       s \<leftarrow> consputc 48 s;
       s \<leftarrow> consputc 120 s;
       consputs (map (\<lambda>i. digits (unat (drop_bit 60 (push_bit (4 * i) x)))) [0..<16]) s
     }"

text \<open>The variable arguments of \<open>printf\<close>: numbers, and strings or a null pointer.\<close>

datatype arg = Num u64 | Str "bytes option"

partial_function (option) putstr :: "bytes \<Rightarrow> nat \<Rightarrow> 'a uart_scheme \<Rightarrow> 'a uart_scheme option" where
  "putstr str i s = (if str i = 0 then Some s else do { s \<leftarrow> consputc (uint (str i)) s; putstr str (i + 1) s })"

text \<open>One conversion \<open>%c\<close>; a missing argument or one of the wrong kind is undefined behaviour.\<close>

definition printf_conv :: "u8 \<Rightarrow> arg list \<Rightarrow> 'a uart_scheme \<Rightarrow> (arg list \<times> 'a uart_scheme) option" where
  "printf_conv c args s =
     (if c = 100 then (case args of Num n # as \<Rightarrow> do { s \<leftarrow> printint (ucast n) 10 True s; Some (as, s) } | _ \<Rightarrow> None)
      else if c = 120 then (case args of Num n # as \<Rightarrow> do { s \<leftarrow> printint (ucast n) 16 True s; Some (as, s) } | _ \<Rightarrow> None)
      else if c = 112 then (case args of Num n # as \<Rightarrow> do { s \<leftarrow> printptr n s; Some (as, s) } | _ \<Rightarrow> None)
      else if c = 115
      then (case args of
              Str str # as \<Rightarrow> do {
                s \<leftarrow> putstr (case str of None \<Rightarrow> cstring ''(null)'' | Some x \<Rightarrow> x) 0 s;
                Some (as, s)
              }
            | _ \<Rightarrow> None)
      else if c = 37 then do { s \<leftarrow> consputc 37 s; Some (args, s) }
      else do { s \<leftarrow> consputc 37 s; s \<leftarrow> consputc (uint c) s; Some (args, s) })"

partial_function (option) printf_from :: "bytes \<Rightarrow> nat \<Rightarrow> arg list \<Rightarrow> 'a uart_scheme \<Rightarrow> 'a uart_scheme option" where
  "printf_from fmt i args s =
     (if fmt i = 0 then Some s
      else if fmt i \<noteq> 37 then do { s \<leftarrow> consputc (uint (fmt i)) s; printf_from fmt (i + 1) args s }
      else if fmt (i + 1) = 0 then Some s
      else do { (args, s) \<leftarrow> printf_conv (fmt (i + 1)) args s; printf_from fmt (i + 2) args s })"

definition printf :: "string \<Rightarrow> arg list \<Rightarrow> 'a uart_scheme \<Rightarrow> 'a uart_scheme option" where
  "printf fmt args s = printf_from (cstring fmt) 0 args s"

text \<open>The state in which \<open>panic\<close> spins for ever. Elsewhere a call of it is \<open>None\<close>.\<close>

definition panic :: "string \<Rightarrow> 'a uart_scheme \<Rightarrow> 'a uart_scheme option" where
  "panic msg s =
     do {
       s \<leftarrow> printf ''panic: '' [] s;
       s \<leftarrow> printf msg [] s;
       s \<leftarrow> printf [CHR 0x0A] [] s;
       Some (s\<lparr>panicked := 1\<rparr>)
     }"

section \<open>Listing of the processes\<close>

fun state_name :: "procstate \<Rightarrow> string" where
  "state_name UNUSED = ''unused''"
| "state_name USED = ''used''"
| "state_name SLEEPING = ''sleep ''"
| "state_name RUNNABLE = ''runble''"
| "state_name RUNNING = ''run   ''"
| "state_name ZOMBIE = ''zombie''"

fun procdump_from :: "nat list \<Rightarrow> 'a uart_scheme \<Rightarrow> 'a uart_scheme option" where
  "procdump_from [] s = Some s"
| "procdump_from (p # ps) s =
     (if state (procs s p) = UNUSED then procdump_from ps s
      else do {
        s \<leftarrow> printf ''%d %s %s'' [Num (of_int (pid (procs s p))), Str (Some (cstring (state_name (state (procs s p))))),
               Str (Some (name (procs s p)))] s;
        s \<leftarrow> printf [CHR 0x0A] [] s;
        procdump_from ps s
      })"

definition procdump :: "'a uart_scheme \<Rightarrow> 'a uart_scheme option" where
  "procdump s = do { s \<leftarrow> printf [CHR 0x0A] [] s; procdump_from [0..<NPROC] s }"

section \<open>The console\<close>

definition INPUT_BUF_SIZE :: u32 where "INPUT_BUF_SIZE = 128"
definition CONSOLE :: nat where "CONSOLE = 1"

record consbuf =
  cons_buf :: bytes
  cons_r :: u32
  cons_w :: u32
  cons_e :: u32

text \<open>The functions that \<open>devsw\<close> can point to.\<close>

datatype dev_read = Consoleread
datatype dev_write = Consolewrite

record devsw =
  dread :: "dev_read option"
  dwrite :: "dev_write option"

record console = uart +
  cons :: consbuf
  dev_sw :: "nat \<Rightarrow> devsw"

abbreviation upd_cons :: "(consbuf \<Rightarrow> consbuf) \<Rightarrow> 'a console_scheme \<Rightarrow> 'a console_scheme" where
  "upd_cons f s \<equiv> s\<lparr>cons := f (cons s)\<rparr>"

text \<open>
  \<open>consolewrite\<close> from byte \<open>i\<close> on, to its return or its sleep in \<open>uartputc\<close>. The result has the
  position, and the byte whose \<open>uartputc\<close> sleeps; \<open>consolewrite_resume\<close> is the rest of a call that
  is woken there.
\<close>

function consolewrite_loop :: "dest \<Rightarrow> int \<Rightarrow> int \<Rightarrow> 'a console_scheme \<Rightarrow> (int outcome \<times> int \<times> u8 \<times> 'a console_scheme) option" where
  "consolewrite_loop src n i s =
     (if i < n
      then do {
        (r, d) \<leftarrow> either_copyin (\<lambda>_. 0) (dest_add src (of_int i)) 1 s;
        if r = -1 then Some (Done i, i, 0, s)
        else do {
          (out, s) \<leftarrow> uartputc (d 0) s;
          case out of
            Sleep ch \<Rightarrow> Some (Sleep ch, i, d 0, s)
          | Done _ \<Rightarrow> consolewrite_loop src n (i + 1) s
        }
      }
      else Some (Done i, i, 0, s))"
  by pat_completeness auto
termination
  by (relation "measure (\<lambda>(_, n, i, _). nat (n - i))") auto

declare consolewrite_loop.simps [simp del]

definition consolewrite :: "dest \<Rightarrow> int \<Rightarrow> 'a console_scheme \<Rightarrow> (int outcome \<times> int \<times> u8 \<times> 'a console_scheme) option" where
  "consolewrite src n s = consolewrite_loop src n 0 s"

definition consolewrite_resume ::
  "dest \<Rightarrow> int \<Rightarrow> int \<Rightarrow> u8 \<Rightarrow> 'a console_scheme \<Rightarrow> (int outcome \<times> int \<times> u8 \<times> 'a console_scheme) option" where
  "consolewrite_resume src n i c s =
     do {
       (out, s) \<leftarrow> uartputc_loop c s;
       case out of
         Sleep ch \<Rightarrow> Some (Sleep ch, i, c, s)
       | Done _ \<Rightarrow> consolewrite_loop src n (i + 1) s
     }"

text \<open>
  \<open>consoleread\<close> with \<open>n\<close> of \<open>target\<close> bytes still to read, to its return or its sleep, with the number
  still to read there.
\<close>

function consoleread_loop :: "dest \<Rightarrow> int \<Rightarrow> int \<Rightarrow> 'a console_scheme \<Rightarrow> (int outcome \<times> int \<times> 'a console_scheme) option" where
  "consoleread_loop dst n target s =
     (if n > 0
      then do {
        p \<leftarrow> myproc s;
        if cons_r (cons s) = cons_w (cons s)
        then if is_killed p s then Some (Done (-1), n, s)
          else Some (Sleep Ch_cons, n, sleep_enter p Ch_cons s)
        else let c = cons_buf (cons s) (unat (cons_r (cons s) mod INPUT_BUF_SIZE));
                 s = upd_cons (\<lambda>x. x\<lparr>cons_r := cons_r x + 1\<rparr>) s
          in if c = 4
             then Some (Done (target - n), n, if n < target then upd_cons (\<lambda>x. x\<lparr>cons_r := cons_r x - 1\<rparr>) s else s)
             else do {
               (r, s) \<leftarrow> either_copyout dst (\<lambda>_. c) 1 s;
               if r = -1 then Some (Done (target - n), n, s)
               else if c = 10 then Some (Done (target - (n - 1)), n - 1, s)
               else consoleread_loop (dest_add dst 1) (n - 1) target s
             }
      }
      else Some (Done (target - n), n, s))"
  by pat_completeness auto
termination
  by (relation "measure (\<lambda>(_, n, _, _). nat n)") auto

declare consoleread_loop.simps [simp del]

definition consoleread :: "dest \<Rightarrow> int \<Rightarrow> 'a console_scheme \<Rightarrow> (int outcome \<times> int \<times> 'a console_scheme) option" where
  "consoleread dst n s = consoleread_loop dst n n s"

partial_function (option) cons_kill_line :: "'a console_scheme \<Rightarrow> 'a console_scheme option" where
  "cons_kill_line s =
     (if cons_e (cons s) \<noteq> cons_w (cons s) \<and> cons_buf (cons s) (unat ((cons_e (cons s) - 1) mod INPUT_BUF_SIZE)) \<noteq> 10
      then do {
        s \<leftarrow> consputc BACKSPACE (upd_cons (\<lambda>x. x\<lparr>cons_e := cons_e x - 1\<rparr>) s);
        cons_kill_line s
      }
      else Some s)"

text \<open>\<open>cons.buf[cons.e++ % INPUT_BUF_SIZE] = c\<close>\<close>

definition cons_put :: "u8 \<Rightarrow> consbuf \<Rightarrow> consbuf" where
  "cons_put c q = q\<lparr>cons_buf := (cons_buf q)(unat (cons_e q mod INPUT_BUF_SIZE) := c), cons_e := cons_e q + 1\<rparr>"

definition consoleintr :: "int \<Rightarrow> 'a console_scheme \<Rightarrow> 'a console_scheme option" where
  "consoleintr c s =
     (if c = 16 then procdump s
      else if c = 21 then cons_kill_line s
      else if c = 8 \<or> c = 127
      then if cons_e (cons s) \<noteq> cons_w (cons s)
        then consputc BACKSPACE (upd_cons (\<lambda>x. x\<lparr>cons_e := cons_e x - 1\<rparr>) s) else Some s
      else if c \<noteq> 0 \<and> cons_e (cons s) - cons_r (cons s) < INPUT_BUF_SIZE
      then let c = (if c = 13 then 10 else c)
        in do {
          s \<leftarrow> consputc c s;
          let s = upd_cons (cons_put (of_int c)) s;
          Some (if c = 10 \<or> c = 4 \<or> cons_e (cons s) - cons_r (cons s) = INPUT_BUF_SIZE
            then wakeup Ch_cons (upd_cons (\<lambda>x. x\<lparr>cons_w := cons_e x\<rparr>) s) else s)
        }
      else Some s)"

definition consoleinit :: "'a console_scheme \<Rightarrow> 'a console_scheme" where
  "consoleinit s =
     (let s = uartinit s
      in s\<lparr>dev_sw := (dev_sw s)(CONSOLE := \<lparr>dread = Some Consoleread, dwrite = Some Consolewrite\<rparr>)\<rparr>)"

partial_function (option) uartintr_input :: "'a console_scheme \<Rightarrow> 'a console_scheme option" where
  "uartintr_input s =
     (let (c, s) = uartgetc s
      in if c = -1 then Some s else do { s \<leftarrow> consoleintr c s; uartintr_input s })"

definition uartintr :: "'a console_scheme \<Rightarrow> 'a console_scheme option" where
  "uartintr s = do { s \<leftarrow> uartintr_input s; Some (uartstart s) }"

end
