(* ===== verification/File.thy ===== *)
theory File
  imports Console
begin

text \<open>
  Open files, \<^verbatim>\<open>kernel/file.c\<close>, and the allocation of pipes, which needs the file table,
  \<^verbatim>\<open>kernel/pipe.c\<close>. A \<open>struct file\<close> is named by its index in the table. \<open>fileread\<close> and \<open>filewrite\<close>
  run to their return or to their sleep on a pipe or the console; the transactions and sleep
  locks they take for an inode are taken without waiting.
\<close>

section \<open>Model\<close>

datatype fdtype = FD_NONE | FD_PIPE | FD_INODE | FD_DEVICE

record kfile =
  ftype :: fdtype
  fref :: int
  readable :: bool
  writable :: bool
  fpipe :: u64
  fip :: nat
  foff :: u32
  fmajor :: u16

record files = console +
  ftable :: "nat \<Rightarrow> kfile"

abbreviation upd_file :: "nat \<Rightarrow> (kfile \<Rightarrow> kfile) \<Rightarrow> 'a files_scheme \<Rightarrow> 'a files_scheme" where
  "upd_file f g s \<equiv> s\<lparr>ftable := (ftable s)(f := g (ftable s f))\<rparr>"

definition filealloc :: "'a files_scheme \<Rightarrow> nat option \<times> 'a files_scheme" where
  "filealloc s =
     (case find (\<lambda>f. fref (ftable s f) = 0) [0..<NFILE] of
        Some f \<Rightarrow> (Some f, upd_file f (\<lambda>x. x\<lparr>fref := 1\<rparr>) s)
      | None \<Rightarrow> (None, s))"

definition filedup :: "nat \<Rightarrow> 'a files_scheme \<Rightarrow> 'a files_scheme option" where
  "filedup f s = (if fref (ftable s f) < 1 then None else Some (upd_file f (\<lambda>x. x\<lparr>fref := fref x + 1\<rparr>) s))"

definition fileclose :: "nat \<Rightarrow> 'a files_scheme \<Rightarrow> 'a files_scheme option" where
  "fileclose f s =
     (if fref (ftable s f) < 1 then None
      else let s = upd_file f (\<lambda>x. x\<lparr>fref := fref x - 1\<rparr>) s
        in if 0 < fref (ftable s f) then Some s
           else let ff = ftable s f; s = upd_file f (\<lambda>x. x\<lparr>fref := 0, ftype := FD_NONE\<rparr>) s
             in if ftype ff = FD_PIPE then pipeclose (fpipe ff) (writable ff) s
                else if ftype ff = FD_INODE \<or> ftype ff = FD_DEVICE
                then do {
                  (_, s) \<leftarrow> at_once (begin_op s);
                  s \<leftarrow> iput (fip ff) s;
                  end_op s
                }
                else Some s)"

text \<open>\<open>struct stat\<close> as \<open>copyout\<close> copies it, with \<open>size\<close> at offset 16; the padding is what the stack held.\<close>

definition stat_bytes :: "bytes \<Rightarrow> stat \<Rightarrow> bytes" where
  "stat_bytes junk st =
     (let d = put32 junk 0 (st_dev st); d = put32 d 4 (st_ino st); d = put16 d 8 (st_type st);
          d = put16 d 10 (st_nlink st)
      in (\<lambda>k. if 16 \<le> k \<and> k < 24 then byte_of (k - 16) (st_size st) else d k))"

definition stat_size :: u64 where "stat_size = 24"

definition filestat :: "nat \<Rightarrow> u64 \<Rightarrow> 'a files_scheme \<Rightarrow> (int \<times> 'a files_scheme) option" where
  "filestat f addr s =
     do {
       p \<leftarrow> myproc s;
       if ftype (ftable s f) = FD_INODE \<or> ftype (ftable s f) = FD_DEVICE
       then do {
         s \<leftarrow> ilock (fip (ftable s f)) s;
         let st = stati (fip (ftable s f)) s;
         s \<leftarrow> iunlock (fip (ftable s f)) s;
         (r, s) \<leftarrow> copyout (pagetable (procs s p)) addr (stat_bytes (kobj s) st) stat_size s;
         Some (if r < 0 then -1 else 0, s)
       }
       else Some (-1, s)
     }"

text \<open>A device number is an entry of \<open>devsw\<close>: \<open>major\<close> is a \<open>short\<close>.\<close>

definition major_ok :: "u16 \<Rightarrow> bool" where
  "major_ok m \<longleftrightarrow> \<not> (sint m < 0 \<or> int NDEV \<le> sint m)"

definition fileread :: "nat \<Rightarrow> u64 \<Rightarrow> int \<Rightarrow> 'a files_scheme \<Rightarrow> (int outcome \<times> 'a files_scheme) option" where
  "fileread f addr n s =
     (let x = ftable s f
      in if \<not> readable x then Some (Done (-1), s)
         else case ftype x of
           FD_PIPE \<Rightarrow> piperead (fpipe x) addr n s
         | FD_DEVICE \<Rightarrow>
             if \<not> major_ok (fmajor x) then Some (Done (-1), s)
             else (case dread (dev_sw s (unat (fmajor x))) of
                     None \<Rightarrow> Some (Done (-1), s)
                   | Some Consoleread \<Rightarrow> do { (out, _, s) \<leftarrow> consoleread (User addr) n s; Some (out, s) })
         | FD_INODE \<Rightarrow> do {
             s \<leftarrow> ilock (fip x) s;
             (r, s) \<leftarrow> readi (fip x) (User addr) (foff (ftable s f)) (of_int n) s;
             let s = (if 0 < r then upd_file f (\<lambda>x. x\<lparr>foff := foff x + of_int r\<rparr>) s else s);
             s \<leftarrow> iunlock (fip x) s;
             Some (Done r, s)
           }
         | FD_NONE \<Rightarrow> None)"

text \<open>The most that one transaction of \<open>filewrite\<close> writes.\<close>

definition filewrite_max :: int where
  "filewrite_max = int ((MAXOPBLOCKS - 1 - 1 - 2) div 2 * BSIZE)"

text \<open>The loop of \<open>filewrite\<close>: the value of \<open>i\<close> at its end.\<close>

function filewrite_loop :: "nat \<Rightarrow> u64 \<Rightarrow> int \<Rightarrow> int \<Rightarrow> 'a files_scheme \<Rightarrow> (int \<times> 'a files_scheme) option" where
  "filewrite_loop f addr n i s =
     (if i < n
      then let n1 = min (n - i) filewrite_max
        in do {
          (_, s) \<leftarrow> at_once (begin_op s);
          s \<leftarrow> ilock (fip (ftable s f)) s;
          (r, s) \<leftarrow> writei (fip (ftable s f)) (User (addr + of_int i)) (foff (ftable s f)) (of_int n1) s;
          let s = (if 0 < r then upd_file f (\<lambda>x. x\<lparr>foff := foff x + of_int r\<rparr>) s else s);
          s \<leftarrow> iunlock (fip (ftable s f)) s;
          s \<leftarrow> end_op s;
          if r \<noteq> n1 then Some (i, s) else filewrite_loop f addr n (i + r) s
        }
      else Some (i, s))"
  by pat_completeness auto
termination
  by (relation "measure (\<lambda>(_, _, n, i, _). nat (n - i))") (auto simp: filewrite_max_def BSIZE_def)

declare filewrite_loop.simps [simp del]

definition filewrite :: "nat \<Rightarrow> u64 \<Rightarrow> int \<Rightarrow> 'a files_scheme \<Rightarrow> (int outcome \<times> 'a files_scheme) option" where
  "filewrite f addr n s =
     (let x = ftable s f
      in if \<not> writable x then Some (Done (-1), s)
         else case ftype x of
           FD_PIPE \<Rightarrow> do { (out, _, s) \<leftarrow> pipewrite (fpipe x) addr n s; Some (out, s) }
         | FD_DEVICE \<Rightarrow>
             if \<not> major_ok (fmajor x) then Some (Done (-1), s)
             else (case dwrite (dev_sw s (unat (fmajor x))) of
                     None \<Rightarrow> Some (Done (-1), s)
                   | Some Consolewrite \<Rightarrow> do { (out, _, _, s) \<leftarrow> consolewrite (User addr) n s; Some (out, s) })
         | FD_INODE \<Rightarrow> do {
             (i, s) \<leftarrow> filewrite_loop f addr n 0 s;
             Some (Done (if i = n then n else -1), s)
           }
         | FD_NONE \<Rightarrow> None)"

text \<open>The part of \<open>pipealloc\<close> under the label \<open>bad\<close>.\<close>

definition pipealloc_bad :: "nat option \<Rightarrow> nat option \<Rightarrow> 'a files_scheme \<Rightarrow> 'a files_scheme option" where
  "pipealloc_bad f0 f1 s =
     do {
       s \<leftarrow> (case f0 of None \<Rightarrow> Some s | Some f \<Rightarrow> fileclose f s);
       (case f1 of None \<Rightarrow> Some s | Some f \<Rightarrow> fileclose f s)
     }"

definition pipealloc :: "'a files_scheme \<Rightarrow> ((nat \<times> nat) option \<times> 'a files_scheme) option" where
  "pipealloc s =
     (case filealloc s of
        (None, s) \<Rightarrow> Some (None, s)
      | (Some f0, s) \<Rightarrow>
         (case filealloc s of
            (None, s) \<Rightarrow> do { s \<leftarrow> pipealloc_bad (Some f0) None s; Some (None, s) }
          | (Some f1, s) \<Rightarrow>
              let (pi, s) = kalloc s
              in if pi = 0 then do { s \<leftarrow> pipealloc_bad (Some f0) (Some f1) s; Some (None, s) }
                 else let s = upd_pipe pi (\<lambda>q. q\<lparr>readopen := 1, writeopen := 1, nwrite := 0, nread := 0\<rparr>) s;
                          s = upd_file f0 (\<lambda>x. x\<lparr>ftype := FD_PIPE, readable := True, writable := False, fpipe := pi\<rparr>) s;
                          s = upd_file f1 (\<lambda>x. x\<lparr>ftype := FD_PIPE, readable := False, writable := True, fpipe := pi\<rparr>) s
                   in Some (Some (f0, f1), s)))"

end
