(* ===== verification/Args.thy ===== *)
theory Args
  imports File
begin

text \<open>
  The arguments of system calls, the first part of \<^verbatim>\<open>kernel/syscall.c\<close>: registers of the trap frame
  of the current process, and words and strings of its memory.
\<close>

definition fetchaddr :: "u64 \<Rightarrow> 'a ptab_scheme \<Rightarrow> (int \<times> u64) option" where
  "fetchaddr addr s =
     do {
       p \<leftarrow> myproc s;
       if sz (procs s p) \<le> addr \<or> sz (procs s p) < addr + 8 then Some (-1, 0)
       else do {
         (r, d) \<leftarrow> copyin (pagetable (procs s p)) (\<lambda>_. 0) addr 8 s;
         Some (if r \<noteq> 0 then -1 else 0, le64 d)
       }
     }"

definition fetchstr :: "u64 \<Rightarrow> bytes \<Rightarrow> nat \<Rightarrow> 'a ptab_scheme \<Rightarrow> (int \<times> bytes) option" where
  "fetchstr addr buf mx s =
     do {
       p \<leftarrow> myproc s;
       (r, d) \<leftarrow> copyinstr (pagetable (procs s p)) buf addr (of_nat mx) s;
       if r < 0 then Some (-1, d) else do { n \<leftarrow> strlen d; Some (int n, d) }
     }"

definition argraw :: "nat \<Rightarrow> 'a ptab_scheme \<Rightarrow> u64 option" where
  "argraw n s =
     do {
       p \<leftarrow> myproc s;
       if n \<le> 5 then Some (load64 (mem s) (trapframe (procs s p) + tf_a n)) else None
     }"

definition argint :: "nat \<Rightarrow> 'a ptab_scheme \<Rightarrow> int option" where
  "argint n s = do { a \<leftarrow> argraw n s; Some (sint (ucast a :: u32)) }"

definition argaddr :: "nat \<Rightarrow> 'a ptab_scheme \<Rightarrow> u64 option" where
  "argaddr n s = argraw n s"

definition argstr :: "nat \<Rightarrow> bytes \<Rightarrow> nat \<Rightarrow> 'a ptab_scheme \<Rightarrow> (int \<times> bytes) option" where
  "argstr n buf mx s = do { addr \<leftarrow> argaddr n s; fetchstr addr buf mx s }"

end
