(* ===== verification/Exec.thy ===== *)
theory Exec
  imports Args
begin

text \<open>
  Running a program, \<^verbatim>\<open>kernel/exec.c\<close> and \<^verbatim>\<open>kernel/elf.h\<close>. The ELF header and the program headers
  are read into an object on the kernel stack and taken from there. \<open>argv\<close> is the list of the
  addresses of the argument strings in kernel memory.
\<close>

definition ELF_MAGIC :: u32 where "ELF_MAGIC = 0x464C457F"
definition ELF_PROG_LOAD :: u32 where "ELF_PROG_LOAD = 1"

record elfhdr =
  e_magic :: u32
  e_entry :: u64
  e_phoff :: u64
  e_phnum :: u16

record proghdr =
  p_type :: u32
  p_flags :: u32
  p_off :: u64
  p_vaddr :: u64
  p_filesz :: u64
  p_memsz :: u64

definition get64 :: "bytes \<Rightarrow> nat \<Rightarrow> u64" where
  "get64 d pos = le64 (\<lambda>k. d (pos + k))"

definition elfhdr_size :: u32 where "elfhdr_size = 64"
definition proghdr_size :: u32 where "proghdr_size = 56"

definition get_elfhdr :: "bytes \<Rightarrow> elfhdr" where
  "get_elfhdr d = \<lparr>e_magic = get32 d 0, e_entry = get64 d 24, e_phoff = get64 d 32, e_phnum = get16 d 56\<rparr>"

definition get_proghdr :: "bytes \<Rightarrow> proghdr" where
  "get_proghdr d = \<lparr>p_type = get32 d 0, p_flags = get32 d 4, p_off = get64 d 8, p_vaddr = get64 d 16,
     p_filesz = get64 d 32, p_memsz = get64 d 40\<rparr>"

definition flags2perm :: "u32 \<Rightarrow> u64" where
  "flags2perm flags =
     (let perm = (if flags AND 1 \<noteq> 0 then PTE_X else 0)
      in if flags AND 2 \<noteq> 0 then perm OR PTE_W else perm)"

partial_function (option) loadseg_from ::
    "u64 \<Rightarrow> u64 \<Rightarrow> nat \<Rightarrow> u32 \<Rightarrow> u32 \<Rightarrow> u32 \<Rightarrow> 'a fsys_scheme \<Rightarrow> (int \<times> 'a fsys_scheme) option" where
  "loadseg_from pt va ip offset size' i s =
     (if i < size'
      then do {
        pa \<leftarrow> walkaddr pt (va + ucast i) s;
        if pa = 0 then None
        else let n = (if size' - i < ucast PGSIZE then size' - i else ucast PGSIZE)
          in do {
            (r, s) \<leftarrow> readi ip (Kmem pa) (offset + i) n s;
            if (of_int r :: u32) \<noteq> n then Some (-1, s)
            else loadseg_from pt va ip offset size' (i + ucast PGSIZE) s
          }
      }
      else Some (0, s))"

definition loadseg :: "u64 \<Rightarrow> u64 \<Rightarrow> nat \<Rightarrow> u32 \<Rightarrow> u32 \<Rightarrow> 'a fsys_scheme \<Rightarrow> (int \<times> 'a fsys_scheme) option" where
  "loadseg pt va ip offset size' s = loadseg_from pt va ip offset size' 0 s"

text \<open>
  The loop over the program headers, for the numbers left and the offset of the next: whether it
  reached its end and the size of the memory so far.
\<close>

fun exec_segments ::
    "nat list \<Rightarrow> u32 \<Rightarrow> nat \<Rightarrow> u64 \<Rightarrow> u64 \<Rightarrow> 'a fsys_scheme \<Rightarrow> (bool \<times> u64 \<times> 'a fsys_scheme) option" where
  "exec_segments [] off ip pt usz s = Some (True, usz, s)"
| "exec_segments (_ # is) off ip pt usz s =
     do {
       (r, s) \<leftarrow> readi ip (Kobj 0) off proghdr_size s;
       let ph = get_proghdr (kobj s);
       if r \<noteq> uint proghdr_size then Some (False, usz, s)
       else if p_type ph \<noteq> ELF_PROG_LOAD then exec_segments is (off + proghdr_size) ip pt usz s
       else if p_memsz ph < p_filesz ph then Some (False, usz, s)
       else if p_vaddr ph + p_memsz ph < p_vaddr ph then Some (False, usz, s)
       else if p_vaddr ph mod PGSIZE \<noteq> 0 then Some (False, usz, s)
       else do {
         (sz1, s) \<leftarrow> uvmalloc pt usz (p_vaddr ph + p_memsz ph) (flags2perm (p_flags ph)) s;
         if sz1 = 0 then Some (False, usz, s)
         else do {
           (r, s) \<leftarrow> loadseg pt (p_vaddr ph) ip (ucast (p_off ph)) (ucast (p_filesz ph)) s;
           if r < 0 then Some (False, sz1, s)
           else exec_segments is (off + proghdr_size) ip pt sz1 s
         }
       }
     }"

text \<open>A string in kernel memory as an array.\<close>

abbreviation mem_string :: "'a machine_scheme \<Rightarrow> u64 \<Rightarrow> bytes" where
  "mem_string s a \<equiv> \<lambda>k. mem s (a + of_nat k)"

text \<open>The loop that pushes the argument strings: the stack pointer and the addresses pushed.\<close>

fun exec_push ::
    "u64 list \<Rightarrow> nat \<Rightarrow> u64 \<Rightarrow> u64 \<Rightarrow> u64 \<Rightarrow> u64 list \<Rightarrow> 'a kmem_scheme \<Rightarrow> ((u64 \<times> u64 list) option \<times> 'a kmem_scheme) option" where
  "exec_push [] argc pt sp stackbase ustack s = Some (Some (sp, ustack), s)"
| "exec_push (a # as) argc pt sp stackbase ustack s =
     (if MAXARG \<le> argc then Some (None, s)
      else do {
        n \<leftarrow> strlen (mem_string s a);
        let sp = sp - (of_nat n + 1);
        let sp = sp - sp mod 16;
        if sp < stackbase then Some (None, s)
        else do {
          (r, s) \<leftarrow> copyout pt sp (mem_string s a) (of_nat n + 1) s;
          if r < 0 then Some (None, s)
          else exec_push as (argc + 1) pt sp stackbase (ustack @ [sp]) s
        }
      })"

text \<open>The position after the last slash of a path.\<close>

partial_function (option) last_elem :: "bytes \<Rightarrow> nat \<Rightarrow> nat \<Rightarrow> nat option" where
  "last_elem pth i lst =
     (if pth i = 0 then Some lst else last_elem pth (i + 1) (if pth i = slash then i + 1 else lst))"

text \<open>The label \<open>bad\<close>, where \<open>ip\<close> may have been released.\<close>

definition exec_bad :: "u64 \<Rightarrow> u64 \<Rightarrow> nat option \<Rightarrow> 'a fsys_scheme \<Rightarrow> (int \<times> 'a fsys_scheme) option" where
  "exec_bad pt usz ip s =
     do {
       s \<leftarrow> (if pt \<noteq> 0 then proc_freepagetable pt usz s else Some s);
       case ip of
         None \<Rightarrow> Some (-1, s)
       | Some i \<Rightarrow> do { s \<leftarrow> iunlockput i s; s \<leftarrow> end_op s; Some (-1, s) }
     }"

text \<open>The part of \<open>exec\<close> after the program is loaded and its inode released.\<close>

definition exec_commit ::
  "bytes \<Rightarrow> u64 list \<Rightarrow> elfhdr \<Rightarrow> u64 \<Rightarrow> u64 \<Rightarrow> 'a fsys_scheme \<Rightarrow> (int \<times> 'a fsys_scheme) option" where
  "exec_commit pth argv elf pt usz s =
     do {
       p \<leftarrow> myproc s;
       let oldsz = sz (procs s p);
       let usz = PGROUNDUP usz;
       (sz1, s) \<leftarrow> uvmalloc pt usz (usz + 2 * PGSIZE) PTE_W s;
       if sz1 = 0 then exec_bad pt usz None s
       else do {
         let usz = sz1;
         s \<leftarrow> uvmclear pt (usz - 2 * PGSIZE) s;
         let stackbase = usz - PGSIZE;
         (pushed, s) \<leftarrow> exec_push argv 0 pt usz stackbase [] s;
         case pushed of
           None \<Rightarrow> exec_bad pt usz None s
         | Some (sp, ustack) \<Rightarrow>
             let argc = length argv;
                 ustack = ustack @ [0];
                 sp = sp - (of_nat argc + 1) * 8;
                 sp = sp - sp mod 16
             in if sp < stackbase then exec_bad pt usz None s
                else do {
                  (r, s) \<leftarrow> copyout pt sp (\<lambda>k. byte_of (k mod 8) (ustack ! (k div 8))) ((of_nat argc + 1) * 8) s;
                  if r < 0 then exec_bad pt usz None s
                  else do {
                    let s = s\<lparr>mem := store64 (mem s) (trapframe (procs s p) + tf_a 1) sp\<rparr>;
                    lst \<leftarrow> last_elem pth 0 0;
                    let s = upd_proc p (\<lambda>q. q\<lparr>name := safestrcpy (name q) (\<lambda>k. pth (lst + k)) 16\<rparr>) s;
                    let oldpagetable = pagetable (procs s p);
                    let s = upd_proc p (\<lambda>q. q\<lparr>pagetable := pt, sz := usz\<rparr>) s;
                    let s = s\<lparr>mem := store64 (mem s) (trapframe (procs s p) + tf_epc) (e_entry elf)\<rparr>;
                    let s = s\<lparr>mem := store64 (mem s) (trapframe (procs s p) + tf_sp) sp\<rparr>;
                    s \<leftarrow> proc_freepagetable oldpagetable oldsz s;
                    Some (int argc, s)
                  }
                }
       }
     }"

definition exec :: "bytes \<Rightarrow> u64 list \<Rightarrow> 'a fsys_scheme \<Rightarrow> (int \<times> 'a fsys_scheme) option" where
  "exec pth argv s =
     do {
       p \<leftarrow> myproc s;
       (_, s) \<leftarrow> at_once (begin_op s);
       (ip, s) \<leftarrow> namei pth s;
       case ip of
         None \<Rightarrow> do { s \<leftarrow> end_op s; Some (-1, s) }
       | Some ip \<Rightarrow> do {
           s \<leftarrow> ilock ip s;
           (r, s) \<leftarrow> readi ip (Kobj 0) 0 elfhdr_size s;
           let elf = get_elfhdr (kobj s);
           if r \<noteq> uint elfhdr_size \<or> e_magic elf \<noteq> ELF_MAGIC then exec_bad 0 0 (Some ip) s
           else do {
             (pt, s) \<leftarrow> proc_pagetable p s;
             if pt = 0 then exec_bad 0 0 (Some ip) s
             else do {
               (ok, usz, s) \<leftarrow> exec_segments [0..<unat (e_phnum elf)] (ucast (e_phoff elf)) ip pt 0 s;
               if \<not> ok then exec_bad pt usz (Some ip) s
               else do {
                 s \<leftarrow> iunlockput ip s;
                 s \<leftarrow> end_op s;
                 exec_commit pth argv elf pt usz s
               }
             }
           }
         }
     }"

end
