(* ===== verification/Sysfile.thy ===== *)
theory Sysfile
  imports Exec
begin

text \<open>
  The system calls on files, \<^verbatim>\<open>kernel/sysfile.c\<close>. A handler returns the value of the call, or stops
  at the sleep of a read or write on a pipe or the console. Transactions are opened without
  waiting for the log.
\<close>

definition O_RDONLY :: u32 where "O_RDONLY = 0"
definition O_WRONLY :: u32 where "O_WRONLY = 1"
definition O_RDWR :: u32 where "O_RDWR = 2"
definition O_CREATE :: u32 where "O_CREATE = 0x200"
definition O_TRUNC :: u32 where "O_TRUNC = 0x400"

section \<open>Descriptors\<close>

definition argfd :: "nat \<Rightarrow> 'a files_scheme \<Rightarrow> (nat \<times> nat) option option" where
  "argfd n s =
     do {
       fd \<leftarrow> argint n s;
       p \<leftarrow> myproc s;
       if fd < 0 \<or> int NOFILE \<le> fd then Some None
       else Some (map_option (Pair (nat fd)) (ofile (procs s p) (nat fd)))
     }"

definition fdalloc :: "nat \<Rightarrow> 'a files_scheme \<Rightarrow> (int \<times> 'a files_scheme) option" where
  "fdalloc f s =
     do {
       p \<leftarrow> myproc s;
       case find (\<lambda>fd. ofile (procs s p) fd = None) [0..<NOFILE] of
         Some fd \<Rightarrow> Some (int fd, upd_proc p (\<lambda>q. q\<lparr>ofile := (ofile q)(fd := Some f)\<rparr>) s)
       | None \<Rightarrow> Some (-1, s)
     }"

text \<open>\<open>p->ofile[fd] = 0\<close> for the current process.\<close>

definition clear_fd :: "nat \<Rightarrow> 'a files_scheme \<Rightarrow> 'a files_scheme option" where
  "clear_fd fd s = do { p \<leftarrow> myproc s; Some (upd_proc p (\<lambda>q. q\<lparr>ofile := (ofile q)(fd := None)\<rparr>) s) }"

definition sys_dup :: "'a files_scheme \<Rightarrow> (int \<times> 'a files_scheme) option" where
  "sys_dup s =
     do {
       a \<leftarrow> argfd 0 s;
       case a of
         None \<Rightarrow> Some (-1, s)
       | Some (_, f) \<Rightarrow> do {
           (fd, s) \<leftarrow> fdalloc f s;
           if fd < 0 then Some (-1, s) else do { s \<leftarrow> filedup f s; Some (fd, s) }
         }
     }"

definition sys_read :: "'a files_scheme \<Rightarrow> (int outcome \<times> 'a files_scheme) option" where
  "sys_read s =
     do {
       p \<leftarrow> argaddr 1 s;
       n \<leftarrow> argint 2 s;
       a \<leftarrow> argfd 0 s;
       case a of None \<Rightarrow> Some (Done (-1), s) | Some (_, f) \<Rightarrow> fileread f p n s
     }"

definition sys_write :: "'a files_scheme \<Rightarrow> (int outcome \<times> 'a files_scheme) option" where
  "sys_write s =
     do {
       p \<leftarrow> argaddr 1 s;
       n \<leftarrow> argint 2 s;
       a \<leftarrow> argfd 0 s;
       case a of None \<Rightarrow> Some (Done (-1), s) | Some (_, f) \<Rightarrow> filewrite f p n s
     }"

definition sys_close :: "'a files_scheme \<Rightarrow> (int \<times> 'a files_scheme) option" where
  "sys_close s =
     do {
       a \<leftarrow> argfd 0 s;
       case a of
         None \<Rightarrow> Some (-1, s)
       | Some (fd, f) \<Rightarrow> do { s \<leftarrow> clear_fd fd s; s \<leftarrow> fileclose f s; Some (0, s) }
     }"

definition sys_fstat :: "'a files_scheme \<Rightarrow> (int \<times> 'a files_scheme) option" where
  "sys_fstat s =
     do {
       st \<leftarrow> argaddr 1 s;
       a \<leftarrow> argfd 0 s;
       case a of None \<Rightarrow> Some (-1, s) | Some (_, f) \<Rightarrow> filestat f st s
     }"

section \<open>Links\<close>

text \<open>\<open>end_op(); return r;\<close>\<close>

definition end_ret :: "int \<Rightarrow> 'a files_scheme \<Rightarrow> (int \<times> 'a files_scheme) option" where
  "end_ret r s = do { s \<leftarrow> end_op s; Some (r, s) }"

definition add_nlink :: "nat \<Rightarrow> u16 \<Rightarrow> 'a fsys_scheme \<Rightarrow> 'a fsys_scheme" where
  "add_nlink ip d s = upd_inode ip (\<lambda>x. x\<lparr>nlink := nlink x + d\<rparr>) s"

definition sys_link_bad :: "nat \<Rightarrow> 'a files_scheme \<Rightarrow> (int \<times> 'a files_scheme) option" where
  "sys_link_bad ip s =
     do {
       s \<leftarrow> ilock ip s;
       s \<leftarrow> iupdate ip (add_nlink ip (-1) s);
       s \<leftarrow> iunlockput ip s;
       end_ret (-1) s
     }"

definition sys_link :: "'a files_scheme \<Rightarrow> (int \<times> 'a files_scheme) option" where
  "sys_link s =
     do {
       (n, old) \<leftarrow> argstr 0 (\<lambda>_. 0) MAXPATH s;
       if n < 0 then Some (-1, s)
       else do {
         (n, new) \<leftarrow> argstr 1 (\<lambda>_. 0) MAXPATH s;
         if n < 0 then Some (-1, s)
         else do {
           (_, s) \<leftarrow> at_once (begin_op s);
           (ip, s) \<leftarrow> namei old s;
           case ip of
             None \<Rightarrow> end_ret (-1) s
           | Some ip \<Rightarrow> do {
               s \<leftarrow> ilock ip s;
               if itype (itable s ip) = T_DIR then do { s \<leftarrow> iunlockput ip s; end_ret (-1) s }
               else do {
                 s \<leftarrow> iupdate ip (add_nlink ip 1 s);
                 s \<leftarrow> iunlock ip s;
                 (dp, nm, s) \<leftarrow> nameiparent new (\<lambda>_. 0) s;
                 case dp of
                   None \<Rightarrow> sys_link_bad ip s
                 | Some dp \<Rightarrow> do {
                     s \<leftarrow> ilock dp s;
                     if idev (itable s dp) \<noteq> idev (itable s ip) then do { s \<leftarrow> iunlockput dp s; sys_link_bad ip s }
                     else do {
                       (r, s) \<leftarrow> dirlink dp nm (inum (itable s ip)) s;
                       s \<leftarrow> iunlockput dp s;
                       if r < 0 then sys_link_bad ip s
                       else do { s \<leftarrow> iput ip s; end_ret 0 s }
                     }
                   }
               }
             }
         }
       }
     }"

partial_function (option) isdirempty_from :: "nat \<Rightarrow> u32 \<Rightarrow> 'a fsys_scheme \<Rightarrow> (bool \<times> 'a fsys_scheme) option" where
  "isdirempty_from dp off s =
     (if off < isize (itable s dp)
      then do {
        (r, s) \<leftarrow> readi dp (Kobj 0) off dirent_size s;
        if r \<noteq> uint dirent_size then None
        else if de_inum (kobj s) \<noteq> 0 then Some (False, s)
        else isdirempty_from dp (off + dirent_size) s
      }
      else Some (True, s))"

definition isdirempty :: "nat \<Rightarrow> 'a fsys_scheme \<Rightarrow> (bool \<times> 'a fsys_scheme) option" where
  "isdirempty dp s = isdirempty_from dp (2 * dirent_size) s"

definition sys_unlink_bad :: "nat \<Rightarrow> 'a files_scheme \<Rightarrow> (int \<times> 'a files_scheme) option" where
  "sys_unlink_bad dp s = do { s \<leftarrow> iunlockput dp s; end_ret (-1) s }"

text \<open>The removal of the entry at \<open>off\<close> of the locked directory \<open>dp\<close> that names the locked inode \<open>ip\<close>.\<close>

definition sys_unlink_entry :: "nat \<Rightarrow> nat \<Rightarrow> u32 \<Rightarrow> 'a files_scheme \<Rightarrow> (int \<times> 'a files_scheme) option" where
  "sys_unlink_entry dp ip off s =
     do {
       let s = s\<lparr>kobj := zero_bytes 0 (unat dirent_size) (kobj s)\<rparr>;
       (r, s) \<leftarrow> writei dp (Kobj 0) off dirent_size s;
       if r \<noteq> uint dirent_size then None
       else do {
         s \<leftarrow> (if itype (itable s ip) = T_DIR then iupdate dp (add_nlink dp (-1) s) else Some s);
         s \<leftarrow> iunlockput dp s;
         s \<leftarrow> iupdate ip (add_nlink ip (-1) s);
         s \<leftarrow> iunlockput ip s;
         end_ret 0 s
       }
     }"

definition sys_unlink :: "'a files_scheme \<Rightarrow> (int \<times> 'a files_scheme) option" where
  "sys_unlink s =
     do {
       (n, pth) \<leftarrow> argstr 0 (\<lambda>_. 0) MAXPATH s;
       if n < 0 then Some (-1, s)
       else do {
         (_, s) \<leftarrow> at_once (begin_op s);
         (dp, nm, s) \<leftarrow> nameiparent pth (\<lambda>_. 0) s;
         case dp of
           None \<Rightarrow> end_ret (-1) s
         | Some dp \<Rightarrow> do {
             s \<leftarrow> ilock dp s;
             if namecmp nm (cstring ''.'') = 0 \<or> namecmp nm (cstring ''..'') = 0 then sys_unlink_bad dp s
             else do {
               (found, s) \<leftarrow> dirlookup dp nm s;
               case found of
                 None \<Rightarrow> sys_unlink_bad dp s
               | Some (ip, off) \<Rightarrow> do {
                   s \<leftarrow> ilock ip s;
                   if sint (nlink (itable s ip)) < 1 then None
                   else do {
                     (ok, s) \<leftarrow> (if itype (itable s ip) = T_DIR then isdirempty ip s else Some (True, s));
                     if \<not> ok then do { s \<leftarrow> iunlockput ip s; sys_unlink_bad dp s }
                     else sys_unlink_entry dp ip off s
                   }
                 }
             }
           }
       }
     }"

section \<open>Creating and opening\<close>

definition create_fail :: "nat \<Rightarrow> nat \<Rightarrow> 'a files_scheme \<Rightarrow> (nat option \<times> 'a files_scheme) option" where
  "create_fail ip dp s =
     do {
       s \<leftarrow> iupdate ip (upd_inode ip (\<lambda>x. x\<lparr>nlink := 0\<rparr>) s);
       s \<leftarrow> iunlockput ip s;
       s \<leftarrow> iunlockput dp s;
       Some (None, s)
     }"

text \<open>The entries \<open>.\<close> and \<open>..\<close> of a new directory: whether both were written.\<close>

definition create_dots :: "nat \<Rightarrow> nat \<Rightarrow> 'a files_scheme \<Rightarrow> (bool \<times> 'a files_scheme) option" where
  "create_dots ip dp s =
     do {
       (r, s) \<leftarrow> dirlink ip (cstring ''.'') (inum (itable s ip)) s;
       if r < 0 then Some (False, s)
       else do {
         (r, s) \<leftarrow> dirlink ip (cstring ''..'') (inum (itable s dp)) s;
         Some (\<not> r < 0, s)
       }
     }"

definition create :: "bytes \<Rightarrow> u16 \<Rightarrow> u16 \<Rightarrow> u16 \<Rightarrow> 'a files_scheme \<Rightarrow> (nat option \<times> 'a files_scheme) option" where
  "create pth ty maj mnr s =
     do {
       (dp, nm, s) \<leftarrow> nameiparent pth (\<lambda>_. 0) s;
       case dp of
         None \<Rightarrow> Some (None, s)
       | Some dp \<Rightarrow> do {
           s \<leftarrow> ilock dp s;
           (found, s) \<leftarrow> dirlookup dp nm s;
           case found of
             Some (ip, _) \<Rightarrow> do {
               s \<leftarrow> iunlockput dp s;
               s \<leftarrow> ilock ip s;
               if ty = T_FILE \<and> (itype (itable s ip) = T_FILE \<or> itype (itable s ip) = T_DEVICE) then Some (Some ip, s)
               else do { s \<leftarrow> iunlockput ip s; Some (None, s) }
             }
           | None \<Rightarrow> do {
               (new, s) \<leftarrow> ialloc (idev (itable s dp)) ty s;
               case new of
                 None \<Rightarrow> do { s \<leftarrow> iunlockput dp s; Some (None, s) }
               | Some ip \<Rightarrow> do {
                   s \<leftarrow> ilock ip s;
                   s \<leftarrow> iupdate ip (upd_inode ip (\<lambda>x. x\<lparr>imajor := maj, iminor := mnr, nlink := 1\<rparr>) s);
                   (ok, s) \<leftarrow> (if ty = T_DIR then create_dots ip dp s else Some (True, s));
                   if \<not> ok then create_fail ip dp s
                   else do {
                     (r, s) \<leftarrow> dirlink dp nm (inum (itable s ip)) s;
                     if r < 0 then create_fail ip dp s
                     else do {
                       s \<leftarrow> (if ty = T_DIR then iupdate dp (add_nlink dp 1 s) else Some s);
                       s \<leftarrow> iunlockput dp s;
                       Some (Some ip, s)
                     }
                   }
                 }
             }
         }
     }"

text \<open>The inode that \<open>sys_open\<close> opens, locked.\<close>

definition open_inode :: "bytes \<Rightarrow> u32 \<Rightarrow> 'a files_scheme \<Rightarrow> (nat option \<times> 'a files_scheme) option" where
  "open_inode pth omode s =
     (if omode AND O_CREATE \<noteq> 0 then create pth T_FILE 0 0 s
      else do {
        (ip, s) \<leftarrow> namei pth s;
        case ip of
          None \<Rightarrow> Some (None, s)
        | Some ip \<Rightarrow> do {
            s \<leftarrow> ilock ip s;
            if itype (itable s ip) = T_DIR \<and> omode \<noteq> O_RDONLY then do { s \<leftarrow> iunlockput ip s; Some (None, s) }
            else Some (Some ip, s)
          }
      })"

text \<open>\<open>f = filealloc()\<close> and \<open>fd = fdalloc(f)\<close>, with the file closed again when there is no descriptor.\<close>

definition open_fd :: "'a files_scheme \<Rightarrow> ((nat \<times> int) option \<times> 'a files_scheme) option" where
  "open_fd s =
     (case filealloc s of
        (None, s) \<Rightarrow> Some (None, s)
      | (Some f, s) \<Rightarrow> do {
          (fd, s) \<leftarrow> fdalloc f s;
          if fd < 0 then do { s \<leftarrow> fileclose f s; Some (None, s) } else Some (Some (f, fd), s)
        })"

definition open_file :: "nat \<Rightarrow> u32 \<Rightarrow> nat \<Rightarrow> 'a files_scheme \<Rightarrow> 'a files_scheme" where
  "open_file ip omode f s =
     (let s = (if itype (itable s ip) = T_DEVICE
               then upd_file f (\<lambda>x. x\<lparr>ftype := FD_DEVICE, fmajor := imajor (itable s ip)\<rparr>) s
               else upd_file f (\<lambda>x. x\<lparr>ftype := FD_INODE, foff := 0\<rparr>) s)
      in upd_file f (\<lambda>x. x\<lparr>fip := ip, readable := (omode AND O_WRONLY = 0),
           writable := (omode AND O_WRONLY \<noteq> 0 \<or> omode AND O_RDWR \<noteq> 0)\<rparr>) s)"

definition sys_open :: "'a files_scheme \<Rightarrow> (int \<times> 'a files_scheme) option" where
  "sys_open s =
     do {
       a \<leftarrow> argint 1 s;
       let omode = (of_int a :: u32);
       (n, pth) \<leftarrow> argstr 0 (\<lambda>_. 0) MAXPATH s;
       if n < 0 then Some (-1, s)
       else do {
         (_, s) \<leftarrow> at_once (begin_op s);
         (ip, s) \<leftarrow> open_inode pth omode s;
         case ip of
           None \<Rightarrow> end_ret (-1) s
         | Some ip \<Rightarrow>
             if itype (itable s ip) = T_DEVICE \<and> \<not> major_ok (imajor (itable s ip))
             then do { s \<leftarrow> iunlockput ip s; end_ret (-1) s }
             else do {
               (ffd, s) \<leftarrow> open_fd s;
               case ffd of
                 None \<Rightarrow> do { s \<leftarrow> iunlockput ip s; end_ret (-1) s }
               | Some (f, fd) \<Rightarrow> do {
                   let s = open_file ip omode f s;
                   s \<leftarrow> (if omode AND O_TRUNC \<noteq> 0 \<and> itype (itable s ip) = T_FILE then itrunc ip s else Some s);
                   s \<leftarrow> iunlock ip s;
                   end_ret fd s
                 }
             }
       }
     }"

definition sys_mkdir :: "'a files_scheme \<Rightarrow> (int \<times> 'a files_scheme) option" where
  "sys_mkdir s =
     do {
       (_, s) \<leftarrow> at_once (begin_op s);
       (n, pth) \<leftarrow> argstr 0 (\<lambda>_. 0) MAXPATH s;
       if n < 0 then end_ret (-1) s
       else do {
         (ip, s) \<leftarrow> create pth T_DIR 0 0 s;
         case ip of
           None \<Rightarrow> end_ret (-1) s
         | Some ip \<Rightarrow> do { s \<leftarrow> iunlockput ip s; end_ret 0 s }
       }
     }"

definition sys_mknod :: "'a files_scheme \<Rightarrow> (int \<times> 'a files_scheme) option" where
  "sys_mknod s =
     do {
       (_, s) \<leftarrow> at_once (begin_op s);
       maj \<leftarrow> argint 1 s;
       mnr \<leftarrow> argint 2 s;
       (n, pth) \<leftarrow> argstr 0 (\<lambda>_. 0) MAXPATH s;
       if n < 0 then end_ret (-1) s
       else do {
         (ip, s) \<leftarrow> create pth T_DEVICE (of_int maj) (of_int mnr) s;
         case ip of
           None \<Rightarrow> end_ret (-1) s
         | Some ip \<Rightarrow> do { s \<leftarrow> iunlockput ip s; end_ret 0 s }
       }
     }"

definition sys_chdir :: "'a files_scheme \<Rightarrow> (int \<times> 'a files_scheme) option" where
  "sys_chdir s =
     do {
       p \<leftarrow> myproc s;
       (_, s) \<leftarrow> at_once (begin_op s);
       (n, pth) \<leftarrow> argstr 0 (\<lambda>_. 0) MAXPATH s;
       if n < 0 then end_ret (-1) s
       else do {
         (ip, s) \<leftarrow> namei pth s;
         case ip of
           None \<Rightarrow> end_ret (-1) s
         | Some ip \<Rightarrow> do {
             s \<leftarrow> ilock ip s;
             if itype (itable s ip) \<noteq> T_DIR then do { s \<leftarrow> iunlockput ip s; end_ret (-1) s }
             else do {
               s \<leftarrow> iunlock ip s;
               old \<leftarrow> cwd (procs s p);
               s \<leftarrow> iput old s;
               s \<leftarrow> end_op s;
               Some (0, upd_proc p (\<lambda>q. q\<lparr>cwd := Some ip\<rparr>) s)
             }
           }
       }
     }"

section \<open>Running programs and pipes\<close>

text \<open>
  The loop of \<open>sys_exec\<close> that fetches the arguments: whether it reached the null pointer, and the
  pages allocated so far.
\<close>

function exec_args ::
    "u64 \<Rightarrow> nat \<Rightarrow> u64 list \<Rightarrow> 'a files_scheme \<Rightarrow> (bool \<times> u64 list \<times> 'a files_scheme) option" where
  "exec_args uargv i argv s =
     (if MAXARG \<le> i then Some (False, argv, s)
      else do {
        (r, uarg) \<leftarrow> fetchaddr (uargv + 8 * of_nat i) s;
        if r < 0 then Some (False, argv, s)
        else if uarg = 0 then Some (True, argv, s)
        else let (pg, s) = kalloc s
          in if pg = 0 then Some (False, argv, s)
             else do {
               (r, d) \<leftarrow> fetchstr uarg (mem_string s pg) (unat PGSIZE) s;
               let s = s\<lparr>mem := mem_write (mem s) pg d (unat PGSIZE)\<rparr>;
               if r < 0 then Some (False, argv @ [pg], s)
               else exec_args uargv (i + 1) (argv @ [pg]) s
             }
      })"
  by pat_completeness auto
termination
  by (relation "measure (\<lambda>(_, i, _, _). MAXARG - i)") auto

declare exec_args.simps [simp del]

fun kfree_all :: "u64 list \<Rightarrow> 'a kmem_scheme \<Rightarrow> 'a kmem_scheme option" where
  "kfree_all [] s = Some s"
| "kfree_all (pg # pgs) s = do { s \<leftarrow> kfree pg s; kfree_all pgs s }"

definition sys_exec :: "'a files_scheme \<Rightarrow> (int \<times> 'a files_scheme) option" where
  "sys_exec s =
     do {
       uargv \<leftarrow> argaddr 1 s;
       (n, pth) \<leftarrow> argstr 0 (\<lambda>_. 0) MAXPATH s;
       if n < 0 then Some (-1, s)
       else do {
         (ok, argv, s) \<leftarrow> exec_args uargv 0 [] s;
         (r, s) \<leftarrow> (if ok then exec pth argv s else Some (-1, s));
         s \<leftarrow> kfree_all argv s;
         Some (r, s)
       }
     }"

text \<open>\<open>p->ofile[fd0] = 0; p->ofile[fd1] = 0; fileclose(rf); fileclose(wf); return -1\<close>\<close>

definition sys_pipe_undo :: "int \<Rightarrow> int \<Rightarrow> nat \<Rightarrow> nat \<Rightarrow> 'a files_scheme \<Rightarrow> (int \<times> 'a files_scheme) option" where
  "sys_pipe_undo fd0 fd1 rf wp s =
     do {
       s \<leftarrow> (if 0 \<le> fd0 then clear_fd (nat fd0) s else Some s);
       s \<leftarrow> (if 0 \<le> fd1 then clear_fd (nat fd1) s else Some s);
       s \<leftarrow> fileclose rf s;
       s \<leftarrow> fileclose wp s;
       Some (-1, s)
     }"

definition sys_pipe :: "'a files_scheme \<Rightarrow> (int \<times> 'a files_scheme) option" where
  "sys_pipe s =
     do {
       p \<leftarrow> myproc s;
       fdarray \<leftarrow> argaddr 0 s;
       (fs, s) \<leftarrow> pipealloc s;
       case fs of
         None \<Rightarrow> Some (-1, s)
       | Some (rf, wp) \<Rightarrow> do {
           (fd0, s) \<leftarrow> fdalloc rf s;
           if fd0 < 0 then sys_pipe_undo (-1) (-1) rf wp s
           else do {
             (fd1, s) \<leftarrow> fdalloc wp s;
             if fd1 < 0 then sys_pipe_undo fd0 (-1) rf wp s
             else do {
               (r, s) \<leftarrow> copyout (pagetable (procs s p)) fdarray (\<lambda>k. byte_of k (of_int fd0 :: u32)) 4 s;
               if r < 0 then sys_pipe_undo fd0 fd1 rf wp s
               else do {
                 (r, s) \<leftarrow> copyout (pagetable (procs s p)) (fdarray + 4) (\<lambda>k. byte_of k (of_int fd1 :: u32)) 4 s;
                 if r < 0 then sys_pipe_undo fd0 fd1 rf wp s else Some (0, s)
               }
             }
           }
         }
     }"

end
