(* ===== verification/Virtio.thy ===== *)
theory Virtio
  imports Sysfile
begin

text \<open>
  The disk driver, \<^verbatim>\<open>kernel/virtio_disk.c\<close> and \<^verbatim>\<open>kernel/virtio.h\<close>. The structures shared with the
  device are records; an address in a descriptor names the object it points to. What the device
  answers when a register is read is a function of the writes to its registers so far.
  \<open>virtio_disk_rw\<close> is split at its sleeps: \<open>rw_start\<close> takes descriptors and submits the request, or
  sleeps for want of descriptors, and \<open>rw_finish\<close> is the part from the test of \<open>b->disk\<close> on.
\<close>

section \<open>Data\<close>

definition NUM :: nat where "NUM = 8"
definition VRING_DESC_F_NEXT :: u16 where "VRING_DESC_F_NEXT = 1"
definition VRING_DESC_F_WRITE :: u16 where "VRING_DESC_F_WRITE = 2"
definition VIRTIO_MMIO_MAGIC_VALUE :: u32 where "VIRTIO_MMIO_MAGIC_VALUE = 0x0"
definition VIRTIO_MMIO_VERSION :: u32 where "VIRTIO_MMIO_VERSION = 0x4"
definition VIRTIO_MMIO_DEVICE_ID :: u32 where "VIRTIO_MMIO_DEVICE_ID = 0x8"
definition VIRTIO_MMIO_VENDOR_ID :: u32 where "VIRTIO_MMIO_VENDOR_ID = 0xc"
definition VIRTIO_MMIO_DEVICE_FEATURES :: u32 where "VIRTIO_MMIO_DEVICE_FEATURES = 0x10"
definition VIRTIO_MMIO_DRIVER_FEATURES :: u32 where "VIRTIO_MMIO_DRIVER_FEATURES = 0x20"
definition VIRTIO_MMIO_QUEUE_SEL :: u32 where "VIRTIO_MMIO_QUEUE_SEL = 0x30"
definition VIRTIO_MMIO_QUEUE_NUM_MAX :: u32 where "VIRTIO_MMIO_QUEUE_NUM_MAX = 0x34"
definition VIRTIO_MMIO_QUEUE_NUM :: u32 where "VIRTIO_MMIO_QUEUE_NUM = 0x38"
definition VIRTIO_MMIO_QUEUE_READY :: u32 where "VIRTIO_MMIO_QUEUE_READY = 0x44"
definition VIRTIO_MMIO_QUEUE_NOTIFY :: u32 where "VIRTIO_MMIO_QUEUE_NOTIFY = 0x50"
definition VIRTIO_MMIO_INTERRUPT_STATUS :: u32 where "VIRTIO_MMIO_INTERRUPT_STATUS = 0x60"
definition VIRTIO_MMIO_INTERRUPT_ACK :: u32 where "VIRTIO_MMIO_INTERRUPT_ACK = 0x64"
definition VIRTIO_MMIO_STATUS :: u32 where "VIRTIO_MMIO_STATUS = 0x70"
definition VIRTIO_MMIO_QUEUE_DESC_LOW :: u32 where "VIRTIO_MMIO_QUEUE_DESC_LOW = 0x80"
definition VIRTIO_MMIO_QUEUE_DESC_HIGH :: u32 where "VIRTIO_MMIO_QUEUE_DESC_HIGH = 0x84"
definition VIRTIO_MMIO_DRIVER_DESC_LOW :: u32 where "VIRTIO_MMIO_DRIVER_DESC_LOW = 0x90"
definition VIRTIO_MMIO_DRIVER_DESC_HIGH :: u32 where "VIRTIO_MMIO_DRIVER_DESC_HIGH = 0x94"
definition VIRTIO_MMIO_DEVICE_DESC_LOW :: u32 where "VIRTIO_MMIO_DEVICE_DESC_LOW = 0xa0"
definition VIRTIO_MMIO_DEVICE_DESC_HIGH :: u32 where "VIRTIO_MMIO_DEVICE_DESC_HIGH = 0xa4"
definition VIRTIO_CONFIG_S_ACKNOWLEDGE :: u32 where "VIRTIO_CONFIG_S_ACKNOWLEDGE = 1"
definition VIRTIO_CONFIG_S_DRIVER :: u32 where "VIRTIO_CONFIG_S_DRIVER = 2"
definition VIRTIO_CONFIG_S_DRIVER_OK :: u32 where "VIRTIO_CONFIG_S_DRIVER_OK = 4"
definition VIRTIO_CONFIG_S_FEATURES_OK :: u32 where "VIRTIO_CONFIG_S_FEATURES_OK = 8"
definition VIRTIO_BLK_F_RO :: nat where "VIRTIO_BLK_F_RO = 5"
definition VIRTIO_BLK_F_SCSI :: nat where "VIRTIO_BLK_F_SCSI = 7"
definition VIRTIO_BLK_F_CONFIG_WCE :: nat where "VIRTIO_BLK_F_CONFIG_WCE = 11"
definition VIRTIO_BLK_F_MQ :: nat where "VIRTIO_BLK_F_MQ = 12"
definition VIRTIO_F_ANY_LAYOUT :: nat where "VIRTIO_F_ANY_LAYOUT = 27"
definition VIRTIO_RING_F_INDIRECT_DESC :: nat where "VIRTIO_RING_F_INDIRECT_DESC = 28"
definition VIRTIO_RING_F_EVENT_IDX :: nat where "VIRTIO_RING_F_EVENT_IDX = 29"
definition VIRTIO_BLK_T_IN :: u32 where "VIRTIO_BLK_T_IN = 0"
definition VIRTIO_BLK_T_OUT :: u32 where "VIRTIO_BLK_T_OUT = 1"

datatype vaddr = Null | Ops nat | Data nat | Status nat

record virtq_desc =
  vd_addr :: vaddr
  vd_len :: u32
  vd_flags :: u16
  vd_next :: u16

record virtq_avail =
  av_idx :: u16
  av_ring :: "nat \<Rightarrow> u16"

record virtq_used =
  us_idx :: u16
  us_ring :: "nat \<Rightarrow> u32"

record virtio_blk_req =
  rq_type :: u32
  rq_reserved :: u32
  rq_sector :: u64

record vinfo =
  in_b :: "nat option"
  in_status :: u8

text \<open>\<open>b_disk\<close> is the field \<open>disk\<close> of the buffers.\<close>

record vdisk =
  desc :: "nat \<Rightarrow> virtq_desc"
  avail :: virtq_avail
  used :: virtq_used
  vfree :: "nat \<Rightarrow> bool"
  used_idx :: u16
  info :: "nat \<Rightarrow> vinfo"
  ops :: "nat \<Rightarrow> virtio_blk_req"
  b_disk :: "nat \<Rightarrow> bool"

record vio = files +
  vdk :: vdisk
  vq_pages :: "u64 \<times> u64 \<times> u64"
  mmio_in :: "(u32 \<times> u32) list \<Rightarrow> u32 \<Rightarrow> u32"
  mmio_out :: "(u32 \<times> u32) list"

abbreviation upd_vd :: "(vdisk \<Rightarrow> vdisk) \<Rightarrow> 'a vio_scheme \<Rightarrow> 'a vio_scheme" where
  "upd_vd f s \<equiv> s\<lparr>vdk := f (vdk s)\<rparr>"

abbreviation upd_desc :: "nat \<Rightarrow> (virtq_desc \<Rightarrow> virtq_desc) \<Rightarrow> vdisk \<Rightarrow> vdisk" where
  "upd_desc i f v \<equiv> v\<lparr>desc := (desc v)(i := f (desc v i))\<rparr>"

definition mmio_read :: "u32 \<Rightarrow> 'a vio_scheme \<Rightarrow> u32" where
  "mmio_read r s = mmio_in s (mmio_out s) r"

definition mmio_write :: "u32 \<Rightarrow> u32 \<Rightarrow> 'a vio_scheme \<Rightarrow> 'a vio_scheme" where
  "mmio_write r v s = s\<lparr>mmio_out := mmio_out s @ [(r, v)]\<rparr>"

section \<open>Initialisation\<close>

text \<open>The feature bits the driver does not accept.\<close>

definition bad_features :: u32 where
  "bad_features = fold (\<lambda>n m. m OR push_bit n 1) 
     [VIRTIO_BLK_F_RO, VIRTIO_BLK_F_SCSI, VIRTIO_BLK_F_CONFIG_WCE, VIRTIO_BLK_F_MQ,
      VIRTIO_F_ANY_LAYOUT, VIRTIO_RING_F_EVENT_IDX, VIRTIO_RING_F_INDIRECT_DESC] 0"

definition no_desc :: virtq_desc where
  "no_desc = \<lparr>vd_addr = Null, vd_len = 0, vd_flags = 0, vd_next = 0\<rparr>"

definition virtio_disk_init :: "'a vio_scheme \<Rightarrow> 'a vio_scheme option" where
  "virtio_disk_init s =
     (if mmio_read VIRTIO_MMIO_MAGIC_VALUE s \<noteq> 0x74726976 \<or> mmio_read VIRTIO_MMIO_VERSION s \<noteq> 2 \<or> mmio_read VIRTIO_MMIO_DEVICE_ID s \<noteq> 2 \<or> mmio_read VIRTIO_MMIO_VENDOR_ID s \<noteq> 0x554d4551 then None
      else let s = mmio_write VIRTIO_MMIO_STATUS 0 s;
               s = mmio_write VIRTIO_MMIO_STATUS VIRTIO_CONFIG_S_ACKNOWLEDGE s;
               s = mmio_write VIRTIO_MMIO_STATUS (VIRTIO_CONFIG_S_ACKNOWLEDGE OR VIRTIO_CONFIG_S_DRIVER) s;
               s = mmio_write VIRTIO_MMIO_DRIVER_FEATURES (mmio_read VIRTIO_MMIO_DEVICE_FEATURES s AND NOT bad_features) s;
               s = mmio_write VIRTIO_MMIO_STATUS (VIRTIO_CONFIG_S_ACKNOWLEDGE OR VIRTIO_CONFIG_S_DRIVER OR VIRTIO_CONFIG_S_FEATURES_OK) s;
               status = mmio_read VIRTIO_MMIO_STATUS s
        in if status AND VIRTIO_CONFIG_S_FEATURES_OK = 0 then None
           else let s = mmio_write VIRTIO_MMIO_QUEUE_SEL 0 s
             in if mmio_read VIRTIO_MMIO_QUEUE_READY s \<noteq> 0 then None
                else if mmio_read VIRTIO_MMIO_QUEUE_NUM_MAX s = 0 \<or> mmio_read VIRTIO_MMIO_QUEUE_NUM_MAX s < of_nat NUM then None
                else let (d, s) = kalloc s; (a, s) = kalloc s; (u, s) = kalloc s
                  in if d = 0 \<or> a = 0 \<or> u = 0 then None
                     else let s = s\<lparr>mem := memset (memset (memset (mem s) d 0 4096) a 0 4096) u 0 4096, vq_pages := (d, a, u)\<rparr>;
                              s = upd_vd (\<lambda>v. v\<lparr>desc := (\<lambda>_. no_desc), avail := \<lparr>av_idx = 0, av_ring = (\<lambda>_. 0)\<rparr>,
                                    used := \<lparr>us_idx = 0, us_ring = (\<lambda>_. 0)\<rparr>\<rparr>) s;
                              s = mmio_write VIRTIO_MMIO_QUEUE_NUM (of_nat NUM) s;
                              s = mmio_write VIRTIO_MMIO_QUEUE_DESC_LOW (ucast d) s;
                              s = mmio_write VIRTIO_MMIO_QUEUE_DESC_HIGH (ucast (drop_bit 32 d)) s;
                              s = mmio_write VIRTIO_MMIO_DRIVER_DESC_LOW (ucast a) s;
                              s = mmio_write VIRTIO_MMIO_DRIVER_DESC_HIGH (ucast (drop_bit 32 a)) s;
                              s = mmio_write VIRTIO_MMIO_DEVICE_DESC_LOW (ucast u) s;
                              s = mmio_write VIRTIO_MMIO_DEVICE_DESC_HIGH (ucast (drop_bit 32 u)) s;
                              s = mmio_write VIRTIO_MMIO_QUEUE_READY 1 s;
                              s = upd_vd (\<lambda>v. v\<lparr>vfree := (\<lambda>i. i < NUM \<or> vfree v i)\<rparr>) s
                       in Some (mmio_write VIRTIO_MMIO_STATUS (status OR VIRTIO_CONFIG_S_DRIVER_OK) s))"

section \<open>Descriptors\<close>

definition alloc_desc :: "vdisk \<Rightarrow> nat option \<times> vdisk" where
  "alloc_desc v =
     (case find (vfree v) [0..<NUM] of
        Some i \<Rightarrow> (Some i, v\<lparr>vfree := (vfree v)(i := False)\<rparr>)
      | None \<Rightarrow> (None, v))"

definition free_desc :: "nat \<Rightarrow> 'a vio_scheme \<Rightarrow> 'a vio_scheme option" where
  "free_desc i s =
     (if NUM \<le> i then None
      else if vfree (vdk s) i then None
      else Some (wakeup Ch_desc (upd_vd (\<lambda>v. (upd_desc i (\<lambda>_. no_desc) v)\<lparr>vfree := (vfree v)(i := True)\<rparr>) s)))"

partial_function (option) free_chain :: "nat \<Rightarrow> 'a vio_scheme \<Rightarrow> 'a vio_scheme option" where
  "free_chain i s =
     (let flag = vd_flags (desc (vdk s) i); nxt = unat (vd_next (desc (vdk s) i))
      in do {
        s \<leftarrow> free_desc i s;
        if flag AND VRING_DESC_F_NEXT \<noteq> 0 then free_chain nxt s else Some s
      })"

text \<open>The loops of \<open>alloc3_desc\<close>: \<open>n\<close> descriptors still to take, and giving back those taken.\<close>

fun free_descs :: "nat list \<Rightarrow> 'a vio_scheme \<Rightarrow> 'a vio_scheme option" where
  "free_descs [] s = Some s"
| "free_descs (i # is) s = do { s \<leftarrow> free_desc i s; free_descs is s }"

fun alloc_descs :: "nat \<Rightarrow> nat list \<Rightarrow> 'a vio_scheme \<Rightarrow> (nat list option \<times> 'a vio_scheme) option" where
  "alloc_descs 0 idx s = Some (Some idx, s)"
| "alloc_descs (Suc n) idx s =
     (case alloc_desc (vdk s) of
        (Some i, v) \<Rightarrow> alloc_descs n (idx @ [i]) (s\<lparr>vdk := v\<rparr>)
      | (None, v) \<Rightarrow> do { s \<leftarrow> free_descs idx (s\<lparr>vdk := v\<rparr>); Some (None, s) })"

definition alloc3_desc :: "'a vio_scheme \<Rightarrow> (nat list option \<times> 'a vio_scheme) option" where
  "alloc3_desc s = alloc_descs 3 [] s"

section \<open>Requests\<close>

text \<open>The descriptors of a request for buffer \<open>b\<close> at block \<open>bno\<close>, and its entry in the available ring.\<close>

definition format_req :: "nat \<Rightarrow> u32 \<Rightarrow> bool \<Rightarrow> nat \<Rightarrow> nat \<Rightarrow> nat \<Rightarrow> vdisk \<Rightarrow> vdisk" where
  "format_req b bno write i0 i1 i2 v =
     (let sector = ucast (bno * of_nat (BSIZE div 512));
          v = v\<lparr>ops := (ops v)(i0 := \<lparr>rq_type = (if write then VIRTIO_BLK_T_OUT else VIRTIO_BLK_T_IN), rq_reserved = 0, rq_sector = sector\<rparr>)\<rparr>;
          v = upd_desc i0 (\<lambda>_. \<lparr>vd_addr = Ops i0, vd_len = 16, vd_flags = VRING_DESC_F_NEXT, vd_next = of_nat i1\<rparr>) v;
          v = upd_desc i1 (\<lambda>_. \<lparr>vd_addr = Data b, vd_len = of_nat BSIZE,
                vd_flags = (if write then 0 else VRING_DESC_F_WRITE) OR VRING_DESC_F_NEXT, vd_next = of_nat i2\<rparr>) v;
          v = v\<lparr>info := (info v)(i0 := (info v i0)\<lparr>in_status := 0xff\<rparr>)\<rparr>;
          v = upd_desc i2 (\<lambda>_. \<lparr>vd_addr = Status i0, vd_len = 1, vd_flags = VRING_DESC_F_WRITE, vd_next = 0\<rparr>) v;
          v = v\<lparr>b_disk := (b_disk v)(b := True), info := (info v)(i0 := (info v i0)\<lparr>in_b := Some b\<rparr>)\<rparr>;
          v = v\<lparr>avail := (avail v)\<lparr>av_ring := (av_ring (avail v))(unat (av_idx (avail v) mod of_nat NUM) := of_nat i0)\<rparr>\<rparr>
      in v\<lparr>avail := (avail v)\<lparr>av_idx := av_idx (avail v) + 1\<rparr>\<rparr>)"

text \<open>The first part of \<open>virtio_disk_rw\<close>: the head of the chain submitted, or the sleep.\<close>

definition rw_start :: "nat \<Rightarrow> bool \<Rightarrow> 'a vio_scheme \<Rightarrow> (nat outcome \<times> 'a vio_scheme) option" where
  "rw_start b write s =
     do {
       (idx, s) \<leftarrow> alloc3_desc s;
       case idx of
         Some [i0, i1, i2] \<Rightarrow>
           Some (Done i0, mmio_write VIRTIO_MMIO_QUEUE_NOTIFY 0 (upd_vd (format_req b (blockno (bufs s b)) write i0 i1 i2) s))
       | _ \<Rightarrow> do { p \<leftarrow> myproc s; Some (Sleep Ch_desc, sleep_enter p Ch_desc s) }
     }"

text \<open>The rest, for the request with head \<open>i0\<close>: it sleeps again while the device has the buffer.\<close>

definition rw_finish :: "nat \<Rightarrow> nat \<Rightarrow> 'a vio_scheme \<Rightarrow> (unit outcome \<times> 'a vio_scheme) option" where
  "rw_finish b i0 s =
     (if b_disk (vdk s) b then do { p \<leftarrow> myproc s; Some (Sleep (Ch_vbuf b), sleep_enter p (Ch_vbuf b) s) }
      else do {
        s \<leftarrow> free_chain i0 (upd_vd (\<lambda>v. v\<lparr>info := (info v)(i0 := (info v i0)\<lparr>in_b := None\<rparr>)\<rparr>) s);
        Some (Done (), s)
      })"

partial_function (option) intr_loop :: "'a vio_scheme \<Rightarrow> 'a vio_scheme option" where
  "intr_loop s =
     (let v = vdk s
      in if used_idx v \<noteq> us_idx (used v)
         then let i = unat (us_ring (used v) (unat (used_idx v mod of_nat NUM)))
           in if in_status (info v i) \<noteq> 0 then None
              else do {
                b \<leftarrow> in_b (info v i);
                let s = wakeup (Ch_vbuf b) (upd_vd (\<lambda>v. v\<lparr>b_disk := (b_disk v)(b := False)\<rparr>) s);
                intr_loop (upd_vd (\<lambda>v. v\<lparr>used_idx := used_idx v + 1\<rparr>) s)
              }
         else Some s)"

definition virtio_disk_intr :: "'a vio_scheme \<Rightarrow> 'a vio_scheme option" where
  "virtio_disk_intr s = intr_loop (mmio_write VIRTIO_MMIO_INTERRUPT_ACK (mmio_read VIRTIO_MMIO_INTERRUPT_STATUS s AND 3) s)"

end
