(* ===== verification/Syscall.thy ===== *)
theory Syscall
  imports Virtio
begin

text \<open>
  Creating and ending processes, the rest of \<^verbatim>\<open>kernel/proc.c\<close>, the system calls on processes,
  \<^verbatim>\<open>kernel/sysproc.c\<close>, and the dispatch of system calls, \<^verbatim>\<open>kernel/syscall.c\<close>. The addresses of
  assembly labels and of \<open>forkret\<close> and \<open>usertrap\<close> are fields of the state.
\<close>

section \<open>State\<close>

record traps = vio +
  ticks :: u32
  first_proc :: bool
  sepc :: u64
  scause :: u64
  stval :: u64
  sstatus :: u64
  stvec :: u64
  sip :: u64
  plic_in :: "nat \<Rightarrow> u32"
  plic_n :: nat
  plic_out :: "(u64 \<times> u32) list"
  k_forkret :: u64
  k_usertrap :: u64
  k_kernelvec :: u64
  k_uservec :: u64
  k_userret :: u64

section \<open>fork and exit\<close>

text \<open>The loop of \<open>fork\<close> over the descriptors of the parent.\<close>

fun fork_files :: "nat list \<Rightarrow> nat \<Rightarrow> nat \<Rightarrow> 'a files_scheme \<Rightarrow> 'a files_scheme option" where
  "fork_files [] p np s = Some s"
| "fork_files (i # is) p np s =
     (case ofile (procs s p) i of
        None \<Rightarrow> fork_files is p np s
      | Some f \<Rightarrow> do {
          s \<leftarrow> filedup f s;
          fork_files is p np (upd_proc np (\<lambda>q. q\<lparr>ofile := (ofile q)(i := Some f)\<rparr>) s)
        })"

definition copy_trapframe :: "u64 \<Rightarrow> u64 \<Rightarrow> memory \<Rightarrow> memory" where
  "copy_trapframe dst src m = mem_write m dst (\<lambda>k. m (src + of_nat k)) tf_size"

definition fork :: "'a traps_scheme \<Rightarrow> (int \<times> 'a traps_scheme) option" where
  "fork s =
     do {
       p \<leftarrow> myproc s;
       (np, s) \<leftarrow> allocproc (k_forkret s) s;
       case np of
         None \<Rightarrow> Some (-1, s)
       | Some np \<Rightarrow> do {
           (r, s) \<leftarrow> uvmcopy (pagetable (procs s p)) (pagetable (procs s np)) (sz (procs s p)) s;
           if r < 0 then do { s \<leftarrow> freeproc np s; Some (-1, s) }
           else do {
             let s = upd_proc np (\<lambda>q. q\<lparr>sz := sz (procs s p)\<rparr>) s;
             let s = s\<lparr>mem := copy_trapframe (trapframe (procs s np)) (trapframe (procs s p)) (mem s)\<rparr>;
             let s = s\<lparr>mem := store64 (mem s) (trapframe (procs s np) + tf_a 0) 0\<rparr>;
             s \<leftarrow> fork_files [0..<NOFILE] p np s;
             ip \<leftarrow> cwd (procs s p);
             let s = idup ip s;
             let s = upd_proc np (\<lambda>q. q\<lparr>cwd := Some ip, name := safestrcpy (name q) (name (procs s p)) 16\<rparr>) s;
             let n = pid (procs s np);
             Some (n, upd_proc np (\<lambda>q. q\<lparr>parent := Some p, state := RUNNABLE\<rparr>) s)
           }
         }
     }"

fun exit_files :: "nat list \<Rightarrow> nat \<Rightarrow> 'a files_scheme \<Rightarrow> 'a files_scheme option" where
  "exit_files [] p s = Some s"
| "exit_files (fd # fds) p s =
     (case ofile (procs s p) fd of
        None \<Rightarrow> exit_files fds p s
      | Some f \<Rightarrow> do {
          s \<leftarrow> fileclose f s;
          exit_files fds p (upd_proc p (\<lambda>q. q\<lparr>ofile := (ofile q)(fd := None)\<rparr>) s)
        })"

text \<open>\<open>exit\<close> up to its last switch to the scheduler.\<close>

definition exit :: "int \<Rightarrow> 'a files_scheme \<Rightarrow> 'a files_scheme option" where
  "exit status s =
     do {
       p \<leftarrow> myproc s;
       if Some p = initproc s then None
       else do {
         s \<leftarrow> exit_files [0..<NOFILE] p s;
         (_, s) \<leftarrow> at_once (begin_op s);
         ip \<leftarrow> cwd (procs s p);
         s \<leftarrow> iput ip s;
         s \<leftarrow> end_op s;
         let s = upd_proc p (\<lambda>q. q\<lparr>cwd := None\<rparr>) s;
         s \<leftarrow> reparent p s;
         pp \<leftarrow> parent (procs s p);
         let s = wakeup (Ch_proc pp) s;
         Some (upd_proc p (\<lambda>q. q\<lparr>xstate := of_int status, state := ZOMBIE\<rparr>) s)
       }
     }"

section \<open>System calls on processes\<close>

text \<open>How a system call ends: with a value, asleep, or with the end of its process.\<close>

datatype sysret = Returns int | Sleeps chan | Exits

fun of_outcome :: "(int outcome \<times> 's) option \<Rightarrow> (sysret \<times> 's) option" where
  "of_outcome None = None"
| "of_outcome (Some (Done r, s)) = Some (Returns r, s)"
| "of_outcome (Some (Sleep c, s)) = Some (Sleeps c, s)"

definition returns :: "(int \<times> 's) option \<Rightarrow> (sysret \<times> 's) option" where
  "returns m = map_option (\<lambda>(r, s). (Returns r, s)) m"

definition sys_exit :: "'a traps_scheme \<Rightarrow> (sysret \<times> 'a traps_scheme) option" where
  "sys_exit s = do { n \<leftarrow> argint 0 s; s \<leftarrow> exit n s; Some (Exits, s) }"

definition sys_getpid :: "'a traps_scheme \<Rightarrow> (int \<times> 'a traps_scheme) option" where
  "sys_getpid s = do { p \<leftarrow> myproc s; Some (pid (procs s p), s) }"

definition sys_fork :: "'a traps_scheme \<Rightarrow> (int \<times> 'a traps_scheme) option" where
  "sys_fork s = fork s"

definition sys_wait :: "'a traps_scheme \<Rightarrow> (int outcome \<times> 'a traps_scheme) option" where
  "sys_wait s = do { p \<leftarrow> argaddr 0 s; wait p s }"

definition sys_sbrk :: "'a traps_scheme \<Rightarrow> (int \<times> 'a traps_scheme) option" where
  "sys_sbrk s =
     do {
       n \<leftarrow> argint 0 s;
       p \<leftarrow> myproc s;
       let addr = sz (procs s p);
       (r, s) \<leftarrow> growproc n s;
       Some (if r < 0 then -1 else uint addr, s)
     }"

text \<open>The loop of \<open>sys_sleep\<close>, also after a wakeup; \<open>n\<close> is compared as an unsigned number.\<close>

definition sys_sleep_from :: "int \<Rightarrow> u32 \<Rightarrow> 'a traps_scheme \<Rightarrow> (int outcome \<times> 'a traps_scheme) option" where
  "sys_sleep_from n ticks0 s =
     (if ticks s - ticks0 < of_int n
      then do {
        p \<leftarrow> myproc s;
        if is_killed p s then Some (Done (-1), s) else Some (Sleep Ch_ticks, sleep_enter p Ch_ticks s)
      }
      else Some (Done 0, s))"

definition sys_sleep :: "'a traps_scheme \<Rightarrow> (int outcome \<times> 'a traps_scheme) option" where
  "sys_sleep s = do { n \<leftarrow> argint 0 s; sys_sleep_from n (ticks s) s }"

definition sys_kill :: "'a traps_scheme \<Rightarrow> (int \<times> 'a traps_scheme) option" where
  "sys_kill s = do { n \<leftarrow> argint 0 s; Some (kill n s) }"

definition sys_uptime :: "'a traps_scheme \<Rightarrow> (int \<times> 'a traps_scheme) option" where
  "sys_uptime s = Some (uint (ticks s), s)"

section \<open>Dispatch\<close>

datatype sysnum = SYS_fork | SYS_exit | SYS_wait | SYS_pipe | SYS_read | SYS_kill | SYS_exec | SYS_fstat | SYS_chdir
  | SYS_dup | SYS_getpid | SYS_sbrk | SYS_sleep | SYS_uptime | SYS_open | SYS_write | SYS_mknod | SYS_unlink
  | SYS_link | SYS_mkdir | SYS_close

definition sysnums :: "sysnum list" where
  "sysnums = [SYS_fork, SYS_exit, SYS_wait, SYS_pipe, SYS_read, SYS_kill, SYS_exec, SYS_fstat, SYS_chdir,
     SYS_dup, SYS_getpid, SYS_sbrk, SYS_sleep, SYS_uptime, SYS_open, SYS_write, SYS_mknod, SYS_unlink,
     SYS_link, SYS_mkdir, SYS_close]"

fun syscalls :: "sysnum \<Rightarrow> 'a traps_scheme \<Rightarrow> (sysret \<times> 'a traps_scheme) option" where
  "syscalls SYS_fork s = returns (sys_fork s)"
| "syscalls SYS_exit s = sys_exit s"
| "syscalls SYS_wait s = of_outcome (sys_wait s)"
| "syscalls SYS_pipe s = returns (sys_pipe s)"
| "syscalls SYS_read s = of_outcome (sys_read s)"
| "syscalls SYS_kill s = returns (sys_kill s)"
| "syscalls SYS_exec s = returns (sys_exec s)"
| "syscalls SYS_fstat s = returns (sys_fstat s)"
| "syscalls SYS_chdir s = returns (sys_chdir s)"
| "syscalls SYS_dup s = returns (sys_dup s)"
| "syscalls SYS_getpid s = returns (sys_getpid s)"
| "syscalls SYS_sbrk s = returns (sys_sbrk s)"
| "syscalls SYS_sleep s = of_outcome (sys_sleep s)"
| "syscalls SYS_uptime s = returns (sys_uptime s)"
| "syscalls SYS_open s = returns (sys_open s)"
| "syscalls SYS_write s = of_outcome (sys_write s)"
| "syscalls SYS_mknod s = returns (sys_mknod s)"
| "syscalls SYS_unlink s = returns (sys_unlink s)"
| "syscalls SYS_link s = returns (sys_link s)"
| "syscalls SYS_mkdir s = returns (sys_mkdir s)"
| "syscalls SYS_close s = returns (sys_close s)"

definition set_a0 :: "nat \<Rightarrow> u64 \<Rightarrow> 'a ptab_scheme \<Rightarrow> 'a ptab_scheme" where
  "set_a0 p v s = s\<lparr>mem := store64 (mem s) (trapframe (procs s p) + tf_a 0) v\<rparr>"

text \<open>The result says how the call ended; only a call that returns has stored its value in \<open>a0\<close>.\<close>

definition syscall :: "'a traps_scheme \<Rightarrow> (sysret \<times> 'a traps_scheme) option" where
  "syscall s =
     do {
       p \<leftarrow> myproc s;
       let num = sint (ucast (load64 (mem s) (trapframe (procs s p) + tf_a 7)) :: u32);
       if 0 < num \<and> num < 22
       then do {
         (r, s) \<leftarrow> syscalls (sysnums ! nat (num - 1)) s;
         Some (r, case r of Returns v \<Rightarrow> set_a0 p (of_int v) s | _ \<Rightarrow> s)
       }
       else do {
         s \<leftarrow> printf ''%d %s: unknown sys call %d\<newline>'' [Num (of_int (pid (procs s p))), Str (Some (name (procs s p))), Num (of_int num)] s;
         Some (Returns (-1), set_a0 p (-1) s)
       }
     }"

end
