(* ===== verification/Trap.thy ===== *)
theory Trap
  imports Syscall
begin

text \<open>
  Traps and interrupts, \<^verbatim>\<open>kernel/trap.c\<close>, and the interrupt controller, \<^verbatim>\<open>kernel/plic.c\<close>. The
  supervisor registers are those of the current CPU. The interrupt enable bit of \<open>sstatus\<close> is the
  field \<open>sie\<close> of the CPU. What \<open>plic_claim\<close> reads is a sequence, consumed one value per call.
\<close>

section \<open>The interrupt controller\<close>

definition UART0_IRQ :: u32 where "UART0_IRQ = 10"
definition VIRTIO0_IRQ :: u32 where "VIRTIO0_IRQ = 1"
definition PLIC_SENABLE :: "nat \<Rightarrow> u64" where "PLIC_SENABLE h = PLIC + 0x2080 + of_nat h * 0x100"
definition PLIC_SPRIORITY :: "nat \<Rightarrow> u64" where "PLIC_SPRIORITY h = PLIC + 0x201000 + of_nat h * 0x2000"
definition PLIC_SCLAIM :: "nat \<Rightarrow> u64" where "PLIC_SCLAIM h = PLIC + 0x201004 + of_nat h * 0x2000"

definition plic_write :: "u64 \<Rightarrow> u32 \<Rightarrow> 'a traps_scheme \<Rightarrow> 'a traps_scheme" where
  "plic_write a v s = s\<lparr>plic_out := plic_out s @ [(a, v)]\<rparr>"

definition plicinit :: "'a traps_scheme \<Rightarrow> 'a traps_scheme" where
  "plicinit s = plic_write (PLIC + ucast VIRTIO0_IRQ * 4) 1 (plic_write (PLIC + ucast UART0_IRQ * 4) 1 s)"

definition plicinithart :: "'a traps_scheme \<Rightarrow> 'a traps_scheme" where
  "plicinithart s =
     plic_write (PLIC_SPRIORITY (hart s)) 0
       (plic_write (PLIC_SENABLE (hart s)) (push_bit (unat UART0_IRQ) 1 OR push_bit (unat VIRTIO0_IRQ) 1) s)"

definition plic_claim :: "'a traps_scheme \<Rightarrow> u32 \<times> 'a traps_scheme" where
  "plic_claim s = (plic_in s (plic_n s), s\<lparr>plic_n := plic_n s + 1\<rparr>)"

definition plic_complete :: "u32 \<Rightarrow> 'a traps_scheme \<Rightarrow> 'a traps_scheme" where
  "plic_complete irq s = plic_write (PLIC_SCLAIM (hart s)) irq s"

section \<open>Interrupts\<close>

definition SSTATUS_SPP :: u64 where "SSTATUS_SPP = 0x100"
definition SSTATUS_SPIE :: u64 where "SSTATUS_SPIE = 0x20"

definition set_intr :: "bool \<Rightarrow> 'a ptab_scheme \<Rightarrow> 'a ptab_scheme" where
  "set_intr b s = s\<lparr>cpu_tab := (cpu_tab s)(hart s := (mycpu s)\<lparr>sie := b\<rparr>)\<rparr>"

definition trapinithart :: "'a traps_scheme \<Rightarrow> 'a traps_scheme" where
  "trapinithart s = s\<lparr>stvec := k_kernelvec s\<rparr>"

definition clockintr :: "'a traps_scheme \<Rightarrow> 'a traps_scheme" where
  "clockintr s = wakeup Ch_ticks (s\<lparr>ticks := ticks s + 1\<rparr>)"

definition devintr :: "'a traps_scheme \<Rightarrow> (int \<times> 'a traps_scheme) option" where
  "devintr s =
     (if scause s AND 0x8000000000000000 \<noteq> 0 \<and> scause s AND 0xff = 9
      then let (irq, s) = plic_claim s
        in do {
          s \<leftarrow> (if irq = UART0_IRQ then uartintr s
                else if irq = VIRTIO0_IRQ then virtio_disk_intr s
                else if irq \<noteq> 0 then printf ''unexpected interrupt irq=%d\<newline>'' [Num (ucast irq)] s
                else Some s);
          Some (1, if irq \<noteq> 0 then plic_complete irq s else s)
        }
      else if scause s = 0x8000000000000001
      then let s = (if hart s = 0 then clockintr s else s)
        in Some (2, s\<lparr>sip := sip s AND NOT 2\<rparr>)
      else Some (0, s))"

section \<open>Traps from user space\<close>

text \<open>How the handling of a trap leaves the CPU. \<open>To_user\<close> has the page table for the switch.\<close>

datatype trapret = To_user u64 | Yielded | Asleep chan | Ended

definition usertrapret :: "'a traps_scheme \<Rightarrow> (u64 \<times> 'a traps_scheme) option" where
  "usertrapret s =
     do {
       p \<leftarrow> myproc s;
       let s = set_intr False s;
       let s = s\<lparr>stvec := TRAMPOLINE + (k_uservec s - k_trampoline s)\<rparr>;
       let tf = trapframe (procs s p);
       let s = s\<lparr>mem := store64 (mem s) (tf + tf_kernel_satp) (satp s)\<rparr>;
       let s = s\<lparr>mem := store64 (mem s) (tf + tf_kernel_sp) (kstack (procs s p) + PGSIZE)\<rparr>;
       let s = s\<lparr>mem := store64 (mem s) (tf + tf_kernel_trap) (k_usertrap s)\<rparr>;
       let s = s\<lparr>mem := store64 (mem s) (tf + tf_kernel_hartid) (of_nat (hart s))\<rparr>;
       let s = s\<lparr>sstatus := sstatus s AND NOT SSTATUS_SPP OR SSTATUS_SPIE\<rparr>;
       let s = s\<lparr>sepc := load64 (mem s) (tf + tf_epc)\<rparr>;
       Some (MAKE_SATP (pagetable (procs s p)), s)
     }"

text \<open>The end of \<open>usertrap\<close>, after the trap itself is dealt with.\<close>

definition usertrap_end :: "nat \<Rightarrow> int \<Rightarrow> 'a traps_scheme \<Rightarrow> (trapret \<times> 'a traps_scheme) option" where
  "usertrap_end p which_dev s =
     (if is_killed p s then do { s \<leftarrow> exit (-1) s; Some (Ended, s) }
      else if which_dev = 2 then Some (Yielded, yield p s)
      else do { (satp', s) \<leftarrow> usertrapret s; Some (To_user satp', s) })"

definition usertrap :: "'a traps_scheme \<Rightarrow> (trapret \<times> 'a traps_scheme) option" where
  "usertrap s =
     (if sstatus s AND SSTATUS_SPP \<noteq> 0 then None
      else do {
        let s = s\<lparr>stvec := k_kernelvec s\<rparr>;
        p \<leftarrow> myproc s;
        let epc = trapframe (procs s p) + tf_epc;
        let s = s\<lparr>mem := store64 (mem s) epc (sepc s)\<rparr>;
        if scause s = 8
        then if is_killed p s then do { s \<leftarrow> exit (-1) s; Some (Ended, s) }
          else do {
            let s = s\<lparr>mem := store64 (mem s) epc (load64 (mem s) epc + 4)\<rparr>;
            (r, s) \<leftarrow> syscall (set_intr True s);
            case r of
              Returns _ \<Rightarrow> usertrap_end p 0 s
            | Sleeps c \<Rightarrow> Some (Asleep c, s)
            | Exits \<Rightarrow> Some (Ended, s)
          }
        else do {
          (which_dev, s) \<leftarrow> devintr s;
          if which_dev \<noteq> 0 then usertrap_end p which_dev s
          else do {
            s \<leftarrow> printf ''usertrap(): unexpected scause %p pid=%d\<newline>'' [Num (scause s), Num (of_int (pid (procs s p)))] s;
            s \<leftarrow> printf ''            sepc=%p stval=%p\<newline>'' [Num (sepc s), Num (stval s)] s;
            usertrap_end p 0 (setkilled p s)
          }
        }
      })"

section \<open>Traps from the kernel\<close>

text \<open>\<open>kerneltrap\<close> up to the return; whether it gave up the CPU on the way.\<close>

definition kerneltrap :: "'a traps_scheme \<Rightarrow> (bool \<times> 'a traps_scheme) option" where
  "kerneltrap s =
     (let epc = sepc s; status = sstatus s
      in if status AND SSTATUS_SPP = 0 then None
         else if sie (mycpu s) then None
         else do {
           (which_dev, s) \<leftarrow> devintr s;
           if which_dev = 0 then None
           else let switch = (which_dev = 2 \<and> (case myproc s of None \<Rightarrow> False | Some p \<Rightarrow> state (procs s p) = RUNNING));
                    s = (if switch then yield (the (myproc s)) s else s)
             in Some (switch, s\<lparr>sepc := epc, sstatus := status\<rparr>)
         })"

section \<open>The first run of a process\<close>

definition forkret :: "'a traps_scheme \<Rightarrow> (u64 \<times> 'a traps_scheme) option" where
  "forkret s =
     do {
       s \<leftarrow> (if first_proc s then fsinit ROOTDEV (s\<lparr>first_proc := False\<rparr>) else Some s);
       usertrapret s
     }"

end
