(* ===== verification/Grep.thy ===== *)
theory Grep
  imports CString
begin

text \<open>
  The program \<open>grep\<close>, \<^verbatim>\<open>user/grep.c\<close>. A C string is the list of its characters; reading at its end
  gives the terminating zero. What \<open>read\<close> delivers is a list of pieces: a call returns at most one
  piece, cut to the space it is given, as a pipe or the console does.
\<close>

section \<open>Model\<close>

definition at :: "u8 list \<Rightarrow> nat \<Rightarrow> u8" where
  "at cs i = (if i < length cs then cs ! i else 0)"

lemma at_nonzero_length: "at cs 0 \<noteq> 0 \<Longrightarrow> cs \<noteq> []" "at cs 1 \<noteq> 0 \<Longrightarrow> 1 < length cs"
  by (auto simp: at_def split: if_splits)

function matchhere :: "u8 list \<Rightarrow> u8 list \<Rightarrow> bool"
  and matchstar :: "u8 \<Rightarrow> u8 list \<Rightarrow> u8 list \<Rightarrow> bool" where
  "matchhere re tx =
     (if at re 0 = 0 then True
      else if at re 1 = 42 then matchstar (at re 0) (drop 2 re) tx
      else if at re 0 = 36 \<and> at re 1 = 0 then at tx 0 = 0
      else if at tx 0 \<noteq> 0 \<and> (at re 0 = 46 \<or> at re 0 = at tx 0) then matchhere (drop 1 re) (drop 1 tx)
      else False)"
| "matchstar c re tx =
     (if matchhere re tx then True
      else if at tx 0 \<noteq> 0 \<and> (at tx 0 = c \<or> c = 46) then matchstar c re (drop 1 tx)
      else False)"
  by pat_completeness auto
termination
proof (relation "measures [\<lambda>x. case x of Inl (re, _) \<Rightarrow> length re | Inr (_, re, _) \<Rightarrow> length re,
    \<lambda>x. case x of Inl (_, tx) \<Rightarrow> 0 | Inr (_, _, tx) \<Rightarrow> Suc (length tx)]")
qed (auto dest: at_nonzero_length)

declare matchhere.simps [simp del] matchstar.simps [simp del]

text \<open>The loop of \<open>match\<close> over the suffixes of the text, the empty one included.\<close>

function match_from :: "u8 list \<Rightarrow> u8 list \<Rightarrow> bool" where
  "match_from re tx = (if matchhere re tx then True else if at tx 0 \<noteq> 0 then match_from re (drop 1 tx) else False)"
  by pat_completeness auto
termination
  by (relation "measure (\<lambda>(_, tx). length tx)") (auto dest: at_nonzero_length)

declare match_from.simps [simp del]

definition match :: "u8 list \<Rightarrow> u8 list \<Rightarrow> bool" where
  "match re tx = (if at re 0 = 94 then matchhere (drop 1 re) tx else match_from re tx)"

definition read_piece :: "nat \<Rightarrow> u8 list list \<Rightarrow> u8 list \<times> u8 list list" where
  "read_piece mx ps =
     (case ps of
        [] \<Rightarrow> ([], [])
      | p # ps \<Rightarrow> (take mx p, if drop mx p = [] then ps else drop mx p # ps))"

text \<open>
  The loop over the complete lines from \<open>p\<close> on: what is written, and what is left at \<open>p\<close>. The zero
  that ends the data in \<open>buf\<close> stops the search of \<open>strchr\<close>, as does one in the data.
\<close>

function grep_lines :: "u8 list \<Rightarrow> u8 list \<Rightarrow> u8 list \<times> u8 list" where
  "grep_lines re p =
     (let line = takeWhile (\<lambda>c. c \<noteq> 0 \<and> c \<noteq> 10) p; q = drop (length line) p
      in if at q 0 = 10
         then let (out, rest) = grep_lines re (drop 1 q)
           in ((if match re line then line @ [10] else []) @ out, rest)
         else ([], p))"
  by pat_completeness auto
termination
  by (relation "measure (\<lambda>(_, p). length p)") (auto simp: at_def split: if_splits)

declare grep_lines.simps [simp del]

definition grep_buf :: nat where "grep_buf = 1024"

text \<open>The loop of \<open>grep\<close>: \<open>held\<close> are the \<open>m\<close> bytes at the front of \<open>buf\<close>.\<close>

function grep_loop :: "u8 list \<Rightarrow> u8 list \<Rightarrow> u8 list list \<Rightarrow> u8 list" where
  "grep_loop re held ps =
     (let (chunk, ps') = read_piece (grep_buf - length held - 1) ps
      in if chunk = [] then []
         else let (out, rest) = grep_lines re (held @ chunk) in out @ grep_loop re rest ps')"
  by pat_completeness auto
termination
proof (relation "measure (\<lambda>(_, _, ps). length (concat ps))")
  fix held ps x xa y xb
  show "x = read_piece (grep_buf - length held - 1) ps \<Longrightarrow> (xa, y) = x \<Longrightarrow> xa \<noteq> [] \<Longrightarrow>
      ((re, yb, y), (re, held, ps)) \<in> measure (\<lambda>(_, _, ps). length (concat ps))" for re yb
    by (cases ps) (auto simp: read_piece_def)
qed simp

declare grep_loop.simps [simp del]

definition grep :: "u8 list \<Rightarrow> u8 list list \<Rightarrow> u8 list" where
  "grep re ps = grep_loop re [] ps"

section \<open>The language of a pattern\<close>

text \<open>A pattern after its optional \<open>^\<close>: single characters, starred characters and \<open>$\<close> at the end.\<close>

datatype rx = One u8 | Many u8 | End

fun rx_of :: "u8 list \<Rightarrow> rx list" where
  "rx_of [] = []"
| "rx_of [c] = (if c = 36 then [End] else [One c])"
| "rx_of (c # d # re) = (if d = 42 then Many c # rx_of re else One c # rx_of (d # re))"

definition ok_char :: "u8 \<Rightarrow> u8 \<Rightarrow> bool" where
  "ok_char c x \<longleftrightarrow> c = 46 \<or> c = x"

fun words :: "rx list \<Rightarrow> u8 list set" where
  "words [] = {[]}"
| "words (One c # xs) = {x # w | x w. ok_char c x \<and> w \<in> words xs}"
| "words (Many c # xs) = {us @ w | us w. (\<forall>u\<in>set us. ok_char c u) \<and> w \<in> words xs}"
| "words (End # xs) = words xs"

text \<open>A prefix of the text is a word of the pattern, all of it when the pattern ends in \<open>$\<close>.\<close>

definition matches_at :: "rx list \<Rightarrow> u8 list \<Rightarrow> bool" where
  "matches_at xs tx \<longleftrightarrow> (\<exists>u v. tx = u @ v \<and> u \<in> words xs \<and> (End \<in> set xs \<longrightarrow> v = []))"

definition matches :: "u8 list \<Rightarrow> u8 list \<Rightarrow> bool" where
  "matches re tx \<longleftrightarrow>
     (case re of
        c # re' \<Rightarrow> if c = 94 then matches_at (rx_of re') tx else (\<exists>u v. tx = u @ v \<and> matches_at (rx_of re) v)
      | [] \<Rightarrow> True)"

lemma at_simps [simp]: "at [] i = 0" "at (c # cs) 0 = c" "at (c # cs) (Suc i) = at cs i"
  by (simp_all add: at_def)

lemma ex_split_Cons:
  "(\<exists>u v. x # t = u @ v \<and> P u v) \<longleftrightarrow> P [] (x # t) \<or> (\<exists>u v. t = u @ v \<and> P (x # u) v)"
proof
  assume "\<exists>u v. x # t = u @ v \<and> P u v"
  then obtain u v where "x # t = u @ v" "P u v" by blast
  then show "P [] (x # t) \<or> (\<exists>u v. t = u @ v \<and> P (x # u) v)" by (cases u) auto
next
  assume "P [] (x # t) \<or> (\<exists>u v. t = u @ v \<and> P (x # u) v)"
  then show "\<exists>u v. x # t = u @ v \<and> P u v" by (metis append_Cons append_Nil)
qed

lemma matches_at_Nil [simp]: "matches_at [] tx"
  by (simp add: matches_at_def)

lemma matches_at_One:
  "matches_at (One c # xs) tx \<longleftrightarrow> (\<exists>x t. tx = x # t \<and> ok_char c x \<and> matches_at xs t)"
  by (cases tx) (auto simp: matches_at_def ex_split_Cons)

lemma matches_at_Many:
  "matches_at (Many c # xs) tx \<longleftrightarrow> (\<exists>us t. tx = us @ t \<and> (\<forall>u\<in>set us. ok_char c u) \<and> matches_at xs t)"
proof
  assume "matches_at (Many c # xs) tx"
  then show "\<exists>us t. tx = us @ t \<and> (\<forall>u\<in>set us. ok_char c u) \<and> matches_at xs t"
    unfolding matches_at_def by simp (metis append_assoc)
next
  assume "\<exists>us t. tx = us @ t \<and> (\<forall>u\<in>set us. ok_char c u) \<and> matches_at xs t"
  then show "matches_at (Many c # xs) tx"
    unfolding matches_at_def by simp (metis append_assoc)
qed

lemma matches_at_End: "matches_at [End] tx \<longleftrightarrow> tx = []"
  by (auto simp: matches_at_def)

lemma matchstar_iff:
  assumes "0 \<notin> set tx"
  shows "matchstar c re tx \<longleftrightarrow> (\<exists>us t. tx = us @ t \<and> (\<forall>u\<in>set us. ok_char c u) \<and> matchhere re t)"
  using assms
proof (induction tx)
  case Nil
  then show ?case by (subst matchstar.simps) simp
next
  case (Cons x tx)
  have "matchstar c re (x # tx) \<longleftrightarrow> matchhere re (x # tx) \<or> ok_char c x \<and> matchstar c re tx"
    using Cons.prems by (subst matchstar.simps) (auto simp: ok_char_def)
  then show ?case using Cons by (auto simp: ex_split_Cons)
qed

lemma matchhere_iff:
  "0 \<notin> set re \<Longrightarrow> 0 \<notin> set tx \<Longrightarrow> matchhere re tx \<longleftrightarrow> matches_at (rx_of re) tx"
proof (induction re arbitrary: tx rule: rx_of.induct)
  case 1
  then show ?case by (subst matchhere.simps) simp
next
  case (2 c)
  have "matchhere [] t" for t by (subst matchhere.simps) simp
  then show ?case using 2 by (subst matchhere.simps, cases tx)
    (auto simp: matches_at_One matches_at_End ok_char_def)
next
  case (3 c d re)
  show ?case
  proof (cases "d = 42")
    case True
    then have "matchhere (c # d # re) tx \<longleftrightarrow> matchstar c re tx"
      using 3 by (subst matchhere.simps) auto
    also have "\<dots> \<longleftrightarrow> (\<exists>us t. tx = us @ t \<and> (\<forall>u\<in>set us. ok_char c u) \<and> matchhere re t)"
      using 3 by (simp add: matchstar_iff)
    also have "\<dots> \<longleftrightarrow> matches_at (Many c # rx_of re) tx"
      unfolding matches_at_Many using True 3 by (intro ex_cong1 conj_cong refl) auto
    finally show ?thesis using True by simp
  next
    case False
    show ?thesis using 3 False
      by (subst matchhere.simps, cases tx) (auto simp: matches_at_One ok_char_def)
  qed
qed

lemma match_from_iff:
  "0 \<notin> set re \<Longrightarrow> 0 \<notin> set tx \<Longrightarrow> match_from re tx \<longleftrightarrow> (\<exists>u v. tx = u @ v \<and> matches_at (rx_of re) v)"
proof (induction tx)
  case Nil
  then show ?case by (subst match_from.simps) (simp add: matchhere_iff)
next
  case (Cons x tx)
  have "match_from re (x # tx) \<longleftrightarrow> matchhere re (x # tx) \<or> match_from re tx"
    using Cons.prems by (subst match_from.simps) auto
  then show ?case using Cons by (simp add: ex_split_Cons matchhere_iff)
qed

lemma match_iff:
  assumes "0 \<notin> set re" "0 \<notin> set tx"
  shows "match re tx \<longleftrightarrow> matches re tx"
proof (cases re)
  case Nil
  then show ?thesis using match_from_iff [of "[]" tx] assms by (auto simp: match_def matches_def)
qed (use assms in \<open>auto simp: match_def matches_def matchhere_iff match_from_iff\<close>)

section \<open>Lines\<close>

text \<open>The complete lines of a text and the characters after the last newline.\<close>

fun split_lines :: "u8 list \<Rightarrow> u8 list list \<times> u8 list" where
  "split_lines [] = ([], [])"
| "split_lines (c # cs) =
     (case split_lines cs of
        (ls, r) \<Rightarrow> if c = 10 then ([] # ls, r) else case ls of [] \<Rightarrow> ([], c # r) | l # ls \<Rightarrow> ((c # l) # ls, r))"

lemma split_lines_line:
  "10 \<notin> set l \<Longrightarrow> split_lines (l @ 10 # cs) = (l # fst (split_lines cs), snd (split_lines cs))"
  by (induction l) (auto split: prod.splits)

lemma split_lines_rest: "10 \<notin> set l \<Longrightarrow> split_lines l = ([], l)"
  by (induction l) auto

lemma split_lines_append:
  "split_lines (xs @ ys) =
     (fst (split_lines xs) @ fst (split_lines (snd (split_lines xs) @ ys)), snd (split_lines (snd (split_lines xs) @ ys)))"
  by (induction xs) (auto split: prod.splits list.splits)

lemma split_lines_sub: "set (snd (split_lines xs)) \<subseteq> set xs" "10 \<notin> set (snd (split_lines xs))"
  by (induction xs) (auto split: prod.splits list.splits if_splits)

definition selected :: "(u8 list \<Rightarrow> bool) \<Rightarrow> u8 list \<Rightarrow> u8 list" where
  "selected P cs = concat (map (\<lambda>l. l @ [10]) (filter P (fst (split_lines cs))))"

lemma selected_append:
  "selected P (xs @ ys) = selected P xs @ selected P (snd (split_lines xs) @ ys)"
  unfolding selected_def by (subst split_lines_append) simp

lemma grep_lines_eq:
  "0 \<notin> set p \<Longrightarrow> grep_lines re p = (selected (match re) p, snd (split_lines p))"
proof (induction re p rule: grep_lines.induct)
  case (1 re p)
  let ?l = "takeWhile (\<lambda>c. c \<noteq> 0 \<and> c \<noteq> 10) p" and ?q = "dropWhile (\<lambda>c. c \<noteq> 0 \<and> c \<noteq> 10) p"
  have q: "drop (length ?l) p = ?q" by (simp add: dropWhile_eq_drop)
  have l: "10 \<notin> set ?l" by (auto dest: set_takeWhileD)
  show ?case
  proof (cases "at ?q 0 = 10")
    case True
    then obtain q' where q': "?q = 10 # q'" by (cases ?q) auto
    have "?l @ ?q = p" by simp
    then have p: "?l @ 10 # q' = p" by (simp only: q')
    have "set q' \<subseteq> set ?q" unfolding q' by auto
    then have "0 \<notin> set q'" using 1(2) by (meson set_dropWhileD subsetD)
    then have IH: "grep_lines re q' = (selected (match re) q', snd (split_lines q'))"
      using 1 True q q' by simp
    have s: "split_lines p = (?l # fst (split_lines q'), snd (split_lines q'))"
      using split_lines_line [OF l, of q'] by (simp only: p)
    show ?thesis using True IH s by (subst grep_lines.simps) (simp add: q q' Let_def selected_def)
  next
    case False
    have nz: "c \<noteq> 0 \<and> c \<noteq> 10" if "c \<in> set p" for c
    proof -
      have "hd ?q = 10" if "?q \<noteq> []"
      proof -
        have "hd ?q \<in> set p" using hd_in_set [OF that] by (rule set_dropWhileD)
        then have "hd ?q \<noteq> 0" using 1(2) by metis
        then show ?thesis using hd_dropWhile [OF that] by simp
      qed
      then have "?q = []" using False by (cases ?q) auto
      then show ?thesis using that by (simp add: dropWhile_eq_Nil_conv)
    qed
    then have "?l = p" by (simp add: takeWhile_eq_all_conv)
    moreover have "split_lines p = ([], p)" using nz by (intro split_lines_rest) blast
    ultimately show ?thesis using False by (subst grep_lines.simps) (simp add: q Let_def selected_def)
  qed
qed

text \<open>Every line and the rest fit in the buffer.\<close>

definition lines_fit :: "u8 list \<Rightarrow> bool" where
  "lines_fit cs \<longleftrightarrow> (\<forall>l \<in> set (fst (split_lines cs)). length l < grep_buf - 1) \<and> length (snd (split_lines cs)) < grep_buf - 1"

lemma lines_fit_append: "lines_fit (xs @ ys) \<Longrightarrow> lines_fit (snd (split_lines xs) @ ys)"
  unfolding lines_fit_def by (subst (asm) (1 2) split_lines_append) simp

lemma lines_fit_prefix:
  assumes "10 \<notin> set xs" "lines_fit (xs @ ys)"
  shows "length xs < grep_buf - 1"
proof (cases "10 \<in> set ys")
  case True
  then obtain l ys' where "ys = l @ 10 # ys'" "10 \<notin> set l" by (metis split_list_first)
  then show ?thesis using assms split_lines_line [of "xs @ l" ys'] by (simp add: lines_fit_def)
next
  case False
  then show ?thesis using assms split_lines_rest [of "xs @ ys"] by (simp add: lines_fit_def)
qed

lemma grep_loop_eq:
  "0 \<notin> set (held @ concat ps) \<Longrightarrow> [] \<notin> set ps \<Longrightarrow> 10 \<notin> set held \<Longrightarrow> lines_fit (held @ concat ps) \<Longrightarrow>
     grep_loop re held ps = selected (match re) (held @ concat ps)"
proof (induction re held ps rule: grep_loop.induct)
  case (1 re held ps)
  note fit = lines_fit_prefix [OF 1(4,5)]
  show ?case
  proof (cases ps)
    case Nil
    then show ?thesis using split_lines_rest [OF 1(4)]
      by (subst grep_loop.simps) (simp add: read_piece_def selected_def)
  next
    case (Cons p ps0)
    let ?mx = "grep_buf - length held - 1"
    obtain chunk ps' where r: "read_piece ?mx ps = (chunk, ps')" by fastforce
    have p: "p \<noteq> []" "0 < ?mx" using 1(3) Cons fit by auto
    then have c: "chunk \<noteq> []" "concat ps = chunk @ concat ps'" "[] \<notin> set ps'"
      using r 1(3) Cons by (auto simp: read_piece_def split: if_splits)
    let ?rest = "snd (split_lines (held @ chunk))"
    have z: "0 \<notin> set (held @ chunk)" using 1(2) c by auto
    have "lines_fit (?rest @ concat ps')" using lines_fit_append [of "held @ chunk"] 1(5) c by simp
    moreover have "0 \<notin> set (?rest @ concat ps')" using 1(2) c split_lines_sub(1) [of "held @ chunk"] by auto
    ultimately have "grep_loop re ?rest ps' = selected (match re) (?rest @ concat ps')"
      using 1(1) [OF r [symmetric] refl c(1)] c split_lines_sub(2) [of "held @ chunk"] grep_lines_eq [OF z] by metis
    moreover have "selected (match re) (held @ concat ps) =
        selected (match re) (held @ chunk) @ selected (match re) (?rest @ concat ps')"
      using selected_append [of "match re" "held @ chunk" "concat ps'"] c by simp
    ultimately show ?thesis using r c by (subst grep_loop.simps) (simp add: grep_lines_eq [OF z])
  qed
qed

section \<open>Properties\<close>

text \<open>
  C23: The matcher of \<open>grep\<close> decides the language of its patterns. A pattern of plain characters, \<open>.\<close>
  and \<open>c*\<close> matches a text when the text has a factor that is a word of the pattern: at its
  beginning if the pattern starts with \<open>^\<close>, and up to its end if the pattern ends in \<open>$\<close>.
\<close>
theorem match_decides_language:
  "0 \<notin> set re \<Longrightarrow> 0 \<notin> set tx \<Longrightarrow> match re tx \<longleftrightarrow> matches re tx"
  by (rule match_iff)

theorem match_decides_language_witness:
  "match [97, 46, 42, 98, 36] [120, 97, 99, 99, 98] \<and> matches [97, 46, 42, 98, 36] [120, 97, 99, 99, 98]"
proof -
  have "match [97, 46, 42, 98, 36] [120, 97, 99, 99, 98]"
    by (simp add: match_def match_from.simps matchhere.simps matchstar.simps)
  then show ?thesis using match_decides_language [of "[97, 46, 42, 98, 36]" "[120, 97, 99, 99, 98]"] by simp
qed

text \<open>
  C25: However \<open>read\<close> cuts its input into pieces, \<open>grep\<close> writes exactly the complete lines that match,
  in order and each with its newline, provided the input has no zero byte and every line fits
  in the buffer with its newline and the terminating zero.
\<close>
theorem grep_selects_lines:
  "0 \<notin> set (concat ps) \<Longrightarrow> [] \<notin> set ps \<Longrightarrow> lines_fit (concat ps) \<Longrightarrow>
     grep re ps = concat (map (\<lambda>l. l @ [10]) (filter (match re) (fst (split_lines (concat ps)))))"
  using grep_loop_eq [of "[]" ps re] by (simp add: grep_def selected_def)

theorem grep_selects_lines_witness:
  "grep [98] [[97, 10, 98], [99, 10]] = [98, 99, 10]"
proof -
  have "lines_fit [97, 10, 98, 99, 10]" by (simp add: lines_fit_def grep_buf_def)
  moreover have "\<not> match [98] [97]" "match [98] [98, 99]"
    by (simp_all add: match_def match_from.simps matchhere.simps)
  ultimately show ?thesis using grep_selects_lines [of "[[97, 10, 98], [99, 10]]" "[98]"] by simp
qed

end
