(* ===== verification/Utils.thy ===== *)
theory Utils
  imports Grep
begin

text \<open>
  Formatted output of user programs, \<^verbatim>\<open>user/printf.c\<close>, and the programs \<open>wc\<close>, \<open>cat\<close> and \<open>echo\<close>. What a
  program writes to a descriptor is a list of bytes; input comes in the pieces of \<open>read_piece\<close>.
\<close>

section \<open>Formatted output\<close>

definition str :: "string \<Rightarrow> u8 list" where
  "str cs = map of_char cs"

definition udigits :: "nat \<Rightarrow> u8" where
  "udigits i = str ''0123456789ABCDEF'' ! i"

text \<open>The characters that \<open>printint\<close> puts into \<open>buf\<close>, the least significant digit first.\<close>

partial_function (option) uprintint_loop :: "u32 \<Rightarrow> u32 \<Rightarrow> u8 list option" where
  "uprintint_loop base x =
     (let c = udigits (unat (x mod base)); x = x div base
      in if x \<noteq> 0 then do { cs \<leftarrow> uprintint_loop base x; Some (c # cs) } else Some [c])"

definition uprintint :: "u32 \<Rightarrow> u32 \<Rightarrow> bool \<Rightarrow> u8 list option" where
  "uprintint xx base sg =
     (let neg = (sg \<and> sint xx < 0); x = (if neg then - xx else xx)
      in do { cs \<leftarrow> uprintint_loop base x; Some (rev (if neg then cs @ [45] else cs)) })"

definition uprintptr :: "u64 \<Rightarrow> u8 list" where
  "uprintptr x = [48, 120] @ map (\<lambda>i. udigits (unat (drop_bit 60 (push_bit (4 * i) x)))) [0..<16]"

datatype uarg = UNum u64 | UStr "u8 list option"

definition uconv :: "u8 \<Rightarrow> uarg list \<Rightarrow> (u8 list \<times> uarg list) option" where
  "uconv c args =
     (if c = 100 then (case args of UNum n # as \<Rightarrow> do { out \<leftarrow> uprintint (ucast n) 10 True; Some (out, as) } | _ \<Rightarrow> None)
      else if c = 108 then (case args of UNum n # as \<Rightarrow> do { out \<leftarrow> uprintint (ucast n) 10 False; Some (out, as) } | _ \<Rightarrow> None)
      else if c = 120 then (case args of UNum n # as \<Rightarrow> do { out \<leftarrow> uprintint (ucast n) 16 False; Some (out, as) } | _ \<Rightarrow> None)
      else if c = 112 then (case args of UNum n # as \<Rightarrow> Some (uprintptr n, as) | _ \<Rightarrow> None)
      else if c = 115 then (case args of UStr x # as \<Rightarrow> Some (case x of None \<Rightarrow> str ''(null)'' | Some cs \<Rightarrow> cs, as) | _ \<Rightarrow> None)
      else if c = 99 then (case args of UNum n # as \<Rightarrow> Some ([ucast n], as) | _ \<Rightarrow> None)
      else if c = 37 then Some ([c], args)
      else Some ([37, c], args))"

text \<open>The loop of \<open>vprintf\<close>; the flag is \<open>state == '%'\<close>.\<close>

fun vprintf_from :: "bool \<Rightarrow> u8 list \<Rightarrow> uarg list \<Rightarrow> u8 list option" where
  "vprintf_from st [] args = Some []"
| "vprintf_from False (c # fmt) args =
     (if c = 37 then vprintf_from True fmt args
      else do { out \<leftarrow> vprintf_from False fmt args; Some (c # out) })"
| "vprintf_from True (c # fmt) args =
     do { (o1, args) \<leftarrow> uconv c args; out \<leftarrow> vprintf_from False fmt args; Some (o1 @ out) }"

definition vprintf :: "string \<Rightarrow> uarg list \<Rightarrow> u8 list option" where
  "vprintf fmt args = vprintf_from False (str fmt) args"

section \<open>wc\<close>

record wcstate =
  wc_l :: u32
  wc_w :: u32
  wc_c :: u32
  inword :: bool

definition is_space :: "u8 \<Rightarrow> bool" where
  "is_space c \<longleftrightarrow> c \<in> {32, 13, 9, 10, 11}"

definition wc_char :: "u8 \<Rightarrow> wcstate \<Rightarrow> wcstate" where
  "wc_char ch s =
     (let s = s\<lparr>wc_c := wc_c s + 1\<rparr>;
          s = (if ch = 10 then s\<lparr>wc_l := wc_l s + 1\<rparr> else s)
      in if is_space ch then s\<lparr>inword := False\<rparr>
         else if \<not> inword s then s\<lparr>wc_w := wc_w s + 1, inword := True\<rparr>
         else s)"

definition wc_buf :: nat where "wc_buf = 512"

function wc_loop :: "u8 list list \<Rightarrow> wcstate \<Rightarrow> wcstate" where
  "wc_loop ps s =
     (let (chunk, ps') = read_piece wc_buf ps
      in if chunk = [] then s else wc_loop ps' (fold wc_char chunk s))"
  by pat_completeness auto
termination
proof (relation "measure (\<lambda>(ps, _). length (concat ps))")
  show "x = read_piece wc_buf ps \<Longrightarrow> (xa, y) = x \<Longrightarrow> xa \<noteq> [] \<Longrightarrow>
      ((y, fold wc_char xa s), (ps, s)) \<in> measure (\<lambda>(ps, _). length (concat ps))" for x xa y ps s
    by (cases ps) (auto simp: read_piece_def)
qed simp

declare wc_loop.simps [simp del]

text \<open>
  \<open>wc\<close> when the last \<open>read\<close> fails (\<open>err\<close>) or reaches the end of the input: what it prints, and whether it returns
  rather than exits with status 1.
\<close>

definition wc :: "bool \<Rightarrow> u8 list list \<Rightarrow> u8 list \<Rightarrow> (u8 list \<times> bool) option" where
  "wc err ps nm =
     (let s = wc_loop ps \<lparr>wc_l = 0, wc_w = 0, wc_c = 0, inword = False\<rparr>
      in if err then do { out \<leftarrow> vprintf ''wc: read error\<newline>'' []; Some (out, False) }
         else do {
           out \<leftarrow> vprintf ''%d %d %d %s\<newline>'' [UNum (ucast (wc_l s)), UNum (ucast (wc_w s)), UNum (ucast (wc_c s)), UStr (Some nm)];
           Some (out, True)
         })"

section \<open>cat and echo\<close>

text \<open>
  \<open>cat\<close>, with how many bytes each \<open>write\<close> accepts and whether the last \<open>read\<close> fails: what it writes to descriptor 1
  and the message it writes to descriptor 2, after which it exits with status 1; it returns when there is none.
\<close>

fun cat_loop :: "bool \<Rightarrow> nat list \<Rightarrow> u8 list list \<Rightarrow> (u8 list \<times> u8 list) option" where
  "cat_loop err ns ps =
     (let (chunk, ps') = read_piece 512 ps
      in if chunk = [] then Some ([], if err then str ''cat: read error\<newline>'' else [])
         else case ns of
           [] \<Rightarrow> None
         | n # ns \<Rightarrow>
             if n \<noteq> length chunk then Some (take n chunk, str ''cat: write error\<newline>'')
             else do { (out, msg) \<leftarrow> cat_loop err ns ps'; Some (chunk @ out, msg) })"

fun echo_args :: "u8 list list \<Rightarrow> u8 list" where
  "echo_args [] = []"
| "echo_args [a] = a @ [10]"
| "echo_args (a # as) = a @ [32] @ echo_args as"

definition echo :: "u8 list list \<Rightarrow> u8 list" where
  "echo argv = echo_args (drop 1 argv)"

section \<open>Numbers\<close>

text \<open>The number that decimal digits denote, the least significant first.\<close>

definition decimal :: "u8 list \<Rightarrow> u32" where
  "decimal cs = foldr (\<lambda>c v. v * 10 + (ucast c - 48)) cs 0"

definition is_digit :: "u8 \<Rightarrow> bool" where
  "is_digit c \<longleftrightarrow> 48 \<le> c \<and> c \<le> 57"

lemma udigits_decimal:
  assumes "d < 10"
  shows "is_digit (udigits d)" "ucast (udigits d) - 48 = (of_nat d :: u32)"
proof -
  have "d \<in> set [0..<10]" using assms by simp
  then have "d \<in> {0, 1, 2, 3, 4, 5, 6, 7, 8, 9}" by auto
  then show "is_digit (udigits d)" "ucast (udigits d) - 48 = (of_nat d :: u32)"
    by (auto simp: udigits_def str_def is_digit_def nth_Cons')
qed

lemma uprintint_loop_decimal:
  "unat x < 10 ^ Suc k \<Longrightarrow>
     \<exists>cs. uprintint_loop 10 x = Some cs \<and> decimal cs = x \<and> length cs \<le> Suc k \<and> (\<forall>c \<in> set cs. is_digit c)"
proof (induction k arbitrary: x)
  case 0
  have d: "x div 10 = 0" "x mod 10 = x" using 0 by (auto simp: word_unat_eq_iff unat_div unat_mod)
  show ?case using udigits_decimal [of "unat x"] 0
    by (subst uprintint_loop.simps) (simp add: d decimal_def)
next
  case (Suc k)
  have m: "unat (x mod 10) < 10" by (simp add: unat_mod)
  note u = udigits_decimal [OF m]
  show ?case
  proof (cases "x div 10 = 0")
    case True
    then have "x mod 10 = x" by (metis add_cancel_left_left div_mult_mod_eq mult_zero_left)
    then show ?thesis using u True by (subst uprintint_loop.simps) (simp add: decimal_def)
  next
    case False
    have "unat (x div 10) < 10 ^ Suc k" using Suc.prems by (simp add: unat_div less_mult_imp_div_less)
    then obtain cs where cs: "uprintint_loop 10 (x div 10) = Some cs" "decimal cs = x div 10"
        "length cs \<le> Suc k" "\<forall>c \<in> set cs. is_digit c"
      using Suc.IH by blast
    have "decimal (udigits (unat (x mod 10)) # cs) = x div 10 * 10 + x mod 10"
      using cs(2) u(2) by (simp add: decimal_def)
    then show ?thesis using cs u False div_mult_mod_eq [of x 10] by (subst uprintint_loop.simps) simp
  qed
qed

text \<open>A list of characters as a C array.\<close>

definition carray :: "u8 list \<Rightarrow> bytes" where
  "carray cs = (\<lambda>i. if i < length cs then cs ! i else 0)"

lemma atoi_carray:
  assumes "\<forall>c \<in> set cs. is_digit c"
  shows "atoi (carray cs) = Some (decimal (rev cs))"
proof -
  have "atoi_from (carray cs) 0 0 = Some (foldl (\<lambda>v j. v * 10 + (ucast (carray cs j) - 0x30)) 0 [0..<length cs])"
    using assms by (intro atoi_from_digits) (auto simp: carray_def is_digit_def)
  also have "foldl (\<lambda>v j. v * 10 + (ucast (carray cs j) - 0x30)) (0 :: u32) [0..<length cs] =
      foldl (\<lambda>v c. v * 10 + (ucast c - 0x30)) 0 (map (carray cs) [0..<length cs])"
    by (simp add: foldl_map)
  also have "map (carray cs) [0..<length cs] = cs" by (rule nth_equalityI) (auto simp: carray_def)
  finally show ?thesis by (simp add: atoi_def decimal_def foldr_conv_foldl)
qed

section \<open>Counts\<close>

definition starts :: "bool \<Rightarrow> u8 list \<Rightarrow> nat \<Rightarrow> bool" where
  "starts inw cs i \<longleftrightarrow> \<not> is_space (cs ! i) \<and> (if i = 0 then \<not> inw else is_space (cs ! (i - 1)))"

lemma starts_Cons [simp]:
  "starts inw (c # cs) (Suc i) = starts (\<not> is_space c) cs i" "starts inw (c # cs) 0 \<longleftrightarrow> \<not> is_space c \<and> \<not> inw"
  by (cases i) (auto simp: starts_def)

text \<open>The words of a text: the positions of a character that is not a space after a space or at the front.\<close>

definition word_count :: "bool \<Rightarrow> u8 list \<Rightarrow> nat" where
  "word_count inw cs = length (filter (starts inw cs) [0..<length cs])"

lemma word_count_Cons:
  "word_count inw (c # cs) = (if \<not> is_space c \<and> \<not> inw then 1 else 0) + word_count (\<not> is_space c) cs"
proof -
  have "[0..<Suc (length cs)] = 0 # map Suc [0..<length cs]" by (simp add: map_Suc_upt upt_conv_Cons del: upt_Suc)
  then show ?thesis by (simp add: word_count_def filter_map o_def del: upt_Suc)
qed

lemma word_count_Nil [simp]: "word_count inw [] = 0"
  by (simp add: word_count_def)

lemma wc_char_eq:
  "wc_char c s =
     s\<lparr>wc_l := wc_l s + (if c = 10 then 1 else 0), wc_w := wc_w s + (if \<not> is_space c \<and> \<not> inword s then 1 else 0),
       wc_c := wc_c s + 1, inword := \<not> is_space c\<rparr>"
  by (cases s) (simp add: wc_char_def is_space_def Let_def)

lemma fold_wc_char:
  "fold wc_char cs s =
     s\<lparr>wc_l := wc_l s + of_nat (length (filter (\<lambda>c. c = 10) cs)), wc_w := wc_w s + of_nat (word_count (inword s) cs),
       wc_c := wc_c s + of_nat (length cs), inword := (if cs = [] then inword s else \<not> is_space (last cs))\<rparr>"
proof (induction cs arbitrary: s)
  case Nil
  then show ?case by (simp add: word_count_def)
next
  case (Cons c cs)
  show ?case by (simp only: fold.simps comp_apply Cons) (simp add: wc_char_eq word_count_Cons)
qed

lemma read_piece_concat:
  "read_piece n ps = (chunk, ps') \<Longrightarrow> 0 < n \<Longrightarrow> [] \<notin> set ps \<Longrightarrow>
     concat ps = chunk @ concat ps' \<and> [] \<notin> set ps' \<and> (chunk = [] \<longrightarrow> concat ps = [])"
  by (cases ps) (auto simp: read_piece_def split: if_splits)

lemma wc_loop_fold: "[] \<notin> set ps \<Longrightarrow> wc_loop ps s = fold wc_char (concat ps) s"
proof (induction ps s rule: wc_loop.induct)
  case (1 ps s)
  obtain chunk ps' where r: "read_piece wc_buf ps = (chunk, ps')" by fastforce
  have "0 < wc_buf" by (simp add: wc_buf_def)
  note c = read_piece_concat [OF r this 1(2)]
  show ?case
  proof (cases "chunk = []")
    case True
    then have "concat ps = []" using c by blast
    then show ?thesis using True r by (subst wc_loop.simps) (simp del: concat_eq_Nil_conv)
  next
    case False
    then have "wc_loop ps' (fold wc_char chunk s) = fold wc_char (concat ps') (fold wc_char chunk s)"
      using c 1(1) [OF r [symmetric] refl False] by simp
    then show ?thesis using c False r by (subst wc_loop.simps) simp
  qed
qed

section \<open>Properties\<close>

text \<open>
  C29: Printing and reading numbers are inverse. The digits that \<open>printint\<close> makes of a number that is
  not negative fit its buffer of 16 characters, and \<open>atoi\<close> reads the printed string back as the number.
\<close>
theorem print_atoi_roundtrip:
  "sg \<longrightarrow> 0 \<le> sint x \<Longrightarrow> \<exists>cs. uprintint x 10 sg = Some cs \<and> length cs \<le> 10 \<and> atoi (carray cs) = Some x"
proof -
  assume sg: "sg \<longrightarrow> 0 \<le> sint x"
  have "unat x < 10 ^ Suc 9" using unsigned_less [of x, where ?'a = nat] by simp
  then obtain cs where cs: "uprintint_loop 10 x = Some cs" "decimal cs = x" "length cs \<le> Suc 9" "\<forall>c \<in> set cs. is_digit c"
    using uprintint_loop_decimal by blast
  moreover have neg: "(sg \<and> sint x < 0) = False" using sg by auto
  ultimately have "uprintint x 10 sg = Some (rev cs)" unfolding uprintint_def Let_def neg by simp
  then show ?thesis using cs atoi_carray [of "rev cs"] by simp
qed

theorem print_atoi_roundtrip_witness:
  "\<exists>cs. uprintint 2024 10 True = Some cs \<and> length cs \<le> 10 \<and> atoi (carray cs) = Some 2024"
  using print_atoi_roundtrip [of True 2024] by simp

text \<open>
  C30: However \<open>read\<close> cuts its input into pieces, \<open>wc\<close> counts the newlines, the words and the bytes of
  the whole input, modulo the width of its counters. A word starts at a byte that is not a
  space, at the front or after a space.
\<close>
theorem wc_counts_input:
  "[] \<notin> set ps \<Longrightarrow>
     wc_loop ps \<lparr>wc_l = 0, wc_w = 0, wc_c = 0, inword = False\<rparr> =
       (let cs = concat ps
        in \<lparr>wc_l = of_nat (length (filter (\<lambda>c. c = 10) cs)), wc_w = of_nat (word_count False cs),
             wc_c = of_nat (length cs), inword = (cs \<noteq> [] \<and> \<not> is_space (last cs))\<rparr>)"
  by (simp add: wc_loop_fold fold_wc_char Let_def)

theorem wc_counts_input_witness:
  "wc_loop [[97, 32], [98, 99, 10]] \<lparr>wc_l = 0, wc_w = 0, wc_c = 0, inword = False\<rparr> =
     \<lparr>wc_l = 1, wc_w = 2, wc_c = 5, inword = False\<rparr>"
proof -
  have "word_count False [97, 32, 98, 99, 10] = 2" by (simp add: word_count_Cons is_space_def)
  then show ?thesis using wc_counts_input [of "[[97, 32], [98, 99, 10]]"] by (simp add: is_space_def)
qed

end
