(* ===== verification/Sh.thy ===== *)
theory Sh
  imports CString
begin

text \<open>
  The command parser of the shell, \<^verbatim>\<open>user/sh.c\<close>. A pointer into the line is a position in the array
  \<open>buf\<close>, and \<open>es\<close> is the position of its terminating zero. The parsing functions call each other and
  themselves; they take fuel, and \<open>parsecmd\<close> gives them enough for every line. A call of \<open>panic\<close> is
  a result with its message.
\<close>

section \<open>Tokens\<close>

definition sh_space :: "u8 \<Rightarrow> bool" where
  "sh_space c \<longleftrightarrow> c \<in> {32, 9, 13, 10, 11}"

definition sh_symbol :: "u8 \<Rightarrow> bool" where
  "sh_symbol c \<longleftrightarrow> c \<in> {60, 124, 62, 38, 59, 40, 41}"

function skip_space :: "bytes \<Rightarrow> nat \<Rightarrow> nat \<Rightarrow> nat" where
  "skip_space buf es s = (if s < es \<and> sh_space (buf s) then skip_space buf es (s + 1) else s)"
  by pat_completeness auto
termination
  by (relation "measure (\<lambda>(_, es, s). es - s)") auto

function skip_word :: "bytes \<Rightarrow> nat \<Rightarrow> nat \<Rightarrow> nat" where
  "skip_word buf es s =
     (if s < es \<and> \<not> sh_space (buf s) \<and> \<not> sh_symbol (buf s) then skip_word buf es (s + 1) else s)"
  by pat_completeness auto
termination
  by (relation "measure (\<lambda>(_, es, s). es - s)") auto

declare skip_space.simps [simp del] skip_word.simps [simp del]

text \<open>The token, its first position, the position after it, and the position of the next token.\<close>

definition gettoken :: "bytes \<Rightarrow> nat \<Rightarrow> nat \<Rightarrow> u8 \<times> nat \<times> nat \<times> nat" where
  "gettoken buf es s =
     (let q = skip_space buf es s; c = buf q;
          (ret, eq) =
            (if c = 0 then (c, q)
             else if c \<in> {124, 40, 41, 59, 38, 60} then (c, q + 1)
             else if c = 62 then (if buf (q + 1) = 62 then (43, q + 2) else (c, q + 1))
             else (97, skip_word buf es q))
      in (ret, q, eq, skip_space buf es eq))"

definition peek :: "bytes \<Rightarrow> nat \<Rightarrow> nat \<Rightarrow> u8 set \<Rightarrow> bool \<times> nat" where
  "peek buf es s toks = (let s = skip_space buf es s in (buf s \<noteq> 0 \<and> buf s \<in> toks, s))"

section \<open>Commands\<close>

definition MAXARGS :: nat where "MAXARGS = 10"

text \<open>A word is the pair of its first position and the position after it, \<open>argv[i]\<close> and \<open>eargv[i]\<close>.\<close>

datatype cmd =
    Execcmd "(nat \<times> nat) list"
  | Redircmd cmd "nat \<times> nat" u32 nat
  | Pipecmd cmd cmd
  | Listcmd cmd cmd
  | Backcmd cmd

datatype 'r presult = Ok 'r | Panic string | Out_of_fuel

fun andthen :: "'a presult \<Rightarrow> ('a \<Rightarrow> 'b presult) \<Rightarrow> 'b presult" where
  "andthen (Ok x) f = f x"
| "andthen (Panic m) f = Panic m"
| "andthen Out_of_fuel f = Out_of_fuel"

text \<open>The redirections read by \<open>parseredirs\<close>, in order; each wraps the command so far.\<close>

type_synonym redir = "(nat \<times> nat) \<times> u32 \<times> nat"

definition redircmds :: "redir list \<Rightarrow> cmd \<Rightarrow> cmd" where
  "redircmds rs c = fold (\<lambda>(w, mode, fd) c. Redircmd c w mode fd) rs c"

definition redir_of :: "u8 \<Rightarrow> nat \<times> nat \<Rightarrow> redir" where
  "redir_of tok w =
     (if tok = 60 then (w, 0, 0)
      else if tok = 62 then (w, 0x001 OR 0x200 OR 0x400, 1)
      else (w, 0x001 OR 0x200, 1))"

fun parseredirs :: "nat \<Rightarrow> bytes \<Rightarrow> nat \<Rightarrow> nat \<Rightarrow> redir list \<Rightarrow> (redir list \<times> nat) presult" where
  "parseredirs 0 buf es s rs = Out_of_fuel"
| "parseredirs (Suc n) buf es s rs =
     (case peek buf es s {60, 62} of
        (False, s) \<Rightarrow> Ok (rs, s)
      | (True, s) \<Rightarrow>
          (case gettoken buf es s of
             (tok, _, _, s) \<Rightarrow>
               (case gettoken buf es s of
                  (tok', q, eq, s) \<Rightarrow>
                    if tok' \<noteq> 97 then Panic ''missing file for redirection''
                    else parseredirs n buf es s (rs @ [redir_of tok (q, eq)]))))"

text \<open>The loop of \<open>parseexec\<close> over the arguments.\<close>

fun parseargs ::
    "nat \<Rightarrow> bytes \<Rightarrow> nat \<Rightarrow> nat \<Rightarrow> (nat \<times> nat) list \<Rightarrow> redir list \<Rightarrow> (cmd \<times> nat) presult" where
  "parseargs 0 buf es s args rs = Out_of_fuel"
| "parseargs (Suc n) buf es s args rs =
     (case peek buf es s {124, 41, 38, 59} of
        (True, s) \<Rightarrow> Ok (redircmds rs (Execcmd args), s)
      | (False, s) \<Rightarrow>
          (case gettoken buf es s of
             (tok, q, eq, s) \<Rightarrow>
               if tok = 0 then Ok (redircmds rs (Execcmd args), s)
               else if tok \<noteq> 97 then Panic ''syntax''
               else if MAXARGS \<le> length args + 1 then Panic ''too many args''
               else andthen (parseredirs n buf es s rs)
                 (\<lambda>(rs, s). parseargs n buf es s (args @ [(q, eq)]) rs)))"

text \<open>The loop of \<open>parseline\<close> over \<open>&\<close>.\<close>

fun parseback :: "nat \<Rightarrow> bytes \<Rightarrow> nat \<Rightarrow> nat \<Rightarrow> cmd \<Rightarrow> (cmd \<times> nat) presult" where
  "parseback 0 buf es s c = Out_of_fuel"
| "parseback (Suc n) buf es s c =
     (case peek buf es s {38} of
        (False, s) \<Rightarrow> Ok (c, s)
      | (True, s) \<Rightarrow> (case gettoken buf es s of (_, _, _, s) \<Rightarrow> parseback n buf es s (Backcmd c)))"

function (sequential) parseline :: "nat \<Rightarrow> bytes \<Rightarrow> nat \<Rightarrow> nat \<Rightarrow> (cmd \<times> nat) presult"
  and parsepipe :: "nat \<Rightarrow> bytes \<Rightarrow> nat \<Rightarrow> nat \<Rightarrow> (cmd \<times> nat) presult"
  and parseexec :: "nat \<Rightarrow> bytes \<Rightarrow> nat \<Rightarrow> nat \<Rightarrow> (cmd \<times> nat) presult"
  and parseblock :: "nat \<Rightarrow> bytes \<Rightarrow> nat \<Rightarrow> nat \<Rightarrow> (cmd \<times> nat) presult" where
  "parseline 0 buf es s = Out_of_fuel"
| "parseline (Suc n) buf es s =
     andthen (parsepipe n buf es s) (\<lambda>(c, s).
     andthen (parseback n buf es s c) (\<lambda>(c, s).
       case peek buf es s {59} of
         (False, s) \<Rightarrow> Ok (c, s)
       | (True, s) \<Rightarrow>
           (case gettoken buf es s of
              (_, _, _, s) \<Rightarrow> andthen (parseline n buf es s) (\<lambda>(c', s). Ok (Listcmd c c', s)))))"
| "parsepipe 0 buf es s = Out_of_fuel"
| "parsepipe (Suc n) buf es s =
     andthen (parseexec n buf es s) (\<lambda>(c, s).
       case peek buf es s {124} of
         (False, s) \<Rightarrow> Ok (c, s)
       | (True, s) \<Rightarrow>
           (case gettoken buf es s of
              (_, _, _, s) \<Rightarrow> andthen (parsepipe n buf es s) (\<lambda>(c', s). Ok (Pipecmd c c', s))))"
| "parseexec 0 buf es s = Out_of_fuel"
| "parseexec (Suc n) buf es s =
     (case peek buf es s {40} of
        (True, s) \<Rightarrow> parseblock n buf es s
      | (False, s) \<Rightarrow> andthen (parseredirs n buf es s []) (\<lambda>(rs, s). parseargs n buf es s [] rs))"
| "parseblock 0 buf es s = Out_of_fuel"
| "parseblock (Suc n) buf es s =
     (case peek buf es s {40} of
        (False, s) \<Rightarrow> Panic ''parseblock''
      | (True, s) \<Rightarrow>
          (case gettoken buf es s of
             (_, _, _, s) \<Rightarrow>
               andthen (parseline n buf es s) (\<lambda>(c, s).
                 case peek buf es s {41} of
                   (False, s) \<Rightarrow> Panic ''syntax - missing )''
                 | (True, s) \<Rightarrow>
                     (case gettoken buf es s of
                        (_, _, _, s) \<Rightarrow> andthen (parseredirs n buf es s []) (\<lambda>(rs, s). Ok (redircmds rs c, s))))))"
  by pat_completeness auto
termination
  by (relation "measure (case_sum (case_sum fst fst) (case_sum fst fst))") auto

text \<open>\<open>nulterminate\<close> ends each word of a command with a zero, in the order of the code.\<close>

fun nulterminate :: "cmd \<Rightarrow> bytes \<Rightarrow> bytes" where
  "nulterminate (Execcmd ws) buf = fold (\<lambda>(q, eq) buf. buf(eq := 0)) ws buf"
| "nulterminate (Redircmd c (q, eq) mode fd) buf = (nulterminate c buf)(eq := 0)"
| "nulterminate (Pipecmd l r) buf = nulterminate r (nulterminate l buf)"
| "nulterminate (Listcmd l r) buf = nulterminate r (nulterminate l buf)"
| "nulterminate (Backcmd c) buf = nulterminate c buf"

definition parse_fuel :: "nat \<Rightarrow> nat" where
  "parse_fuel n = 5 * n + 6"

definition parsecmd :: "bytes \<Rightarrow> (cmd \<times> bytes) presult option" where
  "parsecmd buf =
     do {
       es \<leftarrow> ulib_strlen buf;
       Some (andthen (parseline (parse_fuel es) buf es 0) (\<lambda>(c, s).
         case peek buf es s {} of
           (_, s) \<Rightarrow> if s \<noteq> es then Panic ''syntax'' else Ok (c, nulterminate c buf)))
     }"

section \<open>Positions\<close>

definition wordchar :: "bytes \<Rightarrow> nat \<Rightarrow> nat \<Rightarrow> bool" where
  "wordchar buf es i \<longleftrightarrow> i < es \<and> \<not> sh_space (buf i) \<and> \<not> sh_symbol (buf i)"

lemma skip_space_bounds: "s \<le> skip_space buf es s \<and> (s \<le> es \<longrightarrow> skip_space buf es s \<le> es)"
proof (induction buf es s rule: skip_space.induct)
  case (1 buf es s)
  then show ?case by (subst (1 2) skip_space.simps) auto
qed

lemma skip_space_stop: "skip_space buf es s < es \<Longrightarrow> \<not> sh_space (buf (skip_space buf es s))"
proof (induction buf es s rule: skip_space.induct)
  case (1 buf es s)
  then show ?case by (cases "s < es \<and> sh_space (buf s)") (simp_all add: skip_space.simps [of buf es s])
qed

lemma skip_word_bounds: "s \<le> skip_word buf es s \<and> (s \<le> es \<longrightarrow> skip_word buf es s \<le> es)"
proof (induction buf es s rule: skip_word.induct)
  case (1 buf es s)
  then show ?case by (subst (1 2) skip_word.simps) auto
qed

lemma skip_word_stop: "\<not> wordchar buf es (skip_word buf es s)"
proof (induction buf es s rule: skip_word.induct)
  case (1 buf es s)
  then show ?case by (cases "wordchar buf es s") (simp_all add: skip_word.simps [of buf es s] wordchar_def)
qed

lemma skip_word_all: "s \<le> i \<Longrightarrow> i < skip_word buf es s \<Longrightarrow> wordchar buf es i"
proof (induction buf es s rule: skip_word.induct)
  case (1 buf es s)
  show ?case
  proof (cases "wordchar buf es s")
    case True
    then have "skip_word buf es s = skip_word buf es (s + 1)" by (simp add: skip_word.simps [of buf es s] wordchar_def)
    then show ?thesis using 1 True by (cases "i = s") (auto simp: wordchar_def)
  qed (use 1 in \<open>simp add: skip_word.simps [of buf es s] wordchar_def split: if_splits\<close>)
qed

section \<open>Words in a stretch of the line\<close>

text \<open>Different words have a character between them.\<close>

definition apart :: "(nat \<times> nat) set \<Rightarrow> bool" where
  "apart W \<longleftrightarrow> (\<forall>w \<in> W. \<forall>w' \<in> W. w \<noteq> w' \<longrightarrow> snd w < fst w' \<or> snd w' < fst w)"

text \<open>\<open>W\<close> are words between positions \<open>s\<close> and \<open>s'\<close> of the line.\<close>

definition stretch :: "bytes \<Rightarrow> nat \<Rightarrow> nat \<Rightarrow> nat \<Rightarrow> (nat \<times> nat) set \<Rightarrow> bool" where
  "stretch buf es s s' W \<longleftrightarrow> s \<le> s' \<and> s' \<le> es \<and> apart W \<and>
     (\<forall>w \<in> W. s \<le> fst w \<and> fst w < snd w \<and> snd w \<le> s' \<and> (snd w = s' \<longrightarrow> \<not> wordchar buf es s') \<and>
       (\<forall>i. fst w \<le> i \<and> i < snd w \<longrightarrow> wordchar buf es i))"

lemma stretch_empty [simp]: "stretch buf es s s' {} \<longleftrightarrow> s \<le> s' \<and> s' \<le> es"
  by (auto simp: stretch_def apart_def)

lemma stretch_append:
  assumes "stretch buf es s s' W" "stretch buf es s' s'' W'"
  shows "stretch buf es s s'' (W \<union> W')"
proof -
  have before: "snd w < fst w'" if "w \<in> W" "w' \<in> W'" for w w'
  proof -
    have "snd w \<le> s'" "snd w = s' \<longrightarrow> \<not> wordchar buf es s'" "s' \<le> fst w'" "wordchar buf es (fst w')"
      using assms that by (auto simp: stretch_def)
    then show ?thesis by (cases "fst w' = s'") auto
  qed
  then have "apart (W \<union> W')" using assms by (auto simp: apart_def stretch_def)
  then show ?thesis using assms by (fastforce simp: stretch_def)
qed

lemma stretch_weaken:
  "stretch buf es s s' W \<Longrightarrow> r \<le> s \<Longrightarrow> s' \<le> t \<Longrightarrow> t \<le> es \<Longrightarrow> stretch buf es r t W"
  using stretch_append [of buf es r s "{}" s' W] stretch_append [of buf es r s' W t "{}"]
  by (auto simp: stretch_def)

section \<open>Tokens\<close>

text \<open>The line ends at \<open>es\<close>.\<close>

lemma peek_spec:
  assumes "peek buf es s toks = (b, s')" "s \<le> es" "buf es = 0"
  shows "s \<le> s'" "s' \<le> es" "b \<longleftrightarrow> buf s' \<noteq> 0 \<and> buf s' \<in> toks" "b \<Longrightarrow> s' < es" "skip_space buf es s' = s'"
proof -
  show 1: "s \<le> s'" "s' \<le> es" "b \<longleftrightarrow> buf s' \<noteq> 0 \<and> buf s' \<in> toks"
    using assms skip_space_bounds [of s buf es] by (auto simp: peek_def Let_def)
  show "s' < es" if b using that 1 assms(3) by (cases "s' = es") auto
  have "s' < es \<longrightarrow> \<not> sh_space (buf s')" using assms skip_space_stop [of buf es s] by (auto simp: peek_def Let_def)
  then show "skip_space buf es s' = s'" by (auto simp: skip_space.simps)
qed

lemma gettoken_spec:
  assumes "gettoken buf es s = (tok, q, eq, s')" "s \<le> es" "buf es = 0"
  shows "s \<le> q" "q \<le> eq" "eq \<le> s'" "s' \<le> es" "tok \<noteq> 0 \<Longrightarrow> q < eq" "tok = 97 \<Longrightarrow> stretch buf es s s' {(q, eq)}"
proof -
  let ?c = "buf q"
  have q: "q = skip_space buf es s" and s': "s' = skip_space buf es eq"
    using assms(1) by (auto simp: gettoken_def Let_def split: if_splits prod.splits)
  have qs: "s \<le> q" "q \<le> es" using assms(2) skip_space_bounds [of s buf es] q by auto
  have c: "?c \<noteq> 0 \<Longrightarrow> q < es" using qs assms(3) by (cases "q = es") auto
  have c1: "q < es \<Longrightarrow> buf (q + 1) = 62 \<Longrightarrow> q + 1 < es" using assms(3) by (cases "q + 1 = es") auto
  have w: "q < es \<Longrightarrow> \<not> sh_symbol ?c \<Longrightarrow> wordchar buf es q"
    using skip_space_stop [of buf es s] q by (simp add: wordchar_def)
  have sw: "q < skip_word buf es q" if "wordchar buf es q"
    using that skip_word_bounds [of "q + 1" buf es] skip_word.simps [of buf es q] by (simp add: wordchar_def)
  have t: "(tok, eq) = (if ?c = 0 then (?c, q) else if ?c \<in> {124, 40, 41, 59, 38, 60} then (?c, q + 1)
      else if ?c = 62 then (if buf (q + 1) = 62 then (43, q + 2) else (?c, q + 1)) else (97, skip_word buf es q))"
    using assms(1) q by (auto simp: gettoken_def Let_def split: if_splits prod.splits)
  have sym: "?c \<noteq> 0 \<Longrightarrow> ?c \<notin> {124, 40, 41, 59, 38, 60} \<Longrightarrow> ?c \<noteq> 62 \<Longrightarrow> wordchar buf es q"
    using c w by (auto simp: sh_symbol_def)
  have e: "q \<le> eq \<and> eq \<le> es \<and> (tok \<noteq> 0 \<longrightarrow> q < eq)"
  proof (cases "?c = 0")
    case False
    have "q + 1 \<le> eq \<and> eq \<le> es"
    proof (cases "?c \<in> {124, 40, 41, 59, 38, 60} \<or> ?c = 62")
      case True
      then have "eq = q + 1 \<or> eq = q + 2 \<and> buf (q + 1) = 62" using t False by (simp split: if_splits)
      then show ?thesis using c [OF False] c1 by (elim disjE conjE) simp_all
    next
      case False2: False
      then have "eq = skip_word buf es q" using t False by simp
      then show ?thesis using sw sym False False2 qs skip_word_bounds [of q buf es] by simp
    qed
    then show ?thesis by simp
  qed (use t qs in simp)
  then show "s \<le> q" "q \<le> eq" "eq \<le> s'" "s' \<le> es" "tok \<noteq> 0 \<Longrightarrow> q < eq"
    unfolding s' using qs skip_space_bounds [of eq buf es] by blast+
  assume "tok = 97"
  then have eq: "eq = skip_word buf es q" using t by (auto split: if_splits)
  then have "\<not> wordchar buf es eq" by (simp add: skip_word_stop)
  then have "stretch buf es s eq {(q, eq)}"
    using eq e \<open>tok = 97\<close> qs skip_word_all [of q _ buf es] by (auto simp: stretch_def apart_def)
  then show "stretch buf es s s' {(q, eq)}"
    unfolding s' using e skip_space_bounds [of eq buf es] by (blast intro: stretch_weaken)
qed

text \<open>A token that \<open>peek\<close> has seen is consumed.\<close>

lemma peeked_token:
  assumes "peek buf es s toks = (True, s1)" "gettoken buf es s1 = (tok, q, eq, s2)" "s \<le> es" "buf es = 0"
  shows "s < s2" "s2 \<le> es"
proof -
  note p = peek_spec [OF assms(1,3,4)]
  have "q = s1" using assms(2) p(5) by (auto simp: gettoken_def Let_def split: prod.splits)
  moreover have "tok \<noteq> 0" using assms(2) p(3,5) by (auto simp: gettoken_def Let_def split: prod.splits if_splits)
  ultimately show "s < s2" "s2 \<le> es" using p gettoken_spec [OF assms(2) p(2) assms(4)] by auto
qed

section \<open>Parsing ends and finds separate words\<close>

fun cwords :: "cmd \<Rightarrow> (nat \<times> nat) set" where
  "cwords (Execcmd ws) = set ws"
| "cwords (Redircmd c w mode fd) = insert w (cwords c)"
| "cwords (Pipecmd l r) = cwords l \<union> cwords r"
| "cwords (Listcmd l r) = cwords l \<union> cwords r"
| "cwords (Backcmd c) = cwords c"

lemma cwords_redircmds: "cwords (redircmds rs c) = cwords c \<union> fst ` set rs"
  unfolding redircmds_def by (induction rs arbitrary: c) auto

text \<open>A result that is a message, or has read to \<open>s'\<close> and found the words \<open>W0\<close> and those of the stretch.\<close>

definition reads :: "bytes \<Rightarrow> nat \<Rightarrow> nat \<Rightarrow> ('r \<Rightarrow> (nat \<times> nat) set) \<Rightarrow> (nat \<times> nat) set \<Rightarrow> ('r \<times> nat) presult \<Rightarrow> bool" where
  "reads buf es s ws W0 r \<longleftrightarrow>
     (case r of Ok (c, s') \<Rightarrow> \<exists>W. ws c = W0 \<union> W \<and> stretch buf es s s' W | Panic _ \<Rightarrow> True | Out_of_fuel \<Rightarrow> False)"

lemma reads_simps [simp]:
  "reads buf es s ws W0 (Panic m)" "\<not> reads buf es s ws W0 Out_of_fuel"
  "reads buf es s ws W0 (Ok (c, s')) \<longleftrightarrow> (\<exists>W. ws c = W0 \<union> W \<and> stretch buf es s s' W)"
  by (simp_all add: reads_def)

lemma reads_cases:
  assumes "reads buf es s ws W0 r"
  obtains m where "r = Panic m" | c s' W where "r = Ok (c, s')" "ws c = W0 \<union> W" "stretch buf es s s' W"
  using assms by (cases r) auto

text \<open>Going on from \<open>s'\<close> after the words \<open>W\<close> up to there.\<close>

lemma reads_after:
  assumes "stretch buf es s s' W" "reads buf es s' ws (W0 \<union> W) r"
  shows "reads buf es s ws W0 r"
  using assms(2)
proof (cases rule: reads_cases)
  case (2 c s'' W')
  have "stretch buf es s s'' (W \<union> W')" using assms(1) 2(3) by (rule stretch_append)
  then show ?thesis using 2 by (auto simp: Un_assoc)
qed simp

lemma reads_andthen:
  assumes "reads buf es s ws W0 r"
    and "\<And>c s' W. r = Ok (c, s') \<Longrightarrow> ws c = W0 \<union> W \<Longrightarrow> stretch buf es s s' W \<Longrightarrow> reads buf es s' ws' (W1 \<union> W) (f (c, s'))"
  shows "reads buf es s ws' W1 (andthen r f)"
  using assms(1)
proof (cases rule: reads_cases)
  case (2 c s' W)
  then show ?thesis using assms(2) [OF 2] by (simp add: reads_after)
qed simp

lemma parseredirs_reads:
  "5 * (es - s) + 1 \<le> n \<Longrightarrow> s \<le> es \<Longrightarrow> buf es = 0 \<Longrightarrow> W0 = fst ` set rs \<Longrightarrow>
     reads buf es s (\<lambda>rs. fst ` set rs) W0 (parseredirs n buf es s rs)"
proof (induction n arbitrary: s rs W0)
  case (Suc n)
  obtain b s1 where p: "peek buf es s {60, 62} = (b, s1)" by fastforce
  note ps = peek_spec [OF p Suc(3,4)]
  show ?case
  proof (cases b)
    case False
    then show ?thesis using p ps(1,2) Suc(5) by (simp add: exI [of _ "{}"])
  next
    case True
    obtain tok q0 eq0 s2 where g: "gettoken buf es s1 = (tok, q0, eq0, s2)" by (cases "gettoken buf es s1") auto
    obtain tok' q eq s3 where g': "gettoken buf es s2 = (tok', q, eq, s3)" by (cases "gettoken buf es s2") auto
    have s2: "s < s2" "s2 \<le> es" using peeked_token [OF p [unfolded True[THEN eqTrueI]] g Suc(3,4)] by auto
    note gs = gettoken_spec [OF g' s2(2) Suc(4)]
    show ?thesis
    proof (cases "tok' = 97")
      case word: True
      have "stretch buf es s s3 {(q, eq)}" by (rule stretch_weaken [OF gs(6) [OF word]]) (use s2 gs(4) in auto)
      moreover have "reads buf es s3 (\<lambda>rs. fst ` set rs) (W0 \<union> {(q, eq)}) (parseredirs n buf es s3 (rs @ [redir_of tok (q, eq)]))"
        using s2 gs Suc.prems by (intro Suc.IH) (auto simp: redir_of_def)
      ultimately show ?thesis using p g g' True word reads_after by (fastforce simp del: reads_simps)
    qed (use p g g' True in simp)
  qed
qed simp

lemma parseargs_reads:
  "5 * (es - s) + 2 \<le> n \<Longrightarrow> s \<le> es \<Longrightarrow> buf es = 0 \<Longrightarrow> W0 = set args \<union> fst ` set rs \<Longrightarrow>
     reads buf es s cwords W0 (parseargs n buf es s args rs)"
proof (induction n arbitrary: s args rs W0)
  case (Suc n)
  obtain b s1 where p: "peek buf es s {124, 41, 38, 59} = (b, s1)" by fastforce
  note ps = peek_spec [OF p Suc(3,4)]
  have fin: "reads buf es s cwords W0 (Ok (redircmds rs (Execcmd args), s'))" if "s \<le> s'" "s' \<le> es" for s'
    using that Suc(5) by (simp add: cwords_redircmds exI [of _ "{}"])
  show ?case
  proof (cases b)
    case True
    then show ?thesis using p fin [OF ps(1,2)] by (simp del: reads_simps)
  next
    case False
    obtain tok q eq s2 where g: "gettoken buf es s1 = (tok, q, eq, s2)" by (cases "gettoken buf es s1") auto
    note gs = gettoken_spec [OF g ps(2) Suc(4)]
    consider "tok = 0" | "tok \<noteq> 0" "tok \<noteq> 97 \<or> MAXARGS \<le> length args + 1" | "tok = 97" "\<not> MAXARGS \<le> length args + 1" by auto
    then show ?thesis
    proof cases
      case 1
      then show ?thesis using p g False fin [of s2] ps gs by (simp del: reads_simps)
    next
      case 2
      then show ?thesis using p g False by auto
    next
      case 3
      have st: "stretch buf es s s2 {(q, eq)}" by (rule stretch_weaken [OF gs(6) [OF 3(1)] ps(1) order_refl gs(4)])
      have less: "s < s2" using gs ps(1) 3 by simp
      have "reads buf es s2 cwords (W0 \<union> {(q, eq)})
          (andthen (parseredirs n buf es s2 rs) (\<lambda>(rs, s). parseargs n buf es s (args @ [(q, eq)]) rs))"
      proof (rule reads_andthen [OF parseredirs_reads])
        fix rs' :: "redir list" and s' W
        assume "fst ` set rs' = fst ` set rs \<union> W" "stretch buf es s2 s' W"
        then show "reads buf es s' cwords (W0 \<union> {(q, eq)} \<union> W)
            ((\<lambda>(rs, s). parseargs n buf es s (args @ [(q, eq)]) rs) (rs', s'))"
          using Suc.prems less by (auto simp: stretch_def intro!: Suc.IH)
      qed (use gs less Suc.prems in auto)
      then show ?thesis using reads_after [OF st] p g False 3 by (simp del: reads_simps)
    qed
  qed
qed simp

lemma parseback_reads:
  "5 * (es - s) + 1 \<le> n \<Longrightarrow> s \<le> es \<Longrightarrow> buf es = 0 \<Longrightarrow> W0 = cwords c \<Longrightarrow>
     reads buf es s cwords W0 (parseback n buf es s c)"
proof (induction n arbitrary: s c)
  case (Suc n)
  obtain b s1 where p: "peek buf es s {38} = (b, s1)" by fastforce
  note ps = peek_spec [OF p Suc(3,4)]
  show ?case
  proof (cases b)
    case False
    then show ?thesis using p ps(1,2) Suc(5) by (simp add: exI [of _ "{}"])
  next
    case True
    obtain tok q eq s2 where g: "gettoken buf es s1 = (tok, q, eq, s2)" by (cases "gettoken buf es s1") auto
    have s2: "s < s2" "s2 \<le> es" using peeked_token [OF p [unfolded True[THEN eqTrueI]] g Suc(3,4)] by auto
    have "reads buf es s2 cwords W0 (parseback n buf es s2 (Backcmd c))"
      using s2 Suc.prems by (intro Suc.IH) auto
    then show ?thesis using reads_after [of buf es s s2 "{}" cwords W0] s2 p g True by (simp del: reads_simps)
  qed
qed simp

text \<open>A separator seen by \<open>peek\<close> is skipped without reading words.\<close>

lemma reads_token:
  assumes "peek buf es s toks = (True, s1)" "gettoken buf es s1 = (tok, q, eq, s2)" "s \<le> es" "buf es = 0"
    and "s < s2 \<Longrightarrow> s2 \<le> es \<Longrightarrow> reads buf es s2 ws W0 r"
  shows "reads buf es s ws W0 r"
  using assms(5) peeked_token [OF assms(1-4)] reads_after [of buf es s s2 "{}" ws W0 r] by simp

lemma reads_stop:
  assumes "peek buf es s toks = (b, s1)" "s \<le> es" "buf es = 0" "ws c = W0"
  shows "reads buf es s ws W0 (Ok (c, s1))"
  using peek_spec [OF assms(1-3)] assms(4) by (simp add: exI [of _ "{}"])

lemma reads_Ok: "s \<le> es \<Longrightarrow> ws c = W0 \<Longrightarrow> reads buf es s ws W0 (Ok (c, s))"
  by (simp add: exI [of _ "{}"])

lemma stretch_le: "stretch buf es s s' W \<Longrightarrow> s \<le> s' \<and> s' \<le> es"
  by (simp add: stretch_def)

text \<open>The common form of \<open>parseline\<close> and \<open>parsepipe\<close> after the first command.\<close>

lemma reads_binary:
  assumes "s \<le> es" "buf es = 0" "\<And>c'. cwords (F c c') = cwords c \<union> cwords c'"
    and "\<And>s'. s < s' \<Longrightarrow> s' \<le> es \<Longrightarrow> reads buf es s' cwords {} (rec s')"
  shows "reads buf es s cwords (cwords c)
    (case peek buf es s toks of (False, s) \<Rightarrow> Ok (c, s)
     | (True, s) \<Rightarrow> (case gettoken buf es s of (_, _, _, s) \<Rightarrow> andthen (rec s) (\<lambda>(c', s). Ok (F c c', s))))"
proof -
  obtain b s1 where p: "peek buf es s toks = (b, s1)" by fastforce
  obtain tok q eq s2 where g: "gettoken buf es s1 = (tok, q, eq, s2)" by (cases "gettoken buf es s1") auto
  show ?thesis
  proof (cases b)
    case True
    have "reads buf es s2 cwords (cwords c) (andthen (rec s2) (\<lambda>(c', s). Ok (F c c', s)))" if "s < s2" "s2 \<le> es"
    proof (rule reads_andthen [OF assms(4)])
      fix c' s' W
      assume "cwords c' = {} \<union> W" "stretch buf es s2 s' W"
      then show "reads buf es s' cwords (cwords c \<union> W) ((\<lambda>(c', s). Ok (F c c', s)) (c', s'))"
        unfolding prod.case by (intro reads_Ok) (auto simp: assms(3) stretch_def)
    qed (use that in auto)
    then have "reads buf es s cwords (cwords c) (andthen (rec s2) (\<lambda>(c', s). Ok (F c c', s)))"
      by (rule reads_token [OF p [unfolded True [THEN eqTrueI]] g assms(1,2)])
    then show ?thesis using p g True by simp
  qed (use p reads_stop [where ws = cwords, OF p assms(1,2) refl] in simp)
qed

text \<open>The four functions, with their needs of fuel.\<close>

definition parse_ok :: "bytes \<Rightarrow> nat \<Rightarrow> nat \<Rightarrow> nat \<Rightarrow> (nat \<Rightarrow> (cmd \<times> nat) presult) \<Rightarrow> bool" where
  "parse_ok buf es k n f \<longleftrightarrow> (\<forall>s \<le> es. 5 * (es - s) + k \<le> n \<longrightarrow> reads buf es s cwords {} (f s))"

lemma parseline_ok:
  assumes "buf es = 0" "parse_ok buf es 6 n (parseline n buf es)" "parse_ok buf es 5 n (parsepipe n buf es)"
  shows "parse_ok buf es 6 (Suc n) (parseline (Suc n) buf es)"
  unfolding parse_ok_def
proof (intro allI impI)
  fix s
  assume s: "s \<le> es" "5 * (es - s) + 6 \<le> Suc n"
  let ?tail = "\<lambda>(c, s). case peek buf es s {59} of (False, s) \<Rightarrow> Ok (c, s)
     | (True, s) \<Rightarrow> (case gettoken buf es s of
         (_, _, _, s) \<Rightarrow> andthen (parseline n buf es s) (\<lambda>(c', s). Ok (Listcmd c c', s)))"
  have "reads buf es s1 cwords W (andthen (parseback n buf es s1 c) ?tail)"
    if "cwords c = W" "stretch buf es s s1 W" for c s1 W
  proof (rule reads_andthen [OF parseback_reads])
    fix c' s2 W2
    assume 2: "cwords c' = W \<union> W2" "stretch buf es s1 s2 W2"
    have "reads buf es s2 cwords (cwords c') (?tail (c', s2))"
      unfolding prod.case using s that 2 assms by (intro reads_binary) (auto simp: parse_ok_def stretch_def)
    then show "reads buf es s2 cwords (W \<union> W2) (?tail (c', s2))" using 2 by simp
  qed (use that s assms in \<open>auto simp: stretch_def\<close>)
  moreover have "reads buf es s cwords {} (parsepipe n buf es s)" using s assms(3) by (simp add: parse_ok_def)
  ultimately show "reads buf es s cwords {} (parseline (Suc n) buf es s)"
    unfolding parseline.simps by (intro reads_andthen [where ws = cwords]) auto
qed

lemma parsepipe_ok:
  assumes "buf es = 0" "parse_ok buf es 5 n (parsepipe n buf es)" "parse_ok buf es 4 n (parseexec n buf es)"
  shows "parse_ok buf es 5 (Suc n) (parsepipe (Suc n) buf es)"
  unfolding parse_ok_def
proof (intro allI impI)
  fix s
  assume s: "s \<le> es" "5 * (es - s) + 5 \<le> Suc n"
  let ?tail = "\<lambda>(c, s). case peek buf es s {124} of (False, s) \<Rightarrow> Ok (c, s)
     | (True, s) \<Rightarrow> (case gettoken buf es s of
         (_, _, _, s) \<Rightarrow> andthen (parsepipe n buf es s) (\<lambda>(c', s). Ok (Pipecmd c c', s)))"
  have "reads buf es s cwords {} (andthen (parseexec n buf es s) ?tail)"
  proof (rule reads_andthen [where ws = cwords])
    show "reads buf es s cwords {} (parseexec n buf es s)" using s assms(3) by (simp add: parse_ok_def)
    fix c s1 W
    assume 1: "cwords c = {} \<union> W" "stretch buf es s s1 W"
    have "reads buf es s1 cwords (cwords c) (?tail (c, s1))"
      unfolding prod.case using s 1 assms by (intro reads_binary) (auto simp: parse_ok_def stretch_def)
    then show "reads buf es s1 cwords ({} \<union> W) (?tail (c, s1))" using 1 by simp
  qed
  then show "reads buf es s cwords {} (parsepipe (Suc n) buf es s)" by (simp only: parsepipe.simps)
qed

lemma parseexec_ok:
  assumes "buf es = 0" "parse_ok buf es 3 n (parseblock n buf es)"
  shows "parse_ok buf es 4 (Suc n) (parseexec (Suc n) buf es)"
  unfolding parse_ok_def
proof (intro allI impI)
  fix s
  assume s: "s \<le> es" "5 * (es - s) + 4 \<le> Suc n"
  obtain b s1 where p: "peek buf es s {40} = (b, s1)" by fastforce
  note ps = peek_spec [OF p s(1) assms(1)]
  let ?r = "if b then parseblock n buf es s1 else andthen (parseredirs n buf es s1 []) (\<lambda>(rs, s). parseargs n buf es s [] rs)"
  have "reads buf es s1 cwords {} (andthen (parseredirs n buf es s1 []) (\<lambda>(rs, s). parseargs n buf es s [] rs))"
  proof (rule reads_andthen [OF parseredirs_reads])
    fix rs :: "redir list" and s2 W
    assume "fst ` set rs = fst ` set [] \<union> W" "stretch buf es s1 s2 W"
    then show "reads buf es s2 cwords ({} \<union> W) ((\<lambda>(rs, s). parseargs n buf es s [] rs) (rs, s2))"
      unfolding prod.case using s ps(1) assms(1) by (intro parseargs_reads) (auto simp: stretch_def)
  qed (use s ps(1,2) assms(1) in auto)
  then have "reads buf es s1 cwords {} ?r" using s ps(1,2) assms(2) by (auto simp: parse_ok_def)
  then have "reads buf es s cwords {} ?r" using reads_after [of buf es s s1 "{}" cwords "{}" ?r] ps(1,2) by simp
  then show "reads buf es s cwords {} (parseexec (Suc n) buf es s)" using p by (cases b) simp_all
qed

lemma parseblock_ok:
  assumes "buf es = 0" "parse_ok buf es 6 n (parseline n buf es)"
  shows "parse_ok buf es 3 (Suc n) (parseblock (Suc n) buf es)"
  unfolding parse_ok_def
proof (intro allI impI)
  fix s
  assume s: "s \<le> es" "5 * (es - s) + 3 \<le> Suc n"
  obtain b s1 where p: "peek buf es s {40} = (b, s1)" by fastforce
  obtain tok q eq s2 where g: "gettoken buf es s1 = (tok, q, eq, s2)" by (cases "gettoken buf es s1") auto
  let ?tail = "\<lambda>(c, s). case peek buf es s {41} of (False, s) \<Rightarrow> Panic ''syntax - missing )''
     | (True, s) \<Rightarrow> (case gettoken buf es s of
         (_, _, _, s) \<Rightarrow> andthen (parseredirs n buf es s []) (\<lambda>(rs, s). Ok (redircmds rs c, s)))"
  have tail: "reads buf es s3 cwords (cwords c) (?tail (c, s3))" if "s < s3" "s3 \<le> es" for c s3
  proof -
    obtain b' s4 where p': "peek buf es s3 {41} = (b', s4)" by fastforce
    obtain tok' q' eq' s5 where g': "gettoken buf es s4 = (tok', q', eq', s5)" by (cases "gettoken buf es s4") auto
    have "reads buf es s5 cwords (cwords c) (andthen (parseredirs n buf es s5 []) (\<lambda>(rs, s). Ok (redircmds rs c, s)))"
      if "s3 < s5" "s5 \<le> es"
    proof (rule reads_andthen [OF parseredirs_reads])
      fix rs :: "redir list" and s6 W
      assume "fst ` set rs = fst ` set [] \<union> W" "stretch buf es s5 s6 W"
      then show "reads buf es s6 cwords (cwords c \<union> W) ((\<lambda>(rs, s). Ok (redircmds rs c, s)) (rs, s6))"
        unfolding prod.case by (intro reads_Ok) (auto simp: cwords_redircmds stretch_def)
    qed (use that \<open>s < s3\<close> s assms(1) in auto)
    then show ?thesis
      using p' g' reads_token [OF _ g' that(2) assms(1), of "{41}" cwords "cwords c"] by (cases b') simp_all
  qed
  have "reads buf es s2 cwords {} (andthen (parseline n buf es s2) ?tail)" if "s < s2" "s2 \<le> es"
  proof (rule reads_andthen [where ws = cwords])
    show "reads buf es s2 cwords {} (parseline n buf es s2)" using assms(2) s that by (simp add: parse_ok_def)
    fix c s3 W
    assume "cwords c = {} \<union> W" "stretch buf es s2 s3 W"
    then show "reads buf es s3 cwords ({} \<union> W) (?tail (c, s3))" using tail [of s3 c] that by (auto simp: stretch_def)
  qed
  then show "reads buf es s cwords {} (parseblock (Suc n) buf es s)"
    using p g reads_token [OF _ g s(1) assms(1), of "{40}" cwords "{}"] by (cases b) simp_all
qed

lemma parse_all_ok:
  assumes "buf es = 0"
  shows "parse_ok buf es 6 n (parseline n buf es) \<and> parse_ok buf es 5 n (parsepipe n buf es) \<and>
    parse_ok buf es 4 n (parseexec n buf es) \<and> parse_ok buf es 3 n (parseblock n buf es)"
proof (induction n)
  case 0
  show ?case by (simp add: parse_ok_def)
next
  case (Suc n)
  then show ?case using assms by (simp add: parseline_ok parsepipe_ok parseexec_ok parseblock_ok del: parseline.simps parsepipe.simps parseexec.simps parseblock.simps)
qed

lemma ulib_strlen_from_SomeD:
  assumes "ulib_strlen_from s i = Some n"
  shows "s n = 0 \<and> i \<le> n \<and> (\<forall>j. i \<le> j \<and> j < n \<longrightarrow> s j \<noteq> 0)"
proof (rule ulib_strlen_from.raw_induct
    [where P = "\<lambda>s i n. s n = 0 \<and> i \<le> n \<and> (\<forall>j. i \<le> j \<and> j < n \<longrightarrow> s j \<noteq> 0)", OF _ assms])
  fix f s i n
  assume IH: "\<And>s i n. f s i = Some n \<Longrightarrow> s n = 0 \<and> i \<le> n \<and> (\<forall>j. i \<le> j \<and> j < n \<longrightarrow> s j \<noteq> 0)"
    and eq: "(if s i = 0 then Some i else f s (Suc i)) = Some n"
  show "s n = 0 \<and> i \<le> n \<and> (\<forall>j. i \<le> j \<and> j < n \<longrightarrow> s j \<noteq> 0)"
  proof (cases "s i = 0")
    case False
    with eq have *: "s n = 0 \<and> Suc i \<le> n \<and> (\<forall>j. Suc i \<le> j \<and> j < n \<longrightarrow> s j \<noteq> 0)"
      by (intro IH) simp
    have "s j \<noteq> 0" if "i \<le> j" "j < n" for j
      using * that False by (cases "j = i") auto
    with * show ?thesis by simp
  qed (use eq in auto)
qed

lemma ulib_strlen_SomeD: "ulib_strlen s = Some n \<Longrightarrow> s n = 0 \<and> (\<forall>i<n. s i \<noteq> 0)"
  using ulib_strlen_from_SomeD [of s 0 n] by (simp add: ulib_strlen_def)

section \<open>Terminating the words\<close>

lemma fold_zero_ends: "fold (\<lambda>(q, eq) buf. buf(eq := 0)) ws buf = (\<lambda>i. if i \<in> snd ` set ws then 0 else buf i)"
  by (induction ws arbitrary: buf) (auto simp: fun_eq_iff)

lemma nulterminate_eq: "nulterminate c buf = (\<lambda>i. if i \<in> snd ` cwords c then 0 else buf i)"
proof (induction c arbitrary: buf)
  case (Redircmd c w mode fd)
  then show ?case by (cases w) (auto simp: fun_eq_iff)
qed (auto simp: fold_zero_ends fun_eq_iff)

section \<open>More fuel does not change a result\<close>

lemma andthen_more:
  assumes "r \<noteq> Out_of_fuel \<Longrightarrow> r' = r" "\<And>x. f x \<noteq> Out_of_fuel \<Longrightarrow> f' x = f x"
  shows "andthen r f \<noteq> Out_of_fuel \<Longrightarrow> andthen r' f' = andthen r f"
  using assms by (cases r) auto

lemma parseredirs_more:
  "parseredirs n buf es s rs \<noteq> Out_of_fuel \<Longrightarrow> n \<le> m \<Longrightarrow> parseredirs m buf es s rs = parseredirs n buf es s rs"
proof (induction n arbitrary: m s rs)
  case (Suc n)
  then obtain m' where m: "m = Suc m'" "n \<le> m'" by (cases m) auto
  show ?case using Suc.prems(1) unfolding m(1)
    by (auto split: prod.splits bool.splits if_splits simp: Suc.IH [OF _ m(2)])
qed simp

lemma parseargs_more:
  "parseargs n buf es s args rs \<noteq> Out_of_fuel \<Longrightarrow> n \<le> m \<Longrightarrow> parseargs m buf es s args rs = parseargs n buf es s args rs"
proof (induction n arbitrary: m s args rs)
  case (Suc n)
  then obtain m' where m: "m = Suc m'" "n \<le> m'" by (cases m) auto
  have "andthen (parseredirs m' buf es s rs) (\<lambda>(rs, s). parseargs m' buf es s args rs) =
      andthen (parseredirs n buf es s rs) (\<lambda>(rs, s). parseargs n buf es s args rs)"
    if "andthen (parseredirs n buf es s rs) (\<lambda>(rs, s). parseargs n buf es s args rs) \<noteq> Out_of_fuel" for s args rs
  proof (rule andthen_more [OF parseredirs_more [OF _ m(2)] _ that])
    show "(case x of (rs, s) \<Rightarrow> parseargs n buf es s args rs) \<noteq> Out_of_fuel \<Longrightarrow>
        (case x of (rs, s) \<Rightarrow> parseargs m' buf es s args rs) = (case x of (rs, s) \<Rightarrow> parseargs n buf es s args rs)" for x
      by (cases x) (simp add: Suc.IH [OF _ m(2)])
  qed
  then show ?case using Suc.prems(1) unfolding m(1) by (auto split: prod.splits bool.splits if_splits)
qed simp

lemma parseback_more:
  "parseback n buf es s c \<noteq> Out_of_fuel \<Longrightarrow> n \<le> m \<Longrightarrow> parseback m buf es s c = parseback n buf es s c"
proof (induction n arbitrary: m s c)
  case (Suc n)
  then obtain m' where m: "m = Suc m'" "n \<le> m'" by (cases m) auto
  show ?case using Suc.prems(1) unfolding m(1)
    by (auto split: prod.splits bool.splits simp: Suc.IH [OF _ m(2)])
qed simp

definition more_fuel :: "(nat \<Rightarrow> nat \<Rightarrow> (cmd \<times> nat) presult) \<Rightarrow> nat \<Rightarrow> nat \<Rightarrow> bool" where
  "more_fuel f n m \<longleftrightarrow> (\<forall>s. f n s \<noteq> Out_of_fuel \<longrightarrow> f m s = f n s)"

lemma parse_more:
  "n \<le> m \<Longrightarrow> more_fuel (\<lambda>n. parseline n buf es) n m \<and> more_fuel (\<lambda>n. parsepipe n buf es) n m \<and>
     more_fuel (\<lambda>n. parseexec n buf es) n m \<and> more_fuel (\<lambda>n. parseblock n buf es) n m"
proof (induction n arbitrary: m)
  case (Suc n)
  then obtain m' where m: "m = Suc m'" "n \<le> m'" by (cases m) auto
  note IH = Suc.IH [OF m(2)]
  have r: "parseredirs n buf es s rs \<noteq> Out_of_fuel \<Longrightarrow> parseredirs m' buf es s rs = parseredirs n buf es s rs" for s rs
    using m(2) by (rule parseredirs_more [rotated])
  have "more_fuel (\<lambda>n. parseline n buf es) (Suc n) (Suc m')"
    unfolding more_fuel_def parseline.simps
    using IH parseback_more [OF _ m(2)]
    by (intro allI impI andthen_more) (auto simp: more_fuel_def split: prod.splits bool.splits intro!: andthen_more)
  moreover have "more_fuel (\<lambda>n. parsepipe n buf es) (Suc n) (Suc m')"
    unfolding more_fuel_def parsepipe.simps
    using IH by (intro allI impI andthen_more) (auto simp: more_fuel_def split: prod.splits bool.splits intro!: andthen_more)
  moreover have "more_fuel (\<lambda>n. parseexec n buf es) (Suc n) (Suc m')"
    unfolding more_fuel_def parseexec.simps
    using IH r parseargs_more [OF _ m(2)] by (auto simp: more_fuel_def split: prod.splits bool.splits intro!: andthen_more)
  moreover have "more_fuel (\<lambda>n. parseblock n buf es) (Suc n) (Suc m')"
    unfolding more_fuel_def parseblock.simps
    using IH r by (auto simp: more_fuel_def split: prod.splits bool.splits intro!: andthen_more)
  ultimately show ?case unfolding m(1) by blast
qed (simp add: more_fuel_def)

section \<open>Properties\<close>

text \<open>
  C15: The shell's recursive-descent parser ends on every line: it returns a command or one of its
  error messages, and its result does not depend on how much more fuel the model gives it.
\<close>
theorem parsecmd_terminates:
  assumes "ulib_strlen buf = Some es"
  shows "\<exists>r. parsecmd buf = Some r \<and> r \<noteq> Out_of_fuel \<and>
    (\<forall>k. parse_fuel es \<le> k \<longrightarrow> parseline k buf es 0 = parseline (parse_fuel es) buf es 0)"
proof -
  have "buf es = 0" using ulib_strlen_SomeD [OF assms] by simp
  then have r: "reads buf es 0 cwords {} (parseline (parse_fuel es) buf es 0)"
    using parse_all_ok [of buf es "parse_fuel es"] by (simp add: parse_ok_def parse_fuel_def)
  then have n: "parseline (parse_fuel es) buf es 0 \<noteq> Out_of_fuel" by auto
  let ?f = "\<lambda>(c, s). case peek buf es s {} of (_, s) \<Rightarrow> if s \<noteq> es then Panic ''syntax'' else Ok (c, nulterminate c buf)"
  have "parsecmd buf = Some (andthen (parseline (parse_fuel es) buf es 0) ?f)" using assms by (simp add: parsecmd_def)
  moreover have "andthen (parseline (parse_fuel es) buf es 0) ?f \<noteq> Out_of_fuel"
    using n by (cases "parseline (parse_fuel es) buf es 0") (simp_all split: prod.splits)
  moreover have "parseline k buf es 0 = parseline (parse_fuel es) buf es 0" if "parse_fuel es \<le> k" for k
    using parse_more [OF that, of buf es] n by (simp add: more_fuel_def)
  ultimately show ?thesis by blast
qed

text \<open>
  C17: When the parser accepts a line, every word of the command, argument or file name, is a string
  of the resulting buffer: its characters are those of the line and a zero follows. No zero
  written for one word falls into another.
\<close>
theorem parsecmd_words:
  assumes "parsecmd buf = Some (Ok (c, buf'))" "(q, eq) \<in> cwords c"
  shows "q < eq \<and> (\<forall>i. q \<le> i \<and> i < eq \<longrightarrow> buf' i = buf i \<and> buf i \<noteq> 0) \<and> buf' eq = 0"
proof -
  obtain es where es: "ulib_strlen buf = Some es" using assms(1) by (auto simp: parsecmd_def split: bind_splits)
  then have z: "buf es = 0" "\<forall>i<es. buf i \<noteq> 0" using ulib_strlen_SomeD by blast+
  obtain s where c: "parseline (parse_fuel es) buf es 0 = Ok (c, s)" "buf' = nulterminate c buf"
    using assms(1) es by (cases "parseline (parse_fuel es) buf es 0") (auto simp: parsecmd_def split: prod.splits if_splits)
  have "reads buf es 0 cwords {} (parseline (parse_fuel es) buf es 0)"
    using parse_all_ok [of buf es "parse_fuel es"] z by (simp add: parse_ok_def parse_fuel_def)
  then have st: "stretch buf es 0 s (cwords c)" using c by simp
  then have w: "q < eq" "\<forall>i. q \<le> i \<and> i < eq \<longrightarrow> wordchar buf es i" using assms(2) by (auto simp: stretch_def)
  have "i \<notin> snd ` cwords c" if i: "q \<le> i" "i < eq" for i
  proof
    assume "i \<in> snd ` cwords c"
    then obtain w where w': "w \<in> cwords c" "snd w = i" by auto
    then have "w \<noteq> (q, eq)" "fst w < i" using i st by (auto simp: stretch_def)
    moreover have "apart (cwords c)" using st by (simp add: stretch_def)
    ultimately show False using w' assms(2) i unfolding apart_def by fastforce
  qed
  then show ?thesis using w z assms(2) by (force simp: c(2) nulterminate_eq wordchar_def)
qed

text \<open>The line \<open>a>b\<close>, for the witnesses.\<close>

definition sh_line :: bytes where
  "sh_line i = (if i < 3 then [97, 62, 98] ! i else 0)"

lemma strlen_sh_line: "ulib_strlen sh_line = Some 3"
  by (simp add: ulib_strlen_def ulib_strlen_from.simps sh_line_def)

lemma parse_sh_line: "parseline (parse_fuel 3) sh_line 3 0 = Ok (Redircmd (Execcmd [(0, 1)]) (2, 3) 0x601 1, 3)"
  by code_simp

theorem parsecmd_terminates_witness:
  "\<exists>r. parsecmd sh_line = Some r \<and> r \<noteq> Out_of_fuel \<and>
    (\<forall>k. parse_fuel 3 \<le> k \<longrightarrow> parseline k sh_line 3 0 = parseline (parse_fuel 3) sh_line 3 0)"
  using parsecmd_terminates [OF strlen_sh_line] .

theorem parsecmd_words_witness:
  "\<exists>buf'. parsecmd sh_line = Some (Ok (Redircmd (Execcmd [(0, 1)]) (2, 3) 0x601 1, buf')) \<and>
     buf' 0 = 97 \<and> buf' 1 = 0 \<and> buf' 2 = 98 \<and> buf' 3 = 0"
proof -
  let ?c = "Redircmd (Execcmd [(0, 1)]) (2, 3) 0x601 1"
  obtain buf' where b: "parsecmd sh_line = Some (Ok (?c, buf'))"
    using parse_sh_line strlen_sh_line by (simp add: parsecmd_def peek_def skip_space.simps Let_def)
  show ?thesis using b parsecmd_words [OF b, of 0 1] parsecmd_words [OF b, of 2 3] by (simp add: sh_line_def)
qed

end
