(* ===== verification/Sh_Run.thy ===== *)
theory Sh_Run
  imports Sh
begin

text \<open>
  Running commands in the shell, \<open>runcmd\<close> of \<^verbatim>\<open>user/sh.c\<close>. The system calls that a process running
  a command makes are a script; a fork has the script of the child and that of the parent. The
  scripts are given a meaning over descriptor tables, for runs in which the calls succeed: which
  programs are executed and what their descriptors are.
\<close>

section \<open>Scripts\<close>

text \<open>A descriptor is a number or one of the two in the array \<open>p\<close> that \<open>pipe\<close> fills.\<close>

datatype fdref = Fd nat | P0 | P1

datatype script =
    S_exit int
  | S_exec "(nat \<times> nat) list" script
  | S_close fdref script
  | S_dup fdref script
  | S_open "nat \<times> nat" u32 script script
  | S_pipe script script
  | S_fork script script script
  | S_wait script

fun runcmd :: "cmd \<Rightarrow> script" where
  "runcmd (Execcmd ws) = (if ws = [] then S_exit 1 else S_exec ws (S_exit 0))"
| "runcmd (Redircmd c w mode fd) = S_close (Fd fd) (S_open w mode (S_exit 1) (runcmd c))"
| "runcmd (Listcmd l r) = S_fork (runcmd l) (S_wait (runcmd r)) (S_exit 1)"
| "runcmd (Pipecmd l r) =
     S_pipe (S_exit 1)
       (S_fork (S_close (Fd 1) (S_dup P1 (S_close P0 (S_close P1 (runcmd l)))))
         (S_fork (S_close (Fd 0) (S_dup P0 (S_close P0 (S_close P1 (runcmd r)))))
           (S_close P0 (S_close P1 (S_wait (S_wait (S_exit 0)))))
           (S_exit 1))
         (S_exit 1))"
| "runcmd (Backcmd c) = S_fork (runcmd c) (S_exit 0) (S_exit 1)"

section \<open>Descriptor tables\<close>

text \<open>What a descriptor stands for: something the shell was given, an opened file, an end of a pipe.\<close>

datatype target = Given nat | Opened "nat \<times> nat" u32 | Rd_end nat | Wr_end nat

type_synonym fdtable = "nat \<Rightarrow> target option"

text \<open>The kernel gives out the lowest free descriptor.\<close>

definition free_fd :: "fdtable \<Rightarrow> nat option" where
  "free_fd dt = find (\<lambda>i. dt i = None) [0..<16]"

fun fd_num :: "nat \<times> nat \<Rightarrow> fdref \<Rightarrow> nat" where
  "fd_num p (Fd n) = n"
| "fd_num p P0 = fst p"
| "fd_num p P1 = snd p"

text \<open>The programs executed, each with its arguments and descriptors; pipes are numbered from \<open>n\<close> on.\<close>

fun execs :: "script \<Rightarrow> nat \<times> nat \<Rightarrow> fdtable \<Rightarrow> nat \<Rightarrow> ((nat \<times> nat) list \<times> fdtable) list \<times> nat" where
  "execs (S_exit st) p dt n = ([], n)"
| "execs (S_exec ws k) p dt n = ([(ws, dt)], n)"
| "execs (S_close r k) p dt n = execs k p (dt(fd_num p r := None)) n"
| "execs (S_dup r k) p dt n =
     (case free_fd dt of None \<Rightarrow> execs k p dt n | Some i \<Rightarrow> execs k p (dt(i := dt (fd_num p r))) n)"
| "execs (S_open w mode bad k) p dt n =
     (case free_fd dt of None \<Rightarrow> execs bad p dt n | Some i \<Rightarrow> execs k p (dt(i := Some (Opened w mode))) n)"
| "execs (S_pipe bad k) p dt n =
     (case free_fd dt of
        None \<Rightarrow> execs bad p dt n
      | Some i \<Rightarrow>
         (case free_fd (dt(i := Some (Rd_end n))) of
            None \<Rightarrow> execs bad p dt n
          | Some j \<Rightarrow> execs k (i, j) (dt(i := Some (Rd_end n), j := Some (Wr_end n))) (n + 1)))"
| "execs (S_fork child par bad) p dt n =
     (let (xs, n) = execs child p dt n; (ys, n) = execs par p dt n in (xs @ ys, n))"
| "execs (S_wait k) p dt n = execs k p dt n"

section \<open>The intended wiring\<close>

text \<open>The simple commands of a command, each with its standard input and output.\<close>

fun wires :: "cmd \<Rightarrow> target \<Rightarrow> target \<Rightarrow> nat \<Rightarrow> ((nat \<times> nat) list \<times> target \<times> target) list \<times> nat" where
  "wires (Execcmd ws) i u n = (if ws = [] then [] else [(ws, i, u)], n)"
| "wires (Redircmd c w mode fd) i u n =
     (if fd = 0 then wires c (Opened w mode) u n else wires c i (Opened w mode) n)"
| "wires (Listcmd l r) i u n = (let (xs, n) = wires l i u n; (ys, n) = wires r i u n in (xs @ ys, n))"
| "wires (Pipecmd l r) i u n =
     (let (xs, m) = wires l i (Wr_end n) (n + 1); (ys, m) = wires r (Rd_end n) u m in (xs @ ys, m))"
| "wires (Backcmd c) i u n = wires c i u n"

text \<open>The redirections that the parser makes: of descriptors 0 and 1.\<close>

fun redirs_ok :: "cmd \<Rightarrow> bool" where
  "redirs_ok (Execcmd ws) \<longleftrightarrow> True"
| "redirs_ok (Redircmd c w mode fd) \<longleftrightarrow> fd \<le> 1 \<and> redirs_ok c"
| "redirs_ok (Listcmd l r) \<longleftrightarrow> redirs_ok l \<and> redirs_ok r"
| "redirs_ok (Pipecmd l r) \<longleftrightarrow> redirs_ok l \<and> redirs_ok r"
| "redirs_ok (Backcmd c) \<longleftrightarrow> redirs_ok c"

lemma free_fd_0 [simp]: "dt 0 = None \<Longrightarrow> free_fd dt = Some 0"
  by (simp add: free_fd_def upt_conv_Cons)

lemma free_fd_1 [simp]: "dt 0 \<noteq> None \<Longrightarrow> dt (Suc 0) = None \<Longrightarrow> free_fd dt = Some (Suc 0)"
  by (simp add: free_fd_def upt_conv_Cons)

lemma free_fd_SomeD: "free_fd dt = Some i \<Longrightarrow> dt i = None \<and> i < 16"
  by (auto simp: free_fd_def find_Some_iff)

text \<open>Two descriptors are free, for a pipe.\<close>

definition pipe_room :: "fdtable \<Rightarrow> bool" where
  "pipe_room dt \<longleftrightarrow> (\<exists>i j. free_fd dt = Some i \<and> free_fd (dt(i \<mapsto> Given 0)) = Some j)"

definition plug :: "fdtable \<Rightarrow> (nat \<times> nat) list \<times> target \<times> target \<Rightarrow> (nat \<times> nat) list \<times> fdtable" where
  "plug dt x = (case x of (ws, i, u) \<Rightarrow> (ws, dt(0 \<mapsto> i, 1 \<mapsto> u)))"

lemma plug_upd [simp]: "plug (dt(0 \<mapsto> x)) = plug dt" "plug (dt(Suc 0 \<mapsto> x)) = plug dt"
  by (auto simp: plug_def fun_eq_iff)

lemma free_fd_cong: "(\<And>k. k < 16 \<Longrightarrow> (dt k = None) = (dt' k = None)) \<Longrightarrow> free_fd dt = free_fd dt'"
  unfolding free_fd_def by (intro find_cong) auto

lemma pipe_room_cong: "(\<And>k. (dt k = None) = (dt' k = None)) \<Longrightarrow> pipe_room dt = pipe_room dt'"
proof -
  assume "\<And>k. (dt k = None) = (dt' k = None)"
  then have "free_fd dt = free_fd dt'" "free_fd (dt(i \<mapsto> Given 0)) = free_fd (dt'(i \<mapsto> Given 0))" for i
    by (intro free_fd_cong; simp)+
  then show ?thesis by (simp add: pipe_room_def)
qed

lemma execs_runcmd:
  "redirs_ok c \<Longrightarrow> dt 0 = Some i \<Longrightarrow> dt 1 = Some u \<Longrightarrow> pipe_room dt \<Longrightarrow>
     execs (runcmd c) p dt n = (map (plug dt) (fst (wires c i u n)), snd (wires c i u n))"
proof (induction c arbitrary: i u dt n p)
  case (Execcmd ws)
  then show ?case by (auto simp: plug_def fun_eq_iff)
next
  case (Redircmd c w mode fd)
  let ?o = "Some (Opened w mode)"
  have r: "pipe_room (dt(fd := ?o))" if "fd \<le> 1"
    using Redircmd.prems that by (subst pipe_room_cong [of _ dt]) (auto simp: le_Suc_eq)
  have fd: "fd = 0 \<or> fd = Suc 0" using Redircmd.prems by auto
  then show ?case
  proof
    assume "fd = 0"
    then show ?thesis using Redircmd r by simp
  next
    assume "fd = Suc 0"
    then show ?thesis using Redircmd r by simp
  qed
next
  case (Pipecmd l r)
  obtain a b where ab: "free_fd dt = Some a" "free_fd (dt(a \<mapsto> Given 0)) = Some b"
    using Pipecmd.prems by (auto simp: pipe_room_def)
  have a: "dt a = None" "a \<noteq> 0" "a \<noteq> 1" using free_fd_SomeD [OF ab(1)] Pipecmd.prems by (cases a, auto)+
  have b: "b \<noteq> a" "dt b = None" "b \<noteq> 0" "b \<noteq> 1" using free_fd_SomeD [OF ab(2)] Pipecmd.prems by (cases b, auto split: if_splits)+
  have b2: "free_fd (dt(a \<mapsto> Rd_end n)) = Some b" using ab(2) free_fd_cong [of "dt(a \<mapsto> Rd_end n)" "dt(a \<mapsto> Given 0)"] by simp
  let ?d = "dt(a \<mapsto> Rd_end n, b \<mapsto> Wr_end n)"
  have L: "?d(1 := None, 1 := ?d b, a := None, b := None) = dt(1 \<mapsto> Wr_end n)"
    and R: "?d(0 := None, 0 := ?d a, a := None, b := None) = dt(0 \<mapsto> Rd_end n)"
    using a b by (auto simp: fun_eq_iff)
  have rooms: "pipe_room (dt(1 \<mapsto> x))" "pipe_room (dt(0 \<mapsto> x))" for x
    using Pipecmd.prems by (auto simp: pipe_room_cong [of "dt(_ \<mapsto> x)" dt])
  have l: "execs (runcmd l) p (dt(1 \<mapsto> Wr_end n)) m =
      (map (plug dt) (fst (wires l i (Wr_end n) m)), snd (wires l i (Wr_end n) m))" for p m
    by (subst Pipecmd.IH(1) [where i = i and u = "Wr_end n"]) (use Pipecmd.prems rooms in simp_all)
  have r: "execs (runcmd r) p (dt(0 \<mapsto> Rd_end n)) m =
      (map (plug dt) (fst (wires r (Rd_end n) u m)), snd (wires r (Rd_end n) u m))" for p m
    by (subst Pipecmd.IH(2) [where i = "Rd_end n" and u = u]) (use Pipecmd.prems rooms in simp_all)
  have left: "execs (S_close (Fd 1) (S_dup P1 (S_close P0 (S_close P1 k)))) (a, b) ?d m = execs k (a, b) (dt(1 \<mapsto> Wr_end n)) m" for k m
    using a b Pipecmd.prems L by (simp add: fun_upd_twist)
  have right: "execs (S_close (Fd 0) (S_dup P0 (S_close P0 (S_close P1 k)))) (a, b) ?d m = execs k (a, b) (dt(0 \<mapsto> Rd_end n)) m" for k m
    using a b Pipecmd.prems R by (simp add: fun_upd_twist)
  have wait: "execs (S_close P0 (S_close P1 (S_wait (S_wait (S_exit 0))))) q d m = ([], m)" for q d m
    by simp
  show ?case
    unfolding runcmd.simps execs.simps(6) ab(1) b2 option.case execs.simps(7) left right l r wait
    by (simp add: Let_def split: prod.splits)
next
  case (Listcmd l r)
  then show ?case by (simp add: Let_def split: prod.splits)
next
  case (Backcmd c)
  then show ?case by (simp add: Let_def split: prod.splits)
qed

section \<open>Parsed commands\<close>

definition ok_if :: "('r \<Rightarrow> bool) \<Rightarrow> ('r \<times> nat) presult \<Rightarrow> bool" where
  "ok_if Q r \<longleftrightarrow> (\<forall>x s. r = Ok (x, s) \<longrightarrow> Q x)"

lemma ok_if_simps [simp]:
  "ok_if Q (Ok (x, s)) \<longleftrightarrow> Q x" "ok_if Q (Panic m)" "ok_if Q Out_of_fuel"
  by (auto simp: ok_if_def)

lemma ok_if_andthen:
  "ok_if Q r \<Longrightarrow> (\<And>x s. Q x \<Longrightarrow> ok_if Q' (f (x, s))) \<Longrightarrow> ok_if Q' (andthen r f)"
  by (cases r) auto

abbreviation fds_ok :: "redir list \<Rightarrow> bool" where
  "fds_ok rs \<equiv> \<forall>r \<in> set rs. snd (snd r) \<le> 1"

lemma redirs_ok_redircmds: "redirs_ok c \<Longrightarrow> fds_ok rs \<Longrightarrow> redirs_ok (redircmds rs c)"
  unfolding redircmds_def by (induction rs arbitrary: c) auto

lemma parseredirs_fds: "fds_ok rs \<Longrightarrow> ok_if fds_ok (parseredirs n buf es s rs)"
  by (induction n buf es s rs rule: parseredirs.induct) (auto simp: redir_of_def split: prod.splits bool.splits)

lemma parseargs_redirs: "fds_ok rs \<Longrightarrow> ok_if redirs_ok (parseargs n buf es s args rs)"
  by (induction n arbitrary: s args rs)
    (auto intro!: ok_if_andthen [OF parseredirs_fds] redirs_ok_redircmds
      split: prod.splits bool.splits)

lemma parseback_redirs: "redirs_ok c \<Longrightarrow> ok_if redirs_ok (parseback n buf es s c)"
  by (induction n arbitrary: s c) (auto split: prod.splits bool.splits)

lemma parse_redirs:
  "ok_if redirs_ok (parseline n buf es s)" "ok_if redirs_ok (parsepipe n buf es s)"
  "ok_if redirs_ok (parseexec n buf es s)" "ok_if redirs_ok (parseblock n buf es s)"
proof (induction n arbitrary: s)
  case (Suc n)
  { case 1 show ?case
      by (auto intro!: ok_if_andthen [OF Suc(2)] ok_if_andthen [OF parseback_redirs] ok_if_andthen [OF Suc(1)]
        split: prod.splits bool.splits) }
  { case 2 show ?case
      by (auto intro!: ok_if_andthen [OF Suc(3)] ok_if_andthen [OF Suc(2)] split: prod.splits bool.splits) }
  { case 3 show ?case
      by (auto intro!: Suc(4) ok_if_andthen [OF parseredirs_fds] parseargs_redirs split: prod.splits bool.splits) }
  { case 4 show ?case
      by (fastforce intro!: ok_if_andthen [OF parseredirs_fds] ok_if_andthen [OF Suc(1)] redirs_ok_redircmds
        split: prod.splits bool.splits) }
qed simp_all

lemma parsecmd_redirs:
  assumes "parsecmd buf = Some (Ok (c, buf'))"
  shows "redirs_ok c"
proof -
  obtain es s where "parseline (parse_fuel es) buf es 0 = Ok (c, s)"
  proof -
    obtain es where es: "ulib_strlen buf = Some es" using assms by (auto simp: parsecmd_def split: bind_splits)
    then show ?thesis
      using assms that by (cases "parseline (parse_fuel es) buf es 0") (auto simp: parsecmd_def split: prod.splits if_splits)
  qed
  then show ?thesis using parse_redirs(1) [of "parse_fuel es" buf es 0] by simp
qed

text \<open>
  C18: Running an accepted command line with the descriptors 0 and 1 open and two more free: the
  programs executed are the simple commands of the line, in order, and each has the descriptors of
  the shell except for 0 and 1, which are those that the redirections and pipes of the line call
  for. In particular no program keeps an end of a pipe under another number, so the reader of a
  pipe sees its end when the writers are gone.
\<close>
theorem runcmd_wires:
  assumes "parsecmd buf = Some (Ok (c, buf'))" "dt 0 = Some i" "dt 1 = Some u" "pipe_room dt"
  shows "execs (runcmd c) p dt n = (map (plug dt) (fst (wires c i u n)), snd (wires c i u n))"
  using execs_runcmd [OF parsecmd_redirs [OF assms(1)] assms(2-4)] .

text \<open>The line \<open>a|b\<close>, run with the three standard descriptors.\<close>

definition pipe_line :: bytes where
  "pipe_line i = (if i < 3 then [97, 124, 98] ! i else 0)"

definition std_fds :: fdtable where
  "std_fds k = (if k < 3 then Some (Given k) else None)"

lemma strlen_pipe_line: "ulib_strlen pipe_line = Some 3"
  by (simp add: ulib_strlen_def ulib_strlen_from.simps pipe_line_def)

lemma parse_pipe_line: "parseline (parse_fuel 3) pipe_line 3 0 = Ok (Pipecmd (Execcmd [(0, 1)]) (Execcmd [(2, 3)]), 3)"
  by code_simp

lemma pipe_room_std: "pipe_room std_fds"
proof -
  have "free_fd std_fds = Some 3" "free_fd (std_fds(3 \<mapsto> Given 0)) = Some 4" by code_simp+
  then show ?thesis by (auto simp: pipe_room_def)
qed

theorem runcmd_wires_witness:
  "execs (runcmd (Pipecmd (Execcmd [(0, 1)]) (Execcmd [(2, 3)]))) (0, 0) std_fds 0 =
     ([([(0, 1)], std_fds(0 \<mapsto> Given 0, 1 \<mapsto> Wr_end 0)), ([(2, 3)], std_fds(0 \<mapsto> Rd_end 0, 1 \<mapsto> Given 1))], 1)"
proof -
  let ?c = "Pipecmd (Execcmd [(0, 1)]) (Execcmd [(2, 3)])"
  obtain buf' where b: "parsecmd pipe_line = Some (Ok (?c, buf'))"
    using parse_pipe_line strlen_pipe_line by (simp add: parsecmd_def peek_def skip_space.simps Let_def)
  show ?thesis
    using runcmd_wires [OF b _ _ pipe_room_std, of "Given 0" "Given 1" "(0, 0)" 0] by (simp add: std_fds_def plug_def)
qed

end
