(* ===== verification/Fs_Alloc.thy ===== *)
theory Fs_Alloc
  imports Fs
begin

text \<open>
  Blocks and inodes on disk: what the allocation of blocks, \<open>iupdate\<close> and \<open>ilock\<close> of \<^verbatim>\<open>kernel/fs.c\<close> do
  to the contents of the disk as the cache shows them, inside a transaction.
\<close>

section \<open>Transactions\<close>

abbreviation cur :: "u32 \<Rightarrow> 'a bio_scheme \<Rightarrow> u32 \<Rightarrow> bytes" where
  "cur d s \<equiv> view (bio_abs d s)"

text \<open>Inside a transaction, with room in the log for \<open>k\<close> further blocks.\<close>

definition in_tx :: "u32 \<Rightarrow> nat \<Rightarrow> 'a logged_scheme \<Rightarrow> bool" where
  "in_tx d k s \<longleftrightarrow> log_ready d s \<and> 1 \<le> outstanding (the_log s) \<and> lsize (the_log s) \<le> int NBUF \<and>
     lh_n (lh (the_log s)) + int k < lsize (the_log s)"

definition in_log_area :: "'a logged_scheme \<Rightarrow> u32 \<Rightarrow> bool" where
  "in_log_area s b = in_log (the_log s) b"

lemma bio_rest_fs:
  fixes s :: "'a fsys_scheme"
  shows "sb (bio_rest s) = sb s" "itable (bio_rest s) = itable s" "the_log (bio_rest s) = the_log s"
    "slocks (bio_rest s) (Ch_inode ip) = slocks s (Ch_inode ip)" "kobj (bio_rest s) = kobj s"
  by (simp_all add: bio_rest_def)

lemma fs_rest:
  fixes s :: "'a fsys_scheme"
  assumes "bio_rest s' = bio_rest s"
  shows "sb s' = sb s" "itable s' = itable s" "the_log s' = the_log s" "kobj s' = kobj s"
  using assms bio_rest_fs by metis+

lemma fs_rest_log:
  fixes s :: "'a fsys_scheme"
  assumes "bio_rest s' = (bio_rest s)\<lparr>the_log := l\<rparr>"
  shows "sb s' = sb s" "itable s' = itable s" "kobj s' = kobj s"
  using assms bio_rest_fs(1,2,5) [of s'] by (simp_all add: bio_rest_fs)

lemma log_ready_abs:
  assumes "log_ready d s" "bio_inv d s'" "bio_abs d s' = bio_abs d s"
  shows "log_ready d s'"
proof -
  have "the_log s' = the_log s" using the_log_abs assms(3) by metis
  then show ?thesis using assms by (simp add: log_ready_def)
qed

text \<open>The state after the block \<open>b\<close> was read into the buffer \<open>i\<close>.\<close>

definition read_state :: "u32 \<Rightarrow> u32 \<Rightarrow> nat \<Rightarrow> 'a bio_scheme \<Rightarrow> 'a bio_scheme \<Rightarrow> bool" where
  "read_state d b i s s1 \<longleftrightarrow> bio_inv d s1 \<and> bio_abs d s1 = c_read b i (bio_abs d s) \<and>
     (0 < refs (bio_abs d s) b \<or> cur d s b = dsk (bio_abs d s) b)"

lemma fs_look:
  fixes s :: "'a logged_scheme"
  assumes "log_ready d s"
  shows "\<exists>i s1 s2. bread d b s = Some (i, s1) \<and> bdata (bufs s1 i) = cur d s b \<and> bio_rest s1 = bio_rest s \<and>
    brelse i s1 = Some s2 \<and> log_ready d s2 \<and> bio_abs d s2 = bio_abs d s \<and> read_state d b i s s1"
proof -
  note R = log_readyD [OF assms refl]
  let ?H = "home (the_log s) ` {..<logn (the_log s)}"
  have pin: "\<not> busy (bio_abs d s) c" "hand (bio_abs d s) c = None" "refs (bio_abs d s) c = (if c \<in> ?H then 1 else 0)" for c
    using R(4) by (simp_all add: pinned_def)
  have "card ?H < NBUF" using card_image_le [of "{..<logn (the_log s)}" "home (the_log s)"] R(3) by (auto simp: log_ok_def nat_less_iff)
  then have room: "room NBUF b (bio_abs d s)" "refs (bio_abs d s) b < 2 ^ 32 - 1" using pinned_refs [OF R(4)] pin(3) by (simp_all add: room_def)
  have w: "0 < refs (bio_abs d s) b \<or> cur d s b = dsk (bio_abs d s) b" using R(6) pin(3) by auto
  obtain i s1 s2 where 1: "bread d b s = Some (i, s1)" "bio_inv d s1" "bdata (bufs s1 i) = cur d s b"
      "bio_abs d s1 = c_read b i (bio_abs d s)" "brelse i s1 = Some s2" "bio_inv d s2" "bio_abs d s2 = bio_abs d s"
    using bc.read_release [OF R(1) pin(1) room(2,1) w pin(2)] by blast
  have "rest (bio_abs d s1) = rest (bio_abs d s)" by (simp add: 1(4) c_defs)
  then show ?thesis using 1 w log_ready_abs [OF assms 1(6,7)] unfolding bio_abs_sel read_state_def by blast
qed

text \<open>Changes outside of the cache and the log.\<close>

lemma cache_frame:
  fixes s t :: "'a logged_scheme"
  assumes "bufs t = bufs s" "disk t = disk s" "dwrites t = dwrites s" "the_log t = the_log s" "procs t = procs s" "cpu_tab t = cpu_tab s" "hart t = hart s"
    "\<And>i. slocks t (Ch_buf i) = slocks s (Ch_buf i)"
  shows "bio_inv d t = bio_inv d s" "log_ready d t = log_ready d s" "bio_abs d t = (bio_abs d s)\<lparr>rest := bio_rest t\<rparr>"
proof -
  have "caches d t = caches d s" using assms(1) by (simp add: caches_def fun_eq_iff)
  then have "buf_of d t = buf_of d s" by (intro ext) (simp add: buf_of_def)
  moreover have my: "myproc t = myproc s" "mypid t = mypid s" using assms(5,6,7) by (simp_all add: mypid_def myproc_def mycpu_def)
  ultimately show abs: "bio_abs d t = (bio_abs d s)\<lparr>rest := bio_rest t\<rparr>" using assms unfolding bio_abs_def by (simp cong: option.case_cong if_cong)
  show inv: "bio_inv d t = bio_inv d s" using my assms by (simp add: bio_inv_def)
  show "log_ready d t = log_ready d s" using assms(4) inv by (simp add: log_ready_def pinned_def abs)
qed

lemma fs_release:
  fixes s s1 t :: "'a logged_scheme"
  assumes "log_ready d s" "read_state d b i s s1"
    and "bufs t = bufs s1" "disk t = disk s1" "dwrites t = dwrites s1" "the_log t = the_log s1" "procs t = procs s1" "cpu_tab t = cpu_tab s1"
    "hart t = hart s1" "\<And>i. slocks t (Ch_buf i) = slocks s1 (Ch_buf i)"
  shows "\<exists>s2. brelse i t = Some s2 \<and> log_ready d s2 \<and> cur d s2 = cur d s \<and> bio_rest s2 = bio_rest t \<and> dwrites s2 = dwrites s"
proof -
  note F = cache_frame [OF assms(3-10), of d]
  have 1: "bio_inv d s1" "bio_abs d s1 = c_read b i (bio_abs d s)" "0 < refs (bio_abs d s) b \<or> cur d s b = dsk (bio_abs d s) b"
    using assms(2) by (simp_all add: read_state_def)
  have pin: "\<not> busy (bio_abs d s) b" "hand (bio_abs d s) b = None" using log_readyD(4) [OF assms(1) refl] by (simp_all add: pinned_def)
  have t: "bio_inv d t" "bio_abs d t = (c_read b i (bio_abs d s))\<lparr>rest := bio_rest t\<rparr>" using F 1 by simp_all
  have "hand (bio_abs d t) b = Some i" "1 < refs (bio_abs d t) b \<or> cur d t b = dsk (bio_abs d t) b" using 1(3) by (auto simp: t(2) c_defs)
  then obtain s2 where 2: "brelse i t = Some s2" "bio_inv d s2" "bio_abs d s2 = c_release b (bio_abs d t)" using bc.rel [OF t(1)] by blast
  have "c_release b ((c_read b i (bio_abs d s))\<lparr>rest := bio_rest t\<rparr>) = (c_release b (c_read b i (bio_abs d s)))\<lparr>rest := bio_rest t\<rparr>"
    by (simp add: c_defs)
  then have a: "bio_abs d s2 = (bio_abs d s)\<lparr>rest := bio_rest t\<rparr>" unfolding 2(3) t(2) c_release_read [OF pin] .
  have l: "the_log s2 = the_log s"
    using a the_log_rest [of s2] the_log_rest [of t] the_log_abs [of d s1 s] assms(6) bio_abs_sel(3) [of d s2] by (simp add: 1(2) c_defs)
  have "log_ready d s2" using assms(1) 2(2) l by (simp add: log_ready_def a pinned_def)
  moreover have "bio_rest s2 = bio_rest t" "dwrites s2 = dwrites s" using a bio_abs_sel(2,3) [of d s2] by (simp_all add: bio_abs_sel)
  ultimately show ?thesis using 2(1) by (simp add: a)
qed

lemma fs_update:
  fixes s :: "'a logged_scheme"
  assumes "in_tx d (Suc k) s" "\<not> in_log_area s b"
  shows "\<exists>i s1 s2 s3. bread d b s = Some (i, s1) \<and> bdata (bufs s1 i) = cur d s b \<and> bio_rest s1 = bio_rest s \<and>
    log_write i (upd_data i f s1) = Some s2 \<and> brelse i s2 = Some s3 \<and> in_tx d k s3 \<and> in_log_area s3 = in_log_area s \<and>
    cur d s3 = (cur d s)(b := f (cur d s b)) \<and> bio_rest s3 = (bio_rest s)\<lparr>the_log := the_log s3\<rparr> \<and> dwrites s3 = dwrites s"
proof -
  note t = assms(1) [unfolded in_tx_def]
  obtain i s1 s2 s3 where 1: "bread d b s = Some (i, s1)" "bdata (bufs s1 i) = cur d s b"
      "log_write i (upd_buf i (\<lambda>x. x\<lparr>bdata := f (cur d s b)\<rparr>) s1) = Some s2" "brelse i s2 = Some s3" "log_ready d s3"
      "cur d s3 = (cur d s)(b := f (cur d s b))" "dwrites s3 = dwrites s"
      "lh_n (lh (the_log s3)) = lh_n (lh (the_log s)) + (if b \<in> home (the_log s) ` {..<logn (the_log s)} then 0 else 1)"
      "the_log s3 = (the_log s)\<lparr>lh := lh (the_log s3)\<rparr>" "bio_rest s1 = bio_rest s" "bio_rest s3 = (bio_rest s)\<lparr>the_log := the_log s3\<rparr>"
    using log_update_spec [of d s b "f (cur d s b)"] t assms(2) unfolding in_log_area_def by fastforce
  have l: "lsize (the_log s3) = lsize (the_log s)" "outstanding (the_log s3) = outstanding (the_log s)" "in_log (the_log s3) = in_log (the_log s)"
    by (subst 1(9), simp add: in_log_def fun_eq_iff)+
  have "in_tx d k s3" using t 1(5,8) l by (auto simp: in_tx_def split: if_splits)
  moreover have "upd_data i f s1 = upd_buf i (\<lambda>x. x\<lparr>bdata := f (cur d s b)\<rparr>) s1" by (simp add: 1(2))
  moreover have "in_log_area s3 = in_log_area s" using l(3) by (simp add: in_log_area_def fun_eq_iff)
  ultimately show ?thesis using 1 by metis
qed

section \<open>The free bitmap\<close>

text \<open>Block \<open>n\<close> is free according to the bitmap.\<close>

definition block_free :: "u32 \<Rightarrow> 'a fsys_scheme \<Rightarrow> nat \<Rightarrow> bool" where
  "block_free d s n \<longleftrightarrow> bmap_clear (cur d s (BBLOCK (of_nat n) (sb s))) (n mod BPB)"

lemma unat_of_nat_small: "n < 2 ^ 32 \<Longrightarrow> unat (of_nat n :: u32) = n"
  by (simp add: unat_of_nat take_bit_nat_eq_self)

lemma BBLOCK_of_nat: "n < 2 ^ 32 \<Longrightarrow> BBLOCK (of_nat n) x = of_nat (n div BPB) + sb_bmapstart x"
proof -
  assume "n < 2 ^ 32"
  then have "unat (of_nat n :: u32) = n" "unat (of_nat BPB :: u32) = BPB"
    by (simp_all add: unat_of_nat_small BPB_def BSIZE_def)
  then show ?thesis by (simp add: BBLOCK_def word_arith_nat_div)
qed

lemma BBLOCK_same: "i < BPB \<Longrightarrow> BPB * k + i < 2 ^ 32 \<Longrightarrow> BBLOCK (of_nat (BPB * k + i)) x = BBLOCK (of_nat (BPB * k)) x"
  using BBLOCK_of_nat [of "BPB * k + i" x] BBLOCK_of_nat [of "BPB * k" x] by (simp add: BPB_def BSIZE_def)

lemma find_map_shift: "find P (map f xs) = map_option f (find (P \<circ> f) xs)"
  by (induction xs) auto

lemma find_append: "find P (xs @ ys) = (case find P xs of Some x \<Rightarrow> Some x | None \<Rightarrow> find P ys)"
  by (induction xs) auto

text \<open>The search of one block of the bitmap, and the rest of the search.\<close>

lemma find_free_chunk:
  assumes "BPB * k < N" "N < 2 ^ 32" "b = (of_nat (BPB * k) :: u32)"
  shows "find (block_free d s) [BPB * k..<N] =
    (case find (bmap_clear (cur d s (BBLOCK b (sb s)))) [0..<min BPB (N - BPB * k)] of
       Some i \<Rightarrow> Some (BPB * k + i)
     | None \<Rightarrow> find (block_free d s) [BPB * Suc k..<N])"
proof -
  let ?m = "min BPB (N - BPB * k)"
  have "[BPB * k..<N] = [BPB * k..<BPB * k + ?m] @ [BPB * k + ?m..<N]"
    using assms(1) upt_add_eq_append [of "BPB * k" "BPB * k + ?m" "N - (BPB * k + ?m)"] by simp
  also have "[BPB * k + ?m..<N] = [BPB * Suc k..<N]" by (auto simp: min_def add.commute)
  also have "[BPB * k..<BPB * k + ?m] = map (\<lambda>i. BPB * k + i) [0..<?m]" by (simp add: map_add_upt add.commute)
  finally have e: "[BPB * k..<N] = map (\<lambda>i. BPB * k + i) [0..<?m] @ [BPB * Suc k..<N]" .
  have "find (block_free d s \<circ> (\<lambda>i. BPB * k + i)) [0..<?m] = find (bmap_clear (cur d s (BBLOCK b (sb s)))) [0..<?m]"
    using assms by (intro find_cong) (auto simp: block_free_def BBLOCK_same simp del: of_nat_add of_nat_mult)
  then show ?thesis unfolding e find_append find_map_shift by (auto split: option.splits)
qed

lemma bzero_spec:
  fixes s :: "'a fsys_scheme"
  assumes "in_tx d (Suc k) s" "\<not> in_log_area s b"
  shows "\<exists>s'. bzero d b s = Some s' \<and> in_tx d k s' \<and> in_log_area s' = in_log_area s \<and> cur d s' = (cur d s)(b := (\<lambda>_. 0)) \<and>
    sb s' = sb s \<and> itable s' = itable s \<and> kobj s' = kobj s \<and> dwrites s' = dwrites s"
proof -
  obtain i s1 s2 s3 where 1: "bread d b s = Some (i, s1)" "log_write i (upd_data i (\<lambda>_ _. 0) s1) = Some s2" "brelse i s2 = Some s3"
      "in_tx d k s3" "in_log_area s3 = in_log_area s" "cur d s3 = (cur d s)(b := (\<lambda>_. 0))" "bio_rest s3 = (bio_rest s)\<lparr>the_log := the_log s3\<rparr>"
      "dwrites s3 = dwrites s"
    using fs_update [OF assms, of "\<lambda>_ _. 0"] by auto
  then show ?thesis using fs_rest_log [OF 1(7)] by (simp add: bzero_def)
qed

text \<open>
  A free block is not part of the log or the bitmap, and neither is the bitmap part of the log.
\<close>

definition blocks_ok :: "u32 \<Rightarrow> 'a fsys_scheme \<Rightarrow> bool" where
  "blocks_ok d s \<longleftrightarrow> unat (sb_size (sb s)) + BPB < 2 ^ 32 \<and>
     (\<forall>n < unat (sb_size (sb s)). \<not> in_log_area s (BBLOCK (of_nat n) (sb s)) \<and>
        (block_free d s n \<longrightarrow> \<not> in_log_area s (of_nat n) \<and>
           (\<forall>m < unat (sb_size (sb s)). BBLOCK (of_nat m) (sb s) \<noteq> of_nat n)))"

lemma block_free_abs: "bio_abs d s' = bio_abs d s \<Longrightarrow> sb s' = sb s \<Longrightarrow> block_free d s' = block_free d s"
  by (simp add: block_free_def fun_eq_iff)

lemma balloc_from_spec:
  fixes s :: "'a fsys_scheme"
  assumes "in_tx d (Suc (Suc m)) s" "blocks_ok d s" "N = unat (sb_size (sb s))" "BPB * k < N + BPB"
  shows "\<exists>r s'. balloc_from d (of_nat (BPB * k)) s = Some (r, s') \<and> sb s' = sb s \<and> itable s' = itable s \<and> kobj s' = kobj s \<and> dwrites s' = dwrites s \<and>
    in_log_area s' = in_log_area s \<and> in_tx d m s' \<and>
    (case find (block_free d s) [BPB * k..<N] of
       None \<Rightarrow> r = 0 \<and> cur d s' = cur d s
     | Some n \<Rightarrow> r = of_nat n \<and>
         cur d s' = (cur d s)(BBLOCK r (sb s) := bmap_set (n mod BPB) (cur d s (BBLOCK r (sb s))), r := (\<lambda>_. 0)))"
  using assms
proof (induction "N + BPB - BPB * k" arbitrary: k s rule: less_induct)
  case less
  have bpb: "BPB = 8192" by (simp add: BPB_def BSIZE_def)
  have N: "N < 2 ^ 32" "BPB * k < 2 ^ 32" "N + BPB < 2 ^ 32" using less.prems by (auto simp: blocks_ok_def)
  let ?b = "of_nat (BPB * k) :: u32"
  have ub: "unat ?b = BPB * k" using N by (intro unat_of_nat_small) simp
  show ?case
  proof (cases "BPB * k < N")
    case False
    then have "\<not> ?b < sb_size (sb s)" using ub less.prems(3) by (simp add: word_less_nat_alt)
    moreover have "in_tx d m s" using less.prems(1) by (simp add: in_tx_def)
    moreover have "balloc_from d ?b s = Some (0, s)" using calculation(1) by (subst balloc_from.simps) simp
    ultimately show ?thesis using False by simp
  next
    case True
    then have lt: "?b < sb_size (sb s)" using ub less.prems(3) by (simp add: word_less_nat_alt)
    then have um: "unat (sb_size (sb s) - ?b) = N - BPB * k" using ub less.prems(3) by (simp add: unat_sub less_imp_le)
    note F = find_free_chunk [OF True N(1) refl, of d s]
    let ?B = "BBLOCK ?b (sb s)"
    have nl: "\<not> in_log_area s ?B" using less.prems(2,3) True unfolding blocks_ok_def by blast
    show ?thesis
    proof (cases "find (bmap_clear (cur d s ?B)) [0..<min BPB (N - BPB * k)]")
      case None
      obtain i s1 s2 where 1: "bread d ?B s = Some (i, s1)" "bdata (bufs s1 i) = cur d s ?B" "bio_rest s1 = bio_rest s"
          "brelse i s1 = Some s2" "log_ready d s2" "bio_abs d s2 = bio_abs d s"
        using fs_look [of d s ?B] less.prems(1) unfolding in_tx_def by blast
      have r2: "bio_rest s2 = bio_rest s" using 1(6) bio_abs_sel(3) by metis
      note fr = fs_rest [OF 1(3)] fs_rest [OF r2]
      have "in_tx d (Suc (Suc m)) s2" using less.prems(1) 1(5) fr by (simp add: in_tx_def)
      moreover have "blocks_ok d s2" using less.prems(2) fr by (simp add: blocks_ok_def in_log_area_def block_free_abs [OF 1(6)])
      moreover have "dwrites s2 = dwrites s" using 1(6) bio_abs_sel(2) by metis
      moreover have "balloc_from d ?b s = balloc_from d (of_nat (BPB * Suc k)) s2"
        using lt 1 None um fr by (subst balloc_from.simps) (simp add: add.commute)
      moreover have "in_log_area s2 = in_log_area s" using fr by (simp add: in_log_area_def fun_eq_iff)
      moreover have "N + BPB - BPB * Suc k < N + BPB - BPB * k" "BPB * Suc k < N + BPB" using True bpb by simp_all
      ultimately show ?thesis
        using less.hyps [of "Suc k" s2, unfolded fr block_free_abs [OF 1(6) fr(5)] 1(6)] less.prems(3) F None by (simp del: mult_Suc_right)
    next
      case (Some j)
      then have j: "j < BPB" "BPB * k + j < N" "bmap_clear (cur d s ?B) j" using find_SomeD [OF Some] True by auto
      let ?r = "?b + of_nat j :: u32" and ?n = "BPB * k + j"
      have nB: "BBLOCK ?r (sb s) = ?B" using BBLOCK_same [OF j(1), of k "sb s"] j(2) N by simp
      have fr: "block_free d s ?n" using j nB by (simp add: block_free_def)
      then have nr: "\<not> in_log_area s ?r" using less.prems(2,3) j(2) unfolding blocks_ok_def by auto
      obtain i s1 s2 s3 where 1: "bread d ?B s = Some (i, s1)" "bdata (bufs s1 i) = cur d s ?B" "bio_rest s1 = bio_rest s"
          "log_write i (upd_data i (bmap_set j) s1) = Some s2" "brelse i s2 = Some s3" "in_tx d (Suc m) s3" "in_log_area s3 = in_log_area s"
          "cur d s3 = (cur d s)(?B := bmap_set j (cur d s ?B))" "bio_rest s3 = (bio_rest s)\<lparr>the_log := the_log s3\<rparr>" "dwrites s3 = dwrites s"
        using fs_update [OF less.prems(1) nl, of "bmap_set j"] by blast
      obtain s4 where 4: "bzero d ?r s3 = Some s4" "in_tx d m s4" "in_log_area s4 = in_log_area s3" "cur d s4 = (cur d s3)(?r := (\<lambda>_. 0))"
          "sb s4 = sb s3" "itable s4 = itable s3" "kobj s4 = kobj s3" "dwrites s4 = dwrites s3"
        using bzero_spec [OF 1(6), of ?r] nr 1(7) by auto
      have "balloc_from d ?b s = Some (?r, s4)"
        using lt 1 4(1) um fs_rest [OF 1(3)] Some by (subst balloc_from.simps) simp
      then show ?thesis using F Some 1 4 fs_rest_log [OF 1(9)] j nB by simp
    qed
  qed
qed

lemma bmap_clear_bit: "bmap_clear d j \<longleftrightarrow> \<not> bit (d (j div 8)) (j mod 8)"
  by (simp add: bmap_clear_def bit_mask_def and_exp_eq_0_iff_not_bit)

lemma bit_mask_bit: "bit (bit_mask i) k \<longleftrightarrow> k = i mod 8"
  by (auto simp: bit_mask_def bit_push_bit_iff bit_exp_iff)

lemma bmap_clear_set: "bmap_clear (bmap_set i d) j \<longleftrightarrow> j \<noteq> i \<and> bmap_clear d j"
proof -
  have "j = i \<longleftrightarrow> j div 8 = i div 8 \<and> j mod 8 = i mod 8" by (metis div_mult_mod_eq)
  then show ?thesis by (auto simp: bmap_clear_bit bmap_set_def bit_or_iff bit_mask_bit)
qed

lemma bmap_clear_unset: "bmap_clear (bmap_unset i d) j \<longleftrightarrow> j = i \<or> bmap_clear d j"
proof -
  have "j = i \<longleftrightarrow> j div 8 = i div 8 \<and> j mod 8 = i mod 8" by (metis div_mult_mod_eq)
  then show ?thesis by (auto simp: bmap_clear_bit bmap_unset_def bit_and_iff bit_not_iff bit_mask_bit)
qed

text \<open>The bitmap seen as a set.\<close>

definition free_blocks :: "u32 \<Rightarrow> 'a fsys_scheme \<Rightarrow> nat set" where
  "free_blocks d s = {n. n < unat (sb_size (sb s)) \<and> block_free d s n}"

lemma BBLOCK_eq:
  assumes "n + BPB < 2 ^ 32" "m + BPB < 2 ^ 32" "BBLOCK (of_nat n) x = BBLOCK (of_nat m) x"
  shows "n div BPB = m div BPB"
proof -
  have "n div BPB < 2 ^ 32" "m div BPB < 2 ^ 32" using assms(1,2) by (auto intro: le_less_trans [OF div_le_dividend])
  moreover have "(of_nat (n div BPB) :: u32) = of_nat (m div BPB)" using assms by (simp add: BBLOCK_of_nat)
  ultimately show ?thesis by (metis unat_of_nat_small)
qed

text \<open>A change of one bit of the bitmap.\<close>

lemma free_blocks_upd:
  fixes s s' :: "'a fsys_scheme"
  assumes "sb s' = sb s" "N = unat (sb_size (sb s))" "N + BPB < 2 ^ 32" "n < N"
    and "\<And>m. m < N \<Longrightarrow> cur d s' (BBLOCK (of_nat m) (sb s)) =
      ((cur d s)(BBLOCK (of_nat n) (sb s) := g (cur d s (BBLOCK (of_nat n) (sb s))))) (BBLOCK (of_nat m) (sb s))"
    and "\<And>d j. bmap_clear (g d) j \<longleftrightarrow> (if j = n mod BPB then v else bmap_clear d j)"
  shows "free_blocks d s' = (if v then insert n (free_blocks d s) else free_blocks d s - {n})"
proof -
  have "block_free d s' m \<longleftrightarrow> (if m = n then v else block_free d s m)" if "m < N" for m
  proof -
    have "m = n" if "BBLOCK (of_nat m) (sb s) = BBLOCK (of_nat n) (sb s)" "m mod BPB = n mod BPB"
    proof -
      have "m div BPB = n div BPB" using BBLOCK_eq [OF _ _ that(1)] assms(3,4) \<open>m < N\<close> by simp
      then show ?thesis using that(2) by (metis div_mult_mod_eq)
    qed
    then show ?thesis using assms(1,5,6) that by (auto simp: block_free_def)
  qed
  then show ?thesis using assms(1,2,4) by (auto simp: free_blocks_def split: if_splits)
qed

lemma bfree_spec:
  fixes s :: "'a fsys_scheme"
  assumes "in_tx d (Suc k) s" "\<not> in_log_area s (BBLOCK (of_nat n) (sb s))" "n < unat (sb_size (sb s))" "unat (sb_size (sb s)) + BPB < 2 ^ 32"
    "n \<notin> free_blocks d s"
  shows "\<exists>s'. bfree d (of_nat n) s = Some s' \<and> in_tx d k s' \<and> free_blocks d s' = insert n (free_blocks d s) \<and>
    (\<forall>b. b \<noteq> BBLOCK (of_nat n) (sb s) \<longrightarrow> cur d s' b = cur d s b)"
proof -
  let ?B = "BBLOCK (of_nat n) (sb s)"
  have u: "unat (of_nat n :: u32) = n" using assms by (intro unat_of_nat_small) simp
  obtain i s1 s2 s3 where 1: "bread d ?B s = Some (i, s1)" "bdata (bufs s1 i) = cur d s ?B" "bio_rest s1 = bio_rest s"
      "log_write i (upd_data i (bmap_unset (n mod BPB)) s1) = Some s2" "brelse i s2 = Some s3" "in_tx d k s3"
      "cur d s3 = (cur d s)(?B := bmap_unset (n mod BPB) (cur d s ?B))" "bio_rest s3 = (bio_rest s)\<lparr>the_log := the_log s3\<rparr>"
    using fs_update [OF assms(1,2), of "bmap_unset (n mod BPB)"] by blast
  have "\<not> bmap_clear (cur d s ?B) (n mod BPB)" using assms(3,5) by (simp add: free_blocks_def block_free_def)
  then have "bfree d (of_nat n) s = Some s3" using 1 fs_rest [OF 1(3)] by (simp add: bfree_def u)
  moreover have "free_blocks d s3 = insert n (free_blocks d s)"
    using free_blocks_upd [of s3 s, OF _ refl assms(4,3), of d "bmap_unset (n mod BPB)" True] 1(7) fs_rest_log [OF 1(8)]
    by (simp add: bmap_clear_unset)
  ultimately show ?thesis using 1 by auto
qed

lemma Min_find:
  assumes "find P [0..<N] = Some n"
  shows "n = Min {n. n < N \<and> P n}" "n < N" "P n"
proof -
  obtain i where i: "i < N" "P i" "n = i" "\<forall>j<i. \<not> P j" using assms by (auto simp: find_Some_iff)
  then show "n < N" "P n" by auto
  show "n = Min {n. n < N \<and> P n}" using i by (intro Min_eqI [symmetric]) (auto simp: not_less [symmetric])
qed

text \<open>
  C8: Inside a transaction with room in the log, \<open>balloc\<close> never panics. When the bitmap has a free
  block it returns the lowest one, marked as used and filled with zeros, and changes nothing but that
  block and the bitmap; otherwise it returns 0 and changes nothing. Freeing the block again with
  \<open>bfree\<close> does not panic and gives the old set of free blocks back.
\<close>
theorem balloc_bfree:
  fixes s :: "'a fsys_scheme"
  assumes "in_tx d 3 s" "blocks_ok d s"
  shows "\<exists>r s'. balloc d s = Some (r, s') \<and>
    (if free_blocks d s = {} then r = 0 \<and> cur d s' = cur d s
     else r = of_nat (Min (free_blocks d s)) \<and> free_blocks d s' = free_blocks d s - {Min (free_blocks d s)} \<and>
       cur d s' r = (\<lambda>_. 0) \<and> (\<forall>b. b \<noteq> r \<and> b \<noteq> BBLOCK r (sb s) \<longrightarrow> cur d s' b = cur d s b) \<and>
       (\<exists>s''. bfree d r s' = Some s'' \<and> free_blocks d s'' = free_blocks d s))"
proof -
  let ?N = "unat (sb_size (sb s))" and ?f = "find (block_free d s) [0..<unat (sb_size (sb s))]"
  have fin: "finite (free_blocks d s)" by (simp add: free_blocks_def)
  have N: "?N + BPB < 2 ^ 32" using assms(2) by (simp add: blocks_ok_def)
  have "0 < BPB" by (simp add: BPB_def BSIZE_def)
  then obtain r s' where 1: "balloc d s = Some (r, s')" "sb s' = sb s" "in_log_area s' = in_log_area s" "in_tx d 1 s'"
      "case ?f of None \<Rightarrow> r = 0 \<and> cur d s' = cur d s
       | Some n \<Rightarrow> r = of_nat n \<and> cur d s' = (cur d s)(BBLOCK r (sb s) := bmap_set (n mod BPB) (cur d s (BBLOCK r (sb s))), r := (\<lambda>_. 0))"
    using balloc_from_spec [of d 1 s, OF _ assms(2) refl, of 0] assms(1) by (auto simp: balloc_def numeral_3_eq_3)
  show ?thesis
  proof (cases ?f)
    case None
    then have "free_blocks d s = {}" by (auto simp: free_blocks_def find_None_iff)
    then show ?thesis using 1 None by auto
  next
    case (Some n)
    let ?B = "BBLOCK (of_nat n) (sb s)"
    note n = Min_find [OF Some]
    have fn: "n \<in> free_blocks d s" "Min (free_blocks d s) = n" using n by (auto simp: free_blocks_def)
    have nb: "\<And>m. m < ?N \<Longrightarrow> BBLOCK (of_nat m) (sb s) \<noteq> of_nat n" "\<not> in_log_area s ?B" using assms(2) n(2,3) by (auto simp: blocks_ok_def)
    have r: "r = of_nat n" "cur d s' = (cur d s)(?B := bmap_set (n mod BPB) (cur d s ?B), r := (\<lambda>_. 0))" using 1(5) Some by auto
    have fb: "free_blocks d s' = free_blocks d s - {n}"
      using free_blocks_upd [OF 1(2) refl N n(2), of d "bmap_set (n mod BPB)" False] r nb(1) by (simp add: bmap_clear_set)
    then have "\<exists>s''. bfree d r s' = Some s'' \<and> free_blocks d s'' = free_blocks d s"
      using bfree_spec [of d 0 s' n] 1(2-4) nb(2) n(2) N fn(1) by (auto simp: r(1) insert_absorb)
    then show ?thesis using 1(1) fb r fn by auto
  qed
qed

section \<open>Inodes\<close>

lemma fold_put32:
  fixes pos n :: nat and f :: "nat \<Rightarrow> u32" and d :: bytes
  defines "d' \<equiv> fold (\<lambda>i d. put32 d (pos + 4 * i) (f i)) [0..<n] d"
  shows "(\<forall>i < n. get32 d' (pos + 4 * i) = f i) \<and> (\<forall>k. k < pos \<or> pos + 4 * n \<le> k \<longrightarrow> d' k = d k)"
  unfolding d'_def by (induction n) (auto simp: less_Suc_eq get32_put32_other put32_apply_other)

lemma get16_cong: "d i = e i \<Longrightarrow> d (i + 1) = e (i + 1) \<Longrightarrow> get16 d i = get16 e i"
  by (simp add: get16_def)

lemma get32_cong: "(\<And>k. i \<le> k \<Longrightarrow> k < i + 4 \<Longrightarrow> d k = e k) \<Longrightarrow> get32 d i = get32 e i"
  by (simp add: get32_def)

text \<open>Writing an inode changes its 64 bytes only, and reading them gives its fields back.\<close>

lemma put_dinode_other: "k < pos \<or> pos + dinode_size \<le> k \<Longrightarrow> put_dinode ip pos d k = d k"
  unfolding put_dinode_def Let_def
  by (subst fold_put32 [THEN conjunct2, rule_format]) (auto simp: NDIRECT_def dinode_size_def put16_apply_other put32_apply_other)

lemma get_put_dinode:
  "get_dinode (put_dinode ip pos d) pos x = x\<lparr>itype := itype ip, imajor := imajor ip, iminor := iminor ip, nlink := nlink ip, isize := isize ip,
     addrs := (\<lambda>i. if i < NDIRECT + 1 then addrs ip i else addrs x i)\<rparr>"
proof -
  define e where "e = put32 (put16 (put16 (put16 (put16 d pos (itype ip)) (pos + 2) (imajor ip)) (pos + 4) (iminor ip)) (pos + 6) (nlink ip)) (pos + 8) (isize ip)"
  define d' where "d' = fold (\<lambda>i d. put32 d (pos + 12 + 4 * i) (addrs ip i)) [0..<NDIRECT + 1] e"
  have d': "put_dinode ip pos d = d'" by (simp add: put_dinode_def d'_def e_def Let_def)
  note F = fold_put32 [of "NDIRECT + 1" "pos + 12" "addrs ip" e, folded d'_def]
  have low: "d' k = e k" if "k < pos + 12" for k using F that by auto
  have lo: "get16 d' j = get16 e j" if "j < pos + 11" for j using that low by (intro get16_cong) simp_all
  have "get16 d' pos = itype ip" "get16 d' (pos + 2) = imajor ip" "get16 d' (pos + 4) = iminor ip" "get16 d' (pos + 6) = nlink ip"
    by (subst lo; simp add: e_def get16_put16_other get16_put32_other)+
  moreover have "get32 d' (pos + 8) = isize ip" using get32_cong [of "pos + 8" d' e] low by (simp add: e_def)
  moreover have "(if i < NDIRECT + 1 then get32 d' (pos + 12 + 4 * i) else y) = (if i < NDIRECT + 1 then addrs ip i else y)" for i y
    using F by simp
  ultimately show ?thesis unfolding d' get_dinode_def by simp
qed

lemma get_dinode_cong:
  assumes "\<And>k. pos \<le> k \<Longrightarrow> k < pos + dinode_size \<Longrightarrow> d k = e k"
  shows "get_dinode d pos x = get_dinode e pos x"
proof -
  have "d (pos + j) = e (pos + j)" if "j < 64" for j using assms that by (simp add: dinode_size_def)
  then have 16: "get16 d (pos + j) = get16 e (pos + j)" if "j < 63" for j
    using that by (intro get16_cong) (simp_all add: add.assoc del: add_Suc_right)
  have 32: "get32 d (pos + j) = get32 e (pos + j)" if "j < 61" for j
    using that assms by (intro get32_cong) (simp add: dinode_size_def)
  have "(if i < NDIRECT + 1 then get32 d (pos + 12 + 4 * i) else y) = (if i < NDIRECT + 1 then get32 e (pos + 12 + 4 * i) else y)" for i y
    using 32 [of "12 + 4 * i"] by (simp add: NDIRECT_def add.assoc)
  then show ?thesis unfolding get_dinode_def using 16 [of 0] 16 [of 2] 16 32 by simp
qed

lemma iupdate_spec:
  fixes s :: "'a fsys_scheme"
  assumes "in_tx d (Suc k) s" "idev (itable s ip) = d" "B = IBLOCK (inum (itable s ip)) (sb s)" "\<not> in_log_area s B"
  shows "\<exists>s'. iupdate ip s = Some s' \<and> in_tx d k s' \<and> sb s' = sb s \<and> itable s' = itable s \<and>
    (\<forall>jp. slocks s' (Ch_inode jp) = slocks s (Ch_inode jp)) \<and>
    cur d s' = (cur d s)(B := put_dinode (itable s ip) (dinode_off (inum (itable s ip))) (cur d s B))"
proof -
  let ?f = "put_dinode (itable s ip) (dinode_off (inum (itable s ip)))"
  obtain i s1 s2 s3 where 1: "bread d B s = Some (i, s1)" "bio_rest s1 = bio_rest s"
      "log_write i (upd_data i ?f s1) = Some s2" "brelse i s2 = Some s3" "in_tx d k s3"
      "cur d s3 = (cur d s)(B := ?f (cur d s B))" "bio_rest s3 = (bio_rest s)\<lparr>the_log := the_log s3\<rparr>"
    using fs_update [OF assms(1,4), of ?f] by blast
  have "slocks s3 (Ch_inode jp) = slocks s (Ch_inode jp)" for jp using 1(7) bio_rest_fs(4) [of s3 jp] by (simp add: bio_rest_fs)
  then show ?thesis using 1 fs_rest [OF 1(2)] fs_rest_log [OF 1(7)] assms(2,3) by (simp add: iupdate_def)
qed

lemma dinode_off_apart:
  assumes "i \<noteq> j" "IBLOCK i x = IBLOCK j x"
  shows "dinode_off i + dinode_size \<le> dinode_off j \<or> dinode_off j + dinode_size \<le> dinode_off i"
proof -
  have ipb: "unat (of_nat IPB :: u32) = IPB" "IPB = 16" by (simp_all add: IPB_def BSIZE_def dinode_size_def)
  have "i div of_nat IPB = j div of_nat IPB" using assms(2) by (simp add: IBLOCK_def)
  then have "unat i div IPB = unat j div IPB" using ipb(1) by (metis unat_div)
  then have "unat i mod IPB \<noteq> unat j mod IPB" using assms(1) by (metis div_mult_mod_eq unsigned_word_eqI)
  then show ?thesis by (auto simp: dinode_off_def dinode_size_def)
qed

lemma ilock_loads:
  fixes s :: "'a fsys_scheme"
  assumes "log_ready d s" "\<not> ivalid (itable s jp)" "1 \<le> iref (itable s jp)" "idev (itable s jp) = d"
    "slocked (slocks s (Ch_inode jp)) = 0"
    "x = get_dinode (cur d s (IBLOCK (inum (itable s jp)) (sb s))) (dinode_off (inum (itable s jp))) (itable s jp)" "itype x \<noteq> 0"
  shows "\<exists>s'. ilock jp s = Some s' \<and> itable s' jp = x\<lparr>ivalid := True\<rparr>"
proof -
  have "bio_inv d s" using assms(1) by (simp add: log_ready_def)
  then obtain p where p: "myproc s = Some p" by (auto simp: bio_inv_def)
  define s0 where "s0 = upd_slock (Ch_inode jp) (\<lambda>l. l\<lparr>slocked := 1, spid := pid (procs s p)\<rparr>) s"
  have a: "at_once (acquiresleep (Ch_inode jp) s) = Some ((), s0)" using p assms(5) by (simp add: acquiresleep_def s0_def)
  have s0: "log_ready d s0" "cur d s0 = cur d s" "itable s0 = itable s" "sb s0 = sb s"
    using assms(1) cache_frame(2,3) [of s0 s d] by (simp_all add: s0_def)
  let ?B = "IBLOCK (inum (itable s jp)) (sb s)"
  obtain i s1 where 1: "bread d ?B s0 = Some (i, s1)" "bdata (bufs s1 i) = cur d s ?B" "bio_rest s1 = bio_rest s0" "read_state d ?B i s0 s1"
    using fs_look [OF s0(1), of ?B] s0(2) by auto
  define t where "t = upd_inode jp (get_dinode (bdata (bufs s1 i)) (dinode_off (inum (itable s1 jp)))) s1"
  obtain s2 where 2: "brelse i t = Some s2" "bio_rest s2 = bio_rest t"
    using fs_release [OF s0(1) 1(4), of t] by (auto simp: t_def)
  note r2 = fs_rest [OF 2(2)]
  show ?thesis
    using a 1(1) 2(1) r2 assms(2-4,7) s0(3,4) fs_rest [OF 1(3)] by (simp add: ilock_def t_def [symmetric]) (simp add: t_def 1(2) assms(6))
qed

text \<open>The inode \<open>i\<close> as the disk has it.\<close>

definition on_disk :: "u32 \<Rightarrow> 'a fsys_scheme \<Rightarrow> u32 \<Rightarrow> inode \<Rightarrow> inode" where
  "on_disk d s i = get_dinode (cur d s (IBLOCK i (sb s))) (dinode_off i)"

lemma iupdate_on_disk:
  fixes s :: "'a fsys_scheme"
  assumes "sb s' = sb s" "B = IBLOCK i (sb s)" "cur d s' = (cur d s)(B := put_dinode ip (dinode_off i) (cur d s B))"
  shows "on_disk d s' j x =
    (if j = i then x\<lparr>itype := itype ip, imajor := imajor ip, iminor := iminor ip, nlink := nlink ip, isize := isize ip,
       addrs := (\<lambda>k. if k < NDIRECT + 1 then addrs ip k else addrs x k)\<rparr>
     else on_disk d s j x)"
proof (cases "j = i")
  case True
  then show ?thesis using assms by (simp add: on_disk_def get_put_dinode)
next
  case False
  have "get_dinode (put_dinode ip (dinode_off i) e) (dinode_off j) x = get_dinode e (dinode_off j) x" if "IBLOCK j (sb s) = B" for e
    using dinode_off_apart [OF False, of "sb s"] that assms(2) by (intro get_dinode_cong put_dinode_other) auto
  then show ?thesis using False assms(1,3) by (auto simp: on_disk_def)
qed

text \<open>
  C9: An inode written by \<open>iupdate\<close> is read back. When the in-memory inode is then dropped, so that
  its slot may be used for another, \<open>iget\<close> and \<open>ilock\<close> find every field of it again in a slot that
  may be another one. No other inode on disk changes, not even one of the same block.
\<close>
theorem iupdate_ilock:
  fixes s :: "'a fsys_scheme"
  assumes "in_tx d 1 s" "ip < NINODE" "x = itable s ip" "idev x = d" "itype x \<noteq> 0"
    and "\<not> in_log_area s (IBLOCK (inum x) (sb s))"
    and "\<forall>k. slocked (slocks s (Ch_inode k)) = 0"
    and "\<forall>k < NINODE. k \<noteq> ip \<longrightarrow> \<not> (0 < iref (itable s k) \<and> idev (itable s k) = d \<and> inum (itable s k) = inum x)"
  shows "\<exists>s1. iupdate ip s = Some s1 \<and> (\<forall>j y. j \<noteq> inum x \<longrightarrow> on_disk d s1 j y = on_disk d s j y) \<and>
    (\<exists>jp s2 s3. iget d (inum x) (upd_inode ip (\<lambda>y. y\<lparr>iref := 0\<rparr>) s1) = Some (jp, s2) \<and> ilock jp s2 = Some s3 \<and>
       (let y = itable s3 jp
        in ivalid y \<and> idev y = d \<and> inum y = inum x \<and> itype y = itype x \<and> imajor y = imajor x \<and> iminor y = iminor x \<and>
           nlink y = nlink x \<and> isize y = isize x \<and> (\<forall>k \<le> NDIRECT. addrs y k = addrs x k)))"
proof -
  let ?B = "IBLOCK (inum x) (sb s)"
  obtain s1 where 1: "iupdate ip s = Some s1" "in_tx d 0 s1" "sb s1 = sb s" "itable s1 = itable s" "\<And>jp. slocks s1 (Ch_inode jp) = slocks s (Ch_inode jp)"
      "cur d s1 = (cur d s)(?B := put_dinode x (dinode_off (inum x)) (cur d s ?B))"
    using iupdate_spec [of d 0 s ip ?B] assms(1-6) by auto
  note D = iupdate_on_disk [OF 1(3) refl 1(6)]
  define t where "t = upd_inode ip (\<lambda>y. y\<lparr>iref := 0\<rparr>) s1"
  have n1: "find (\<lambda>k. 0 < iref (itable t k) \<and> idev (itable t k) = d \<and> inum (itable t k) = inum x) [0..<NINODE] = None"
    using assms(8) 1(4) by (auto simp: t_def find_None_iff)
  have "find (\<lambda>k. iref (itable t k) = 0) [0..<NINODE] \<noteq> None" using assms(2) by (auto simp: t_def find_None_iff)
  then obtain jp where jp: "find (\<lambda>k. iref (itable t k) = 0) [0..<NINODE] = Some jp" by auto
  define s2 where "s2 = upd_inode jp (\<lambda>y. y\<lparr>idev := d, inum := inum x, iref := 1, ivalid := False\<rparr>) t"
  have g: "iget d (inum x) t = Some (jp, s2)" using n1 jp by (simp add: iget_def s2_def)
  have s2: "sb s2 = sb s1" "slocks s2 = slocks s1" "cur d s2 = cur d s1" "log_ready d s2"
    using 1(2) cache_frame [of s2 s1 d] by (simp_all add: s2_def t_def in_tx_def)
  let ?y = "on_disk d s1 (inum x) (itable s2 jp)"
  have "\<exists>s3. ilock jp s2 = Some s3 \<and> itable s3 jp = ?y\<lparr>ivalid := True\<rparr>"
    using ilock_loads [OF s2(4), of jp ?y] s2 assms(5,7) 1(5) D by (simp add: s2_def on_disk_def)
  then obtain s3 where 3: "ilock jp s2 = Some s3" "itable s3 jp = ?y\<lparr>ivalid := True\<rparr>" by blast
  have "let y = itable s3 jp in ivalid y \<and> idev y = d \<and> inum y = inum x \<and> itype y = itype x \<and> imajor y = imajor x \<and> iminor y = iminor x \<and>
      nlink y = nlink x \<and> isize y = isize x \<and> (\<forall>k \<le> NDIRECT. addrs y k = addrs x k)"
    by (simp add: 3(2) D Let_def) (simp add: s2_def)
  then show ?thesis using 1(1) g 3(1) D unfolding t_def by auto
qed

section \<open>Holes\<close>



section \<open>A file system\<close>

text \<open>
  A running system with the superblock of \<open>mkfs\<close>: bits for the blocks up to 47 are set, slot 0 has a directory with the
  block 46, and its second entry has the name \<open>a\<close> and the inode number 7.
\<close>

definition boot_blocks :: "u32 \<Rightarrow> bytes" where
  "boot_blocks b k =
     (if b = 45 \<and> k < 6 then 255 else if b = 46 \<and> k = 16 then 7 else if b = 46 \<and> k = 18 then 97 else 0)"

definition boot_inode :: inode where
  "boot_inode = \<lparr>idev = 1, inum = 1, iref = 1, ivalid = True, itype = 1, imajor = 0, iminor = 0, nlink = 1, isize = 32,
     addrs = (\<lambda>k. if k = 0 then 46 else 0)\<rparr>"

definition no_inode :: inode where
  "no_inode = \<lparr>idev = 0, inum = 0, iref = 0, ivalid = False, itype = 0, imajor = 0, iminor = 0, nlink = 0, isize = 0, addrs = (\<lambda>_. 0)\<rparr>"

definition boot_fs :: "log \<Rightarrow> inode \<Rightarrow> fsys" where
  "boot_fs l x = logged.extend (bio.extend (boot_bio boot_blocks) (logged.fields l)) (fsys.fields mkfs_sb ((\<lambda>_. no_inode)(0 := x)))"

lemma boot_fs_sel [simp]:
  "bufs (boot_fs l x) = bufs (boot_bio boot_blocks)" "disk (boot_fs l x) = boot_blocks" "dwrites (boot_fs l x) = []"
  "slocks (boot_fs l x) = slocks (boot_bio boot_blocks)" "the_log (boot_fs l x) = l" "myproc (boot_fs l x) = myproc (boot_bio boot_blocks)"
  "mypid (boot_fs l x) = mypid (boot_bio boot_blocks)" "sb (boot_fs l x) = mkfs_sb" "itable (boot_fs l x) = (\<lambda>_. no_inode)(0 := x)"
  by (simp_all add: boot_fs_def bio.defs logged.defs fsys.defs boot_bio myproc_def mycpu_def mypid_def)

lemma boot_fs_buf_of: "buf_of 1 (boot_fs l x) b = None"
  using boot_bio(5) [of boot_blocks b] by (simp add: buf_of_def find_None_iff caches_def)

lemma boot_fs_abs:
  "cur 1 (boot_fs l x) = boot_blocks" "refs (bio_abs 1 (boot_fs l x)) = (\<lambda>_. 0)" "busy (bio_abs 1 (boot_fs l x)) = (\<lambda>_. False)"
  "hand (bio_abs 1 (boot_fs l x)) = (\<lambda>_. None)"
  by (simp_all add: bio_abs_def boot_fs_buf_of fun_eq_iff)

lemma boot_fs_ready: "l = mkfs_log\<lparr>outstanding := k\<rparr> \<Longrightarrow> log_ready 1 (boot_fs l x)"
  using boot_bio(1) [of boot_blocks]
  by (simp add: log_ready_def pinned_def boot_fs_abs log_ok_def mkfs_log_def bio_abs_sel NBUF_def bio_inv_def boot_bio)

lemma boot_fs_tx: "k < 30 \<Longrightarrow> in_tx 1 k (boot_fs mkfs_log x)"
  using boot_fs_ready [of mkfs_log 1 x] by (simp add: in_tx_def mkfs_log_def NBUF_def)

lemma boot_fs_free: "free_blocks 1 (boot_fs l x) = {48..<2000}"
proof -
  have "block_free 1 (boot_fs l x) n \<longleftrightarrow> 48 \<le> n" if "n < 2000" for n
  proof -
    have b: "BBLOCK (of_nat n) mkfs_sb = 45" "n mod BPB = n" using that by (simp_all add: BBLOCK_of_nat BPB_def BSIZE_def mkfs_sb_def)
    have "(255 :: u8) = - 1" by simp
    then have "bit (255 :: u8) (n mod 8)" by (simp only: bit_minus_1_iff) simp
    then show ?thesis unfolding block_free_def bmap_clear_bit boot_fs_abs boot_fs_sel b by (auto simp: boot_blocks_def)
  qed
  then show ?thesis by (auto simp: free_blocks_def mkfs_sb_def)
qed

lemma boot_fs_blocks: "blocks_ok 1 (boot_fs mkfs_log x)"
proof -
  have b: "BBLOCK (of_nat n) mkfs_sb = 45" if "n < 2000" for n using that by (simp add: BBLOCK_of_nat BPB_def BSIZE_def mkfs_sb_def)
  have u: "uint (of_nat n :: u32) = int n" if "n < 2000" for n using that by (simp add: unsigned_of_nat take_bit_nat_eq_self)
  have "48 \<le> n" if "block_free 1 (boot_fs mkfs_log x) n" "n < 2000" for n
  proof -
    have "n \<in> free_blocks 1 (boot_fs mkfs_log x)" using that by (simp add: free_blocks_def mkfs_sb_def)
    then show ?thesis by (simp add: boot_fs_free)
  qed
  moreover have "(45 :: u32) \<noteq> of_nat n" if "48 \<le> n" "n < 2000" for n
  proof
    assume "(45 :: u32) = of_nat n"
    then have "uint (45 :: u32) = int n" using u [OF that(2)] by simp
    then show False using that by simp
  qed
  moreover have "unat (sb_size mkfs_sb) = 2000" "\<And>n. in_log mkfs_log n \<longleftrightarrow> 2 \<le> uint n \<and> uint n < 32"
    by (simp_all add: mkfs_sb_def mkfs_log_def in_log_def)
  ultimately show ?thesis using b u by (force simp: blocks_ok_def in_log_area_def BPB_def BSIZE_def)
qed

theorem balloc_bfree_witness:
  "\<exists>s'. balloc 1 (boot_fs mkfs_log boot_inode) = Some (48, s') \<and> free_blocks 1 s' = {49..<2000} \<and>
    (\<exists>s''. bfree 1 48 s' = Some s'' \<and> free_blocks 1 s'' = {48..<2000})"
proof -
  have e: "{48..<2000 :: nat} \<noteq> {}" "Min {48..<2000 :: nat} = 48" "{48..<2000 :: nat} - {48} = {49..<2000}"
    by (auto intro: Min_eqI)
  have "in_tx 1 3 (boot_fs mkfs_log boot_inode)" by (rule boot_fs_tx) simp
  then show ?thesis using balloc_bfree [OF _ boot_fs_blocks] e unfolding boot_fs_free by fastforce
qed

lemma binit_inode_locks: "slocks (binit s) (Ch_inode k) = slocks s (Ch_inode k)"
proof -
  have "slocks (fold (\<lambda>b s. initsleeplock (Ch_buf b) nm (link_front b s)) bs t) (Ch_inode k) = slocks t (Ch_inode k)" for nm bs and t :: "'a bio_scheme"
    by (induction bs arbitrary: t) (simp_all add: initsleeplock_def)
  then show ?thesis by (simp add: binit_def Let_def)
qed

theorem iupdate_ilock_witness:
  "\<exists>s1 jp s2 s3. iupdate 0 (boot_fs mkfs_log boot_inode) = Some s1 \<and>
     iget 1 1 (upd_inode 0 (\<lambda>y. y\<lparr>iref := 0\<rparr>) s1) = Some (jp, s2) \<and> ilock jp s2 = Some s3 \<and>
     isize (itable s3 jp) = 32 \<and> addrs (itable s3 jp) 0 = 46"
proof -
  have "\<forall>k. slocked (slocks (boot_bio boot_blocks) (Ch_inode k)) = 0" by (simp add: boot_bio_def binit_inode_locks slp.defs ptabp.defs bio.defs)
  moreover have "\<not> in_log_area (boot_fs mkfs_log boot_inode) (IBLOCK 1 mkfs_sb)"
    by (simp add: in_log_area_def in_log_def mkfs_log_def IBLOCK_def mkfs_sb_def IPB_def BSIZE_def dinode_size_def)
  ultimately show ?thesis
    using iupdate_ilock [of 1 "boot_fs mkfs_log boot_inode" 0 boot_inode, OF boot_fs_tx]
    by (simp add: boot_inode_def no_inode_def Let_def) force
qed


end
