(* ===== verification/Fs_Dir.thy ===== *)
theory Fs_Dir
  imports Fs_Alloc
begin

text \<open>
  Directories: \<open>dirlookup\<close> and \<open>dirlink\<close> of \<^verbatim>\<open>kernel/fs.c\<close> as operations on the list of entries that a
  directory consists of, for directories whose entries are in the direct blocks.
\<close>

section \<open>Entries\<close>

text \<open>Entry \<open>j\<close> of the directory \<open>dp\<close>; blocks hold whole entries.\<close>

definition dirent :: "u32 \<Rightarrow> 'a fsys_scheme \<Rightarrow> nat \<Rightarrow> nat \<Rightarrow> bytes" where
  "dirent d s dp j = (\<lambda>k. cur d s (addrs (itable s dp) (j div 64)) (16 * (j mod 64) + k))"

definition named :: "bytes \<Rightarrow> bytes \<Rightarrow> bool" where
  "named nm e \<longleftrightarrow> de_inum e \<noteq> 0 \<and> namecmp nm (de_name e) = 0"

text \<open>The directory \<open>dp\<close> has \<open>n\<close> entries, all of them in direct blocks.\<close>

definition dir_ready :: "u32 \<Rightarrow> nat \<Rightarrow> nat \<Rightarrow> 'a fsys_scheme \<Rightarrow> bool" where
  "dir_ready d dp n s \<longleftrightarrow> log_ready d s \<and> idev (itable s dp) = d \<and> isize (itable s dp) = of_nat (16 * n) \<and> n \<le> 64 * NDIRECT \<and>
     (\<forall>j < n. addrs (itable s dp) (j div 64) \<noteq> 0)"

text \<open>Nothing but the kernel object changes.\<close>

definition same_fs :: "u32 \<Rightarrow> 'a fsys_scheme \<Rightarrow> 'a fsys_scheme \<Rightarrow> bool" where
  "same_fs d s t \<longleftrightarrow> log_ready d t \<and> cur d t = cur d s \<and> sb t = sb s \<and> itable t = itable s \<and> the_log t = the_log s"

lemma same_fs_refl: "log_ready d s \<Longrightarrow> same_fs d s s"
  by (simp add: same_fs_def)

lemma same_fs_trans: "same_fs d s t \<Longrightarrow> same_fs d t u \<Longrightarrow> same_fs d s u"
  by (simp add: same_fs_def)

lemma same_fs_dir:
  assumes "same_fs d s t"
  shows "dir_ready d dp n s \<Longrightarrow> dir_ready d dp n t" "dirent d t dp = dirent d s dp"
  using assms by (simp_all add: same_fs_def dir_ready_def dirent_def fun_eq_iff)

lemma offset_facts:
  fixes off :: u32
  assumes "off = of_nat (16 * j)" "j < 64 * NDIRECT"
  shows "unat off = 16 * j" "unat (off div of_nat BSIZE) = j div 64" "unat (off mod of_nat BSIZE) = 16 * (j mod 64)"
    "io_chunk 16 0 off = 16" "unat (off + 16) = 16 * j + 16"
proof -
  have j: "j < 768" using assms(2) by (simp add: NDIRECT_def)
  show u: "unat off = 16 * j" unfolding assms(1) using j by (intro unat_of_nat_small) simp
  show "unat (off div of_nat BSIZE) = j div 64" using u by (simp add: unat_div BSIZE_def)
  show m: "unat (off mod of_nat BSIZE) = 16 * (j mod 64)" using u mult_mod_right [of 16 j 64] by (simp add: unat_mod BSIZE_def)
  have "off mod of_nat BSIZE \<le> (1008 :: u32)" using m by (simp add: word_le_nat_alt)
  moreover have "unat (1024 - off mod of_nat BSIZE :: u32) = 1024 - 16 * (j mod 64)"
    using m by (subst unat_sub) (simp_all add: word_le_nat_alt)
  ultimately have "(16 :: u32) \<le> of_nat BSIZE - off mod of_nat BSIZE" by (simp add: word_le_nat_alt BSIZE_def)
  then show "io_chunk 16 0 off = 16" by (simp add: io_chunk_def min_def)
  show "unat (off + 16) = 16 * j + 16" using u j by (simp add: unat_word_ariths)
qed

lemma readi_dirent:
  fixes s :: "'a fsys_scheme"
  assumes "dir_ready d dp n s" "j < n"
  shows "\<exists>s'. readi dp (Kobj 0) (of_nat (16 * j)) dirent_size s = Some (16, s') \<and> same_fs d s s' \<and>
    (\<forall>k < 16. kobj s' k = dirent d s dp j k)"
proof -
  let ?off = "of_nat (16 * j) :: u32" and ?a = "addrs (itable s dp) (j div 64)"
  note D = assms(1) [unfolded dir_ready_def]
  have j: "j < 64 * NDIRECT" using assms D by simp
  note off = offset_facts [OF refl j]
  have n: "n \<le> 768" using D by (simp add: NDIRECT_def)
  have sz: "unat (isize (itable s dp)) = 16 * n" using D n by (simp add: unat_of_nat_small del: of_nat_mult)
  have c: "\<not> isize (itable s dp) < ?off" "\<not> ?off + 16 < ?off" "\<not> isize (itable s dp) < ?off + 16"
    using off(1,5) sz assms(2) by (simp_all add: word_less_nat_alt del: of_nat_mult)
  have a: "?a \<noteq> 0" using D assms(2) by blast
  have "j div 64 < NDIRECT" using j by (simp add: less_mult_imp_div_less mult.commute)
  then have b: "bmap dp (?off div of_nat BSIZE) s = Some (?a, s)" using a off(2) by (simp add: bmap_def)
  obtain i s1 where 1: "bread d ?a s = Some (i, s1)" "bdata (bufs s1 i) = cur d s ?a" "bio_rest s1 = bio_rest s" "read_state d ?a i s s1"
    using fs_look [of d s ?a] D by blast
  let ?kb = "\<lambda>k. if k < 16 then bdata (bufs s1 i) (unat (?off mod of_nat BSIZE) + k) else kobj s1 k"
  define t where "t = s1\<lparr>kobj := ?kb\<rparr>"
  obtain s2 where 2: "brelse i t = Some s2" "log_ready d s2" "cur d s2 = cur d s" "bio_rest s2 = bio_rest t"
    using fs_release [OF _ 1(4), of t] D by (auto simp: t_def)
  have k: "kobj s2 = ?kb" using fs_rest(4) [OF 2(4)] by (simp add: t_def)
  note r = fs_rest [OF 1(3)] fs_rest [OF 2(4)]
  have "readi_loop dp (Kobj 0) ?off 16 0 s = readi_loop dp (Kobj 16) (?off + 16) 16 16 s2"
    using b a 1(1) 2(1) off(4) D by (subst readi_loop.simps) (simp add: either_copyout_def t_def del: of_nat_mult cong: if_cong)
  also have "\<dots> = Some (16, s2)" by (subst readi_loop.simps) simp
  finally have "readi dp (Kobj 0) ?off dirent_size s = Some (16, s2)"
    using c by (simp add: readi_def Let_def dirent_size_def del: of_nat_mult)
  moreover have "same_fs d s s2" using 2 r by (simp add: same_fs_def t_def)
  moreover have "\<forall>k < 16. kobj s2 k = dirent d s dp j k" using k off(3) by (simp add: dirent_def 1(2) del: of_nat_mult)
  ultimately show ?thesis by blast
qed

section \<open>Lookup\<close>

lemma named_cong: "(\<And>k. k < 16 \<Longrightarrow> e k = e' k) \<Longrightarrow> named nm e = named nm e'"
proof -
  assume e: "\<And>k. k < 16 \<Longrightarrow> e k = e' k"
  have "cstr_n (de_name e) DIRSIZ = cstr_n (de_name e') DIRSIZ"
    using e by (intro cstr_n_cong) (simp add: de_name_def DIRSIZ_def)
  moreover have "de_inum e = de_inum e'" using e by (simp add: de_inum_def get16_def)
  ultimately show ?thesis by (simp add: named_def namecmp_def strncmp_eq_0)
qed

lemma de_inum_cong: "(\<And>k. k < 16 \<Longrightarrow> e k = e' k) \<Longrightarrow> de_inum e = de_inum e'"
  by (simp add: de_inum_def get16_def)

definition iget_room :: "'a fsys_scheme \<Rightarrow> bool" where
  "iget_room s \<longleftrightarrow> (\<exists>k < NINODE. iref (itable s k) = 0)"

lemma iget_spec:
  fixes s :: "'a fsys_scheme"
  assumes "iget_room s" "\<forall>k. 0 \<le> iref (itable s k)"
  shows "\<exists>ip x. iget d i s = Some (ip, s\<lparr>itable := (itable s)(ip := x)\<rparr>) \<and> ip < NINODE \<and> idev x = d \<and> inum x = i \<and> 0 < iref x"
proof (cases "find (\<lambda>ip. 0 < iref (itable s ip) \<and> idev (itable s ip) = d \<and> inum (itable s ip) = i) [0..<NINODE]")
  case None
  have "find (\<lambda>ip. iref (itable s ip) = 0) [0..<NINODE] \<noteq> None" using assms(1) by (auto simp: iget_room_def find_None_iff)
  then obtain jp where jp: "find (\<lambda>ip. iref (itable s ip) = 0) [0..<NINODE] = Some jp" by auto
  then show ?thesis using None find_SomeD [OF jp] by (auto simp: iget_def intro!: exI [of _ jp])
next
  case (Some ip)
  then show ?thesis using find_SomeD [OF Some] by (auto simp: iget_def intro!: exI [of _ ip])
qed

text \<open>
  The loop of \<open>dirlookup\<close> from entry \<open>i\<close> on is a search in the list of entries.
\<close>

lemma dirlookup_from_spec:
  fixes s :: "'a fsys_scheme"
  assumes "dir_ready d dp n s" "i \<le> n"
  shows "\<exists>t. same_fs d s t \<and> dirlookup_from dp nm (of_nat (16 * i)) s =
    (case find (\<lambda>j. named nm (dirent d s dp j)) [i..<n] of
       None \<Rightarrow> Some (None, t)
     | Some j \<Rightarrow> do { (ip, t) \<leftarrow> iget d (ucast (de_inum (dirent d s dp j))) t; Some (Some (ip, of_nat (16 * j)), t) })"
  using assms
proof (induction "n - i" arbitrary: i s)
  case 0
  then have "\<not> of_nat (16 * i) < isize (itable s dp)" by (simp add: dir_ready_def)
  then show ?case using 0 same_fs_refl [of d s] by (subst dirlookup_from.simps) (auto simp: dir_ready_def)
next
  case (Suc m)
  note D = Suc.prems(1) [unfolded dir_ready_def]
  have i: "i < n" "i < 64 * NDIRECT" "n \<le> 768" using Suc.hyps(2) D by (auto simp: NDIRECT_def)
  have "unat (isize (itable s dp)) = 16 * n" using D i(3) by (simp add: unat_of_nat_small del: of_nat_mult)
  then have lt: "of_nat (16 * i) < isize (itable s dp)" using offset_facts(1) [OF refl i(2)] i(1) by (simp add: word_less_nat_alt del: of_nat_mult)
  obtain t where t: "readi dp (Kobj 0) (of_nat (16 * i)) dirent_size s = Some (16, t)" "same_fs d s t" "\<And>k. k < 16 \<Longrightarrow> kobj t k = dirent d s dp i k"
    using readi_dirent [OF Suc.prems(1) i(1)] by blast
  have nm: "named nm (kobj t) = named nm (dirent d s dp i)" "de_inum (kobj t) = de_inum (dirent d s dp i)"
    by (rule named_cong de_inum_cong, rule t(3), assumption)+
  have it: "itable t = itable s" using t(2) by (simp add: same_fs_def)
  have up: "[i..<n] = i # [Suc i..<n]" using i(1) by (rule upt_conv_Cons)
  have u: "uint dirent_size = 16" by (simp add: dirent_size_def)
  show ?case
  proof (cases "named nm (dirent d s dp i)")
    case True
    then have "dirlookup_from dp nm (of_nat (16 * i)) s =
        do { (ip, t) \<leftarrow> iget d (ucast (de_inum (dirent d s dp i))) t; Some (Some (ip, of_nat (16 * i)), t) }"
      using lt t(1) nm D it u by (subst dirlookup_from.simps) (simp add: named_def)
    then show ?thesis using True t(2) up by auto
  next
    case False
    then have "dirlookup_from dp nm (of_nat (16 * i)) s = dirlookup_from dp nm (of_nat (16 * Suc i)) t"
      using lt t(1) nm it u by (subst dirlookup_from.simps) (auto simp: named_def dirent_size_def add.commute)
    moreover have "\<exists>u. same_fs d t u \<and> dirlookup_from dp nm (of_nat (16 * Suc i)) t =
      (case find (\<lambda>j. named nm (dirent d t dp j)) [Suc i..<n] of
         None \<Rightarrow> Some (None, u)
       | Some j \<Rightarrow> do { (ip, u) \<leftarrow> iget d (ucast (de_inum (dirent d t dp j))) u; Some (Some (ip, of_nat (16 * j)), u) })"
      using Suc.hyps(2) i(1) by (intro Suc.hyps(1) same_fs_dir(1) [OF t(2) Suc.prems(1)]) auto
    ultimately show ?thesis unfolding same_fs_dir(2) [OF t(2)] using False up same_fs_trans [OF t(2)] by auto
  qed
qed

section \<open>Adding an entry\<close>

text \<open>The slot for a new entry: the first empty one, or the end.\<close>

definition free_slot :: "u32 \<Rightarrow> 'a fsys_scheme \<Rightarrow> nat \<Rightarrow> nat \<Rightarrow> nat" where
  "free_slot d s dp n = (case find (\<lambda>j. de_inum (dirent d s dp j) = 0) [0..<n] of Some j \<Rightarrow> j | None \<Rightarrow> n)"

lemma dirlink_slot_from:
  fixes s :: "'a fsys_scheme"
  assumes "dir_ready d dp n s" "i \<le> n"
  shows "\<exists>t. same_fs d s t \<and> dirlink_slot dp (of_nat (16 * i)) s =
    Some (of_nat (16 * (case find (\<lambda>j. de_inum (dirent d s dp j) = 0) [i..<n] of Some j \<Rightarrow> j | None \<Rightarrow> n)), t)"
  using assms
proof (induction "n - i" arbitrary: i s)
  case 0
  then have "\<not> of_nat (16 * i) < isize (itable s dp)" by (simp add: dir_ready_def)
  then show ?case using 0 same_fs_refl [of d s] by (subst dirlink_slot.simps) (auto simp: dir_ready_def)
next
  case (Suc m)
  note D = Suc.prems(1) [unfolded dir_ready_def]
  have i: "i < n" "i < 64 * NDIRECT" "n \<le> 768" using Suc.hyps(2) D by (auto simp: NDIRECT_def)
  have "unat (isize (itable s dp)) = 16 * n" using D i(3) by (simp add: unat_of_nat_small del: of_nat_mult)
  then have lt: "of_nat (16 * i) < isize (itable s dp)" using offset_facts(1) [OF refl i(2)] i(1) by (simp add: word_less_nat_alt del: of_nat_mult)
  obtain t where t: "readi dp (Kobj 0) (of_nat (16 * i)) dirent_size s = Some (16, t)" "same_fs d s t" "\<And>k. k < 16 \<Longrightarrow> kobj t k = dirent d s dp i k"
    using readi_dirent [OF Suc.prems(1) i(1)] by blast
  have nm: "de_inum (kobj t) = de_inum (dirent d s dp i)" by (rule de_inum_cong, rule t(3))
  have up: "[i..<n] = i # [Suc i..<n]" using i(1) by (rule upt_conv_Cons)
  have u: "uint dirent_size = 16" by (simp add: dirent_size_def)
  show ?case
  proof (cases "de_inum (dirent d s dp i) = 0")
    case True
    then have "dirlink_slot dp (of_nat (16 * i)) s = Some (of_nat (16 * i), t)"
      using lt t(1) nm u by (subst dirlink_slot.simps) simp
    then show ?thesis using True t(2) up by auto
  next
    case False
    then have "dirlink_slot dp (of_nat (16 * i)) s = dirlink_slot dp (of_nat (16 * Suc i)) t"
      using lt t(1) nm u by (subst dirlink_slot.simps) (simp add: dirent_size_def add.commute)
    moreover have "\<exists>u. same_fs d t u \<and> dirlink_slot dp (of_nat (16 * Suc i)) t =
      Some (of_nat (16 * (case find (\<lambda>j. de_inum (dirent d t dp j) = 0) [Suc i..<n] of Some j \<Rightarrow> j | None \<Rightarrow> n)), u)"
      using Suc.hyps(2) i(1) by (intro Suc.hyps(1) same_fs_dir(1) [OF t(2) Suc.prems(1)]) auto
    ultimately show ?thesis unfolding same_fs_dir(2) [OF t(2)] using False up same_fs_trans [OF t(2)] by auto
  qed
qed

text \<open>The blocks of the first \<open>m\<close> entries are there, and are none of the other blocks involved.\<close>

definition dir_mapped :: "nat \<Rightarrow> nat \<Rightarrow> 'a fsys_scheme \<Rightarrow> bool" where
  "dir_mapped dp m s \<longleftrightarrow> inj_on (addrs (itable s dp)) {k. 64 * k < m} \<and> \<not> in_log_area s (IBLOCK (inum (itable s dp)) (sb s)) \<and>
     (\<forall>k. 64 * k < m \<longrightarrow> addrs (itable s dp) k \<noteq> 0 \<and> \<not> in_log_area s (addrs (itable s dp) k) \<and>
        addrs (itable s dp) k \<noteq> IBLOCK (inum (itable s dp)) (sb s))"

text \<open>The directory after the kernel object is written to entry \<open>j\<close>.\<close>

lemma writei_dirent:
  fixes s :: "'a fsys_scheme"
  assumes "in_tx d 2 s" "dir_ready d dp n s" "dir_mapped dp (max n (Suc j)) s" "j \<le> n" "j < 64 * NDIRECT"
  shows "\<exists>s'. writei dp (Kobj 0) (of_nat (16 * j)) dirent_size s = Some (16, s') \<and> in_tx d 0 s' \<and> sb s' = sb s \<and>
    itable s' = (itable s)(dp := (itable s dp)\<lparr>isize := of_nat (16 * max n (Suc j))\<rparr>) \<and>
    (\<forall>k < max n (Suc j). \<forall>x < 16. dirent d s' dp k x = (if k = j then kobj s x else dirent d s dp k x))"
proof -
  let ?off = "of_nat (16 * j) :: u32" and ?ad = "addrs (itable s dp)" and ?IB = "IBLOCK (inum (itable s dp)) (sb s)"
  let ?a = "?ad (j div 64)" and ?pos = "16 * (j mod 64)"
  note B = assms(3) [unfolded dir_mapped_def] and D = assms(2) [unfolded dir_ready_def]
  have j: "j < 64 * NDIRECT" "64 * (j div 64) < max n (Suc j)" using assms(5) by (simp_all add: less_max_iff_disj less_Suc_eq_le)
  have n: "n \<le> 768" using D by (simp add: NDIRECT_def)
  note off = offset_facts [OF refl j(1)]
  have sz: "unat (isize (itable s dp)) = 16 * n" using D n by (simp add: unat_of_nat_small del: of_nat_mult)
  have c: "\<not> isize (itable s dp) < ?off" "\<not> ?off + 16 < ?off" "\<not> of_nat (MAXFILE * BSIZE) < ?off + 16"
      "isize (itable s dp) < ?off + 16 \<longleftrightarrow> n < Suc j"
    using off(1,5) sz assms(4) j(1) by (auto simp: word_less_nat_alt MAXFILE_def NDIRECT_def NINDIRECT_def BSIZE_def simp del: of_nat_mult)
  have a: "?a \<noteq> 0" "\<not> in_log_area s ?a" "?a \<noteq> ?IB" using B j(2) by auto
  define v where "v = (\<lambda>k. if ?pos \<le> k \<and> k < ?pos + 16 then kobj s (k - ?pos) else cur d s ?a k)"
  have "j div 64 < NDIRECT" using j by (simp add: less_mult_imp_div_less mult.commute)
  then have b: "bmap dp (?off div of_nat BSIZE) s = Some (?a, s)" using a off(2) by (simp add: bmap_def)
  have tx: "in_tx d (Suc 1) s" using assms(1) by (simp add: numeral_2_eq_2)
  obtain i s1 s2 s3 where 1: "bread d ?a s = Some (i, s1)" "bdata (bufs s1 i) = cur d s ?a" "bio_rest s1 = bio_rest s"
      "log_write i (upd_data i (\<lambda>_. v) s1) = Some s2" "brelse i s2 = Some s3" "in_tx d 1 s3" "in_log_area s3 = in_log_area s"
      "cur d s3 = (cur d s)(?a := v)" "bio_rest s3 = (bio_rest s)\<lparr>the_log := the_log s3\<rparr>"
    using fs_update [OF tx a(2), of "\<lambda>_. v"] by blast
  note r1 = fs_rest [OF 1(3)] and r3 = fs_rest_log [OF 1(9)]
  have v: "v = (\<lambda>k. if k < ?pos then bdata (bufs s1 i) k else if k - ?pos < 16 then kobj s (k - ?pos) else bdata (bufs s1 i) (?pos + (k - ?pos)))"
    by (auto simp: v_def 1(2) fun_eq_iff)
  have "writei_loop dp (Kobj 0) ?off 16 0 s = writei_loop dp (Kobj 16) (?off + 16) 16 16 s3"
    using b a 1(1,4,5) off(3,4) D r1 by (subst writei_loop.simps) (simp add: either_copyin_def v Let_def del: of_nat_mult cong: if_cong)
  also have "\<dots> = Some (16, ?off + 16, s3)" by (subst writei_loop.simps) simp
  finally have w: "writei_loop dp (Kobj 0) ?off 16 0 s = Some (16, ?off + 16, s3)" .
  define x where "x = (itable s dp)\<lparr>isize := of_nat (16 * max n (Suc j))\<rparr>"
  define s4 where "s4 = s3\<lparr>itable := (itable s)(dp := x)\<rparr>"
  have o: "?off + 16 = of_nat (16 * Suc j)" by simp
  have s4: "(if isize (itable s3 dp) < ?off + 16 then upd_inode dp (\<lambda>x. x\<lparr>isize := ?off + 16\<rparr>) s3 else s3) = s4"
  proof (cases "n < Suc j")
    case True
    then have "max n (Suc j) = Suc j" by simp
    then show ?thesis using True c(4) r3 unfolding s4_def x_def by (simp only: o if_True)
  next
    case False
    then have "max n (Suc j) = n" by simp
    then have "x = itable s dp" using D by (simp add: x_def)
    then show ?thesis using False c(4) r3 by (simp add: s4_def)
  qed
  note F = cache_frame [of s4 s3 d]
  have f4: "in_tx d (Suc 0) s4" "cur d s4 = cur d s3" "in_log_area s4 = in_log_area s3" "itable s4 dp = x" "sb s4 = sb s"
    using 1(6) F r3 by (simp_all add: in_tx_def in_log_area_def fun_eq_iff s4_def)
  have x: "idev x = d" "inum x = inum (itable s dp)" "addrs x = ?ad" using D by (simp_all add: x_def)
  obtain s5 where 5: "iupdate dp s4 = Some s5" "in_tx d 0 s5" "sb s5 = sb s4" "itable s5 = itable s4"
      "cur d s5 = (cur d s4)(?IB := put_dinode x (dinode_off (inum x)) (cur d s4 ?IB))"
    using iupdate_spec [OF f4(1), of dp ?IB] f4 x B 1(7) by auto
  have "writei dp (Kobj 0) ?off dirent_size s = Some (16, s5)"
    using w c(1-3) s4 5(1) by (simp add: writei_def dirent_size_def Let_def del: of_nat_mult)
  moreover have "dirent d s5 dp k y = (if k = j then kobj s y else dirent d s dp k y)" if k: "k < max n (Suc j)" "y < 16" for k y
  proof -
    have kb: "64 * (k div 64) < max n (Suc j)" using k(1) by (rule le_less_trans [rotated]) simp
    have e: "?ad (k div 64) \<noteq> ?IB" "?ad (k div 64) = ?a \<longleftrightarrow> k div 64 = j div 64"
      using B kb j(2) inj_on_eq_iff [of ?ad "{k. 64 * k < max n (Suc j)}"] by auto
    have "k = j \<longleftrightarrow> k div 64 = j div 64 \<and> k mod 64 = j mod 64" by (metis div_mult_mod_eq)
    then show ?thesis using e k(2) by (auto simp: dirent_def 5(4,5) f4(2,4) x(3) 1(8) v_def)
  qed
  ultimately show ?thesis using 5(2-4) f4 by (auto simp: s4_def x_def)
qed

text \<open>
  What the next entry of a directory relies on. The entry is in a direct block. Blocks in use are not free,
  not part of the bitmap or the log, and the blocks of the directory differ. The block after the last entry may be missing.
\<close>

definition in_use :: "u32 \<Rightarrow> 'a fsys_scheme \<Rightarrow> u32 \<Rightarrow> bool" where
  "in_use d s b \<longleftrightarrow> \<not> in_log_area s b \<and> (\<forall>m < unat (sb_size (sb s)). BBLOCK (of_nat m) (sb s) \<noteq> b) \<and> (\<forall>m \<in> free_blocks d s. of_nat m \<noteq> b)"

definition dir_blocks :: "u32 \<Rightarrow> nat \<Rightarrow> nat \<Rightarrow> 'a fsys_scheme \<Rightarrow> bool" where
  "dir_blocks d dp n s \<longleftrightarrow> n < 64 * NDIRECT \<and> blocks_ok d s \<and> 0 \<notin> free_blocks d s \<and> in_use d s (IBLOCK (inum (itable s dp)) (sb s)) \<and>
     (\<forall>k \<le> n div 64. addrs (itable s dp) k \<noteq> 0 \<longrightarrow>
        in_use d s (addrs (itable s dp) k) \<and> addrs (itable s dp) k \<noteq> IBLOCK (inum (itable s dp)) (sb s) \<and>
        (\<forall>l \<le> n div 64. addrs (itable s dp) k = addrs (itable s dp) l \<longrightarrow> k = l))"

lemma dir_blocks_mapped:
  assumes "dir_ready d dp n s" "dir_blocks d dp n s" "m \<le> Suc n" "m \<le> n \<or> addrs (itable s dp) (n div 64) \<noteq> 0"
  shows "dir_mapped dp m s"
proof -
  have k: "k \<le> n div 64 \<and> addrs (itable s dp) k \<noteq> 0" if "64 * k < m" for k
  proof (cases "64 * k < n")
    case True
    then have "addrs (itable s dp) (64 * k div 64) \<noteq> 0" using assms(1) unfolding dir_ready_def by blast
    then show ?thesis using True by (simp add: less_eq_div_iff_mult_less_eq)
  next
    case False
    then have "k = n div 64" "m = Suc n" using that assms(3) by auto
    then show ?thesis using assms(4) by simp
  qed
  then have "inj_on (addrs (itable s dp)) {k. 64 * k < m}" using assms(2) by (auto simp: inj_on_def dir_blocks_def)
  moreover have "\<not> in_log_area s (IBLOCK (inum (itable s dp)) (sb s))" using assms(2) by (simp add: dir_blocks_def in_use_def)
  moreover have "addrs (itable s dp) k \<noteq> 0 \<and> \<not> in_log_area s (addrs (itable s dp) k) \<and> addrs (itable s dp) k \<noteq> IBLOCK (inum (itable s dp)) (sb s)"
    if "64 * k < m" for k using k [OF that] assms(2) by (auto simp: dir_blocks_def in_use_def)
  ultimately show ?thesis unfolding dir_mapped_def by blast
qed

text \<open>The block for the entry after the last, when it is missing: \<open>bmap\<close> takes one, if there is a free one.\<close>

lemma bmap_grows:
  fixes s :: "'a fsys_scheme"
  assumes tx: "in_tx d 4 s" and R: "dir_ready d dp n s" and B: "dir_blocks d dp n s" and a: "addrs (itable s dp) (n div 64) = 0"
  shows "if free_blocks d s = {} then \<exists>t. bmap dp (of_nat (16 * n) div of_nat BSIZE) s = Some (0, t) \<and> in_tx d 2 t \<and> cur d t = cur d s \<and>
      sb t = sb s \<and> itable t = itable s \<and> in_log_area t = in_log_area s
    else \<exists>r t. bmap dp (of_nat (16 * n) div of_nat BSIZE) s = Some (r, t) \<and> r \<noteq> 0 \<and> in_tx d 2 t \<and> sb t = sb s \<and> kobj t = kobj s \<and>
      itable t = (itable s)(dp := (itable s dp)\<lparr>addrs := (addrs (itable s dp))(n div 64 := r)\<rparr>) \<and>
      in_log_area t = in_log_area s \<and> (\<forall>b. in_use d s b \<longrightarrow> b \<noteq> r \<and> cur d t b = cur d s b) \<and> \<not> in_log_area s r"
proof -
  let ?N = "unat (sb_size (sb s))" and ?f = "find (block_free d s) [0..<unat (sb_size (sb s))]"
  note B' = B [unfolded dir_blocks_def] and R' = R [unfolded dir_ready_def]
  have n: "n < 64 * NDIRECT" "n div 64 < NDIRECT" using B' by (simp_all add: less_mult_imp_div_less mult.commute)
  note off = offset_facts(2) [OF refl n(1)]
  have tx': "in_tx d (Suc (Suc 2)) s" using tx by simp
  have "0 < BPB" by (simp add: BPB_def BSIZE_def)
  then obtain r t where 1: "balloc d s = Some (r, t)" "sb t = sb s" "itable t = itable s" "kobj t = kobj s" "in_log_area t = in_log_area s" "in_tx d 2 t"
      "case ?f of None \<Rightarrow> r = 0 \<and> cur d t = cur d s
       | Some k \<Rightarrow> r = of_nat k \<and> cur d t = (cur d s)(BBLOCK r (sb s) := bmap_set (k mod BPB) (cur d s (BBLOCK r (sb s))), r := (\<lambda>_. 0))"
    using balloc_from_spec [OF tx' _ refl, of 0] B' by (auto simp: balloc_def)
  show ?thesis
  proof (cases ?f)
    case None
    then have "free_blocks d s = {}" by (auto simp: free_blocks_def find_None_iff)
    then show ?thesis using None 1 a n off R' by (simp add: bmap_def del: of_nat_mult)
  next
    case (Some k)
    note k = Min_find(2,3) [OF Some]
    then have fk: "k \<in> free_blocks d s" by (simp add: free_blocks_def)
    have r: "r = of_nat k" "cur d t = (cur d s)(BBLOCK r (sb s) := bmap_set (k mod BPB) (cur d s (BBLOCK r (sb s))), r := (\<lambda>_. 0))"
      using 1(7) Some by auto
    have "unat r = k" unfolding r(1) using k(1) B' by (intro unat_of_nat_small) (simp add: blocks_ok_def)
    then have r0: "r \<noteq> 0" using fk B' by auto
    have u: "b \<noteq> r \<and> cur d t b = cur d s b" if "in_use d s b" for b
      using that fk k(1) unfolding in_use_def r(2) by (auto simp: r(1))
    let ?t = "upd_inode dp (\<lambda>x. x\<lparr>addrs := (addrs x)(n div 64 := r)\<rparr>) t"
    have "in_tx d 2 ?t" "cur d ?t = cur d t" "in_log_area ?t = in_log_area t"
      using 1(6) cache_frame [of ?t t d] by (simp_all add: in_tx_def in_log_area_def fun_eq_iff)
    moreover have "bmap dp (of_nat (16 * n) div of_nat BSIZE) s = Some (r, ?t)" using 1(1) a n off R' r0 by (simp add: bmap_def del: of_nat_mult)
    moreover have "\<not> in_log_area s r" using B' k unfolding blocks_ok_def r(1) by blast
    ultimately show ?thesis using fk r0 u 1 by (auto simp del: fun_upd_apply of_nat_mult)
  qed
qed

text \<open>Writing the entry \<open>j\<close> of a directory is writing it in a state in which the block is there.\<close>

definition dir_room :: "u32 \<Rightarrow> nat \<Rightarrow> nat \<Rightarrow> nat \<Rightarrow> 'a fsys_scheme \<Rightarrow> bool" where
  "dir_room d dp n j s \<longleftrightarrow> j < n \<or> addrs (itable s dp) (n div 64) \<noteq> 0 \<or> free_blocks d s \<noteq> {}"

lemma writei_same:
  assumes "bmap dp (off div of_nat BSIZE) s = Some (r, t)" "bmap dp (off div of_nat BSIZE) t = Some (r, t)" "isize (itable t dp) = isize (itable s dp)"
    and "off \<le> isize (itable s dp)" "\<not> off + dirent_size < off" "\<not> of_nat (MAXFILE * BSIZE) < off + dirent_size"
  shows "writei dp src off dirent_size s = writei dp src off dirent_size t"
proof -
  have "writei_loop dp src off dirent_size 0 s = writei_loop dp src off dirent_size 0 t"
    unfolding writei_loop.simps [of dp src off dirent_size 0 s] writei_loop.simps [of dp src off dirent_size 0 t] assms(1,2)
    by (simp add: dirent_size_def)
  then show ?thesis using assms(3-6) by (simp add: writei_def)
qed

lemma dirent_offset:
  assumes "n < 64 * NDIRECT"
  shows "\<not> of_nat (16 * n) + dirent_size < (of_nat (16 * n) :: u32)" "\<not> of_nat (MAXFILE * BSIZE) < (of_nat (16 * n) :: u32) + dirent_size"
  using offset_facts(1,5) [OF refl assms] assms
  by (auto simp: word_less_nat_alt MAXFILE_def NDIRECT_def NINDIRECT_def BSIZE_def dirent_size_def simp del: of_nat_mult)

lemma dir_space:
  fixes s :: "'a fsys_scheme"
  assumes tx: "in_tx d 4 s" and R: "dir_ready d dp n s" and B: "dir_blocks d dp n s" and j: "j \<le> n" and room: "dir_room d dp n j s"
  shows "\<exists>t ad. in_tx d 2 t \<and> dir_ready d dp n t \<and> dir_mapped dp (max n (Suc j)) t \<and> kobj t = kobj s \<and>
    itable t = (itable s)(dp := (itable s dp)\<lparr>addrs := ad\<rparr>) \<and> (\<forall>k < n. dirent d t dp k = dirent d s dp k) \<and>
    writei dp (Kobj 0) (of_nat (16 * j)) dirent_size s = writei dp (Kobj 0) (of_nat (16 * j)) dirent_size t"
proof (cases "j < n \<or> addrs (itable s dp) (n div 64) \<noteq> 0")
  case True
  then have "dir_mapped dp (max n (Suc j)) s" using j by (intro dir_blocks_mapped [OF R B]) auto
  moreover have "in_tx d 2 s" using tx by (simp add: in_tx_def)
  moreover have "itable s = (itable s)(dp := (itable s dp)\<lparr>addrs := addrs (itable s dp)\<rparr>)" by simp
  ultimately show ?thesis using R by blast
next
  case False
  then have a: "addrs (itable s dp) (n div 64) = 0" "j = n" "free_blocks d s \<noteq> {}" using j room by (auto simp: dir_room_def)
  let ?ad = "addrs (itable s dp)" and ?IB = "IBLOCK (inum (itable s dp)) (sb s)"
  obtain r t where t: "bmap dp (of_nat (16 * n) div of_nat BSIZE) s = Some (r, t)" "r \<noteq> 0" "in_tx d 2 t" "sb t = sb s" "kobj t = kobj s"
      "itable t = (itable s)(dp := (itable s dp)\<lparr>addrs := ?ad(n div 64 := r)\<rparr>)" "in_log_area t = in_log_area s"
      "\<And>b. in_use d s b \<Longrightarrow> b \<noteq> r \<and> cur d t b = cur d s b" "\<not> in_log_area s r"
    using bmap_grows [OF tx R B a(1)] a(3) by auto
  note B' = B [unfolded dir_blocks_def] and R' = R [unfolded dir_ready_def]
  have old: "?ad (k div 64) \<noteq> 0" "k div 64 \<noteq> n div 64" "in_use d s (?ad (k div 64))" if "k < n" for k
  proof -
    show z: "?ad (k div 64) \<noteq> 0" using R' that by blast
    then show "k div 64 \<noteq> n div 64" using a(1) by metis
    show "in_use d s (?ad (k div 64))" using B' z that by (auto simp: div_le_mono less_imp_le)
  qed
  have "dir_ready d dp n t" using t(3,6) R' old by (auto simp: dir_ready_def in_tx_def)
  moreover have "dir_mapped dp (max n (Suc j)) t"
  proof -
    have k: "k = n div 64 \<or> k < n div 64 \<and> ?ad k \<noteq> 0 \<and> in_use d s (?ad k) \<and> ?ad k \<noteq> ?IB" if "64 * k < Suc n" for k
    proof (cases "64 * k < n")
      case True
      then have "k \<le> n div 64" by (simp add: less_eq_div_iff_mult_less_eq)
      then show ?thesis using old [OF True] B' by auto
    qed (use that in auto)
    have "r \<noteq> ?IB" using t(8) B' by blast
    moreover have "inj_on (?ad(n div 64 := r)) {k. 64 * k < Suc n}"
      using B' k t(8) by (auto simp: inj_on_def) (metis less_imp_le)+
    moreover have "\<not> in_log_area s ?IB" using B' by (simp add: in_use_def)
    ultimately show ?thesis using k t(2,4,6,7,9) a(2) by (auto simp: dir_mapped_def in_use_def)
  qed
  moreover have "dirent d t dp k = dirent d s dp k" if "k < n" for k
    using old [OF that] t(8) by (auto simp: dirent_def t(6))
  moreover have "writei dp (Kobj 0) (of_nat (16 * j)) dirent_size s = writei dp (Kobj 0) (of_nat (16 * j)) dirent_size t"
  proof -
    have n: "n < 64 * NDIRECT" "n div 64 < NDIRECT" using B' by (simp_all add: less_mult_imp_div_less mult.commute)
    have "bmap dp (of_nat (16 * n) div of_nat BSIZE) t = Some (r, t)"
      using offset_facts(2) [OF refl n(1)] n(2) t(2) by (simp add: bmap_def t(6) del: of_nat_mult)
    then show ?thesis using t(1,6) dirent_offset [OF n(1)] R' unfolding a(2) by (intro writei_same) (simp_all del: of_nat_mult)
  qed
  ultimately show ?thesis using t(3,5,6) by blast
qed

text \<open>Without a free block for it the entry is not written.\<close>

lemma writei_no_room:
  fixes s :: "'a fsys_scheme"
  assumes tx: "in_tx d 4 s" and R: "dir_ready d dp n s" and B: "dir_blocks d dp n s" and room: "\<not> dir_room d dp n n s"
  shows "\<exists>t. writei dp (Kobj 0) (of_nat (16 * n)) dirent_size s = Some (0, t) \<and> itable t = itable s \<and> (\<forall>k < n. dirent d t dp k = dirent d s dp k)"
proof -
  let ?off = "of_nat (16 * n) :: u32" and ?IB = "IBLOCK (inum (itable s dp)) (sb s)"
  note B' = B [unfolded dir_blocks_def] and R' = R [unfolded dir_ready_def]
  have n: "n < 64 * NDIRECT" using B' by simp
  obtain t where t: "bmap dp (?off div of_nat BSIZE) s = Some (0, t)" "in_tx d 2 t" "cur d t = cur d s" "sb t = sb s" "itable t = itable s"
      "in_log_area t = in_log_area s"
    using bmap_grows [OF tx R B] room by (auto simp: dir_room_def)
  have "in_tx d (Suc 1) t" using t(2) by (simp add: numeral_2_eq_2)
  then obtain u where u: "iupdate dp t = Some u" "itable u = itable t"
      "cur d u = (cur d t)(?IB := put_dinode (itable t dp) (dinode_off (inum (itable t dp))) (cur d t ?IB))"
    using iupdate_spec [of d 1 t dp ?IB] t(4-6) B' R' by (auto simp: in_use_def)
  have "writei_loop dp (Kobj 0) ?off 16 0 s = Some (0, ?off, t)" using t(1) by (subst writei_loop.simps) (simp del: of_nat_mult)
  then have "writei dp (Kobj 0) ?off dirent_size s = Some (0, u)"
    using dirent_offset [OF n] t(5) u(1) R' by (simp add: writei_def dirent_size_def Let_def del: of_nat_mult)
  moreover have "dirent d u dp k = dirent d s dp k" if "k < n" for k
  proof -
    have "addrs (itable s dp) (k div 64) \<noteq> ?IB" using B' R' that by (meson div_le_mono less_imp_le)
    then show ?thesis using u(2,3) t(3,5) by (simp add: dirent_def)
  qed
  ultimately show ?thesis using u(2) t(5) by auto
qed

lemma put_dirent_fields:
  "de_inum (put_dirent nm i e) = i" "cstr_n (de_name (put_dirent nm i e)) DIRSIZ = cstr_n nm DIRSIZ"
proof -
  let ?n = "strncpy (\<lambda>k. e (2 + k)) nm (int DIRSIZ)"
  show "de_inum (put_dirent nm i e) = i" by (simp add: de_inum_def put_dirent_def Let_def)
  have "cstr_n (de_name (put_dirent nm i e)) DIRSIZ = cstr_n ?n DIRSIZ"
    by (intro cstr_n_cong) (simp add: de_name_def put_dirent_def Let_def put16_apply_other)
  also have "\<dots> = cstr_n nm DIRSIZ" using strncpy_strncmp [of "\<lambda>k. e (2 + k)" nm DIRSIZ] by (simp add: strncmp_eq_0)
  finally show "cstr_n (de_name (put_dirent nm i e)) DIRSIZ = cstr_n nm DIRSIZ" .
qed

lemma dirlookup_spec:
  fixes s :: "'a fsys_scheme"
  assumes "dir_ready d dp n s" "itype (itable s dp) = T_DIR" "iget_room s" "\<forall>k. 0 \<le> iref (itable s k)"
  shows "\<exists>r t. dirlookup dp nm s = Some (r, t) \<and> cur d t = cur d s \<and>
    (case find (\<lambda>j. named nm (dirent d s dp j)) [0..<n] of
       None \<Rightarrow> r = None \<and> itable t = itable s
     | Some j \<Rightarrow> (\<exists>ip. r = Some (ip, of_nat (16 * j)) \<and> ip < NINODE \<and> idev (itable t ip) = d \<and>
          inum (itable t ip) = ucast (de_inum (dirent d s dp j)) \<and> 0 < iref (itable t ip)))"
proof -
  let ?f = "find (\<lambda>j. named nm (dirent d s dp j)) [0..<n]"
  obtain t where t: "same_fs d s t" "dirlookup dp nm s =
      (case ?f of None \<Rightarrow> Some (None, t)
       | Some j \<Rightarrow> do { (ip, t) \<leftarrow> iget d (ucast (de_inum (dirent d s dp j))) t; Some (Some (ip, of_nat (16 * j)), t) })"
    using dirlookup_from_spec [OF assms(1), of 0 nm] assms(2) by (auto simp: dirlookup_def)
  have it: "itable t = itable s" "cur d t = cur d s" using t(1) by (simp_all add: same_fs_def)
  show ?thesis
  proof (cases ?f)
    case None
    then show ?thesis using t(2) it by auto
  next
    case (Some j)
    obtain ip x where g: "iget d (ucast (de_inum (dirent d s dp j))) t = Some (ip, t\<lparr>itable := (itable t)(ip := x)\<rparr>)" "ip < NINODE" "idev x = d"
        "inum x = ucast (de_inum (dirent d s dp j))" "0 < iref x"
      using iget_spec [of t d "ucast (de_inum (dirent d s dp j))"] assms(3,4) it by (auto simp: iget_room_def)
    moreover have "cur d (t\<lparr>itable := (itable t)(ip := x)\<rparr>) = cur d t" using cache_frame(3) [of "t\<lparr>itable := (itable t)(ip := x)\<rparr>" t d] by simp
    ultimately show ?thesis using Some t(2) it by (auto simp del: fun_upd_apply intro!: exI [of _ ip]) simp_all
  qed
qed

lemma same_fs_tx:
  assumes "same_fs d s t"
  shows "in_tx d k s \<Longrightarrow> in_tx d k t" "dir_blocks d dp n t = dir_blocks d dp n s" "dir_room d dp n j t = dir_room d dp n j s"
proof -
  have l: "in_log_area t = in_log_area s" using assms by (simp add: same_fs_def in_log_area_def fun_eq_iff)
  then have "free_blocks d t = free_blocks d s" "blocks_ok d t = blocks_ok d s"
    using assms by (simp_all add: same_fs_def free_blocks_def block_free_def blocks_ok_def)
  note l = l this
  show "dir_blocks d dp n t = dir_blocks d dp n s" "dir_room d dp n j t = dir_room d dp n j s"
    using assms l by (simp_all add: same_fs_def dir_blocks_def in_use_def dir_room_def)
  show "in_tx d k s \<Longrightarrow> in_tx d k t" using assms by (simp add: same_fs_def in_tx_def)
qed

lemma same_fs_kobj: "log_ready d s \<Longrightarrow> same_fs d s (s\<lparr>kobj := kb\<rparr>)"
  using cache_frame [of "s\<lparr>kobj := kb\<rparr>" s d] by (simp add: same_fs_def)

lemma free_slot_le: "free_slot d s dp n \<le> n"
  by (auto simp: free_slot_def dest: find_SomeD split: option.splits)

text \<open>The steps of \<open>dirlink\<close> for a name that is not there.\<close>

lemma dirlink_steps:
  fixes s :: "'a fsys_scheme"
  assumes "dir_ready d dp n s" "itype (itable s dp) = T_DIR" "\<forall>j < n. \<not> named nm (dirent d s dp j)" "j = free_slot d s dp n"
  shows "\<exists>v e. same_fs d s v \<and> kobj v = put_dirent nm (ucast i) e \<and>
    dirlink dp nm i s = do { (r, s) \<leftarrow> writei dp (Kobj 0) (of_nat (16 * j)) dirent_size v; Some (if r \<noteq> uint dirent_size then -1 else 0, s) }"
proof -
  have "find (\<lambda>j. named nm (dirent d s dp j)) [0..<n] = None" using assms(3) by (auto simp: find_None_iff)
  then obtain t where t: "same_fs d s t" "dirlookup dp nm s = Some (None, t)"
    using dirlookup_from_spec [OF assms(1), of 0 nm] assms(2) by (auto simp: dirlookup_def)
  obtain u where u: "same_fs d t u" "dirlink_slot dp 0 t = Some (of_nat (16 * j), u)"
    using dirlink_slot_from [OF same_fs_dir(1) [OF t(1) assms(1)], of 0] unfolding same_fs_dir(2) [OF t(1)]
    by (auto simp: assms(4) free_slot_def)
  define v where "v = u\<lparr>kobj := put_dirent nm (ucast i) (kobj u)\<rparr>"
  have "log_ready d u" using u(1) by (simp add: same_fs_def)
  then have "same_fs d s v" unfolding v_def by (intro same_fs_trans [OF t(1)] same_fs_trans [OF u(1)] same_fs_kobj)
  moreover have "kobj v = put_dirent nm (ucast i) (kobj u)" by (simp add: v_def)
  ultimately show ?thesis using t(2) u(2) by (intro exI [of _ v] exI [of _ "kobj u"]) (simp add: dirlink_def v_def [symmetric])
qed

lemma dirlink_spec:
  fixes s :: "'a fsys_scheme"
  assumes "in_tx d 4 s" "dir_ready d dp n s" "dir_blocks d dp n s" "itype (itable s dp) = T_DIR"
    and "\<forall>j < n. \<not> named nm (dirent d s dp j)" "j = free_slot d s dp n" "dir_room d dp n j s"
  shows "\<exists>s1 e ad. dirlink dp nm i s = Some (0, s1) \<and> dir_ready d dp (max n (Suc j)) s1 \<and>
    itable s1 = (itable s)(dp := (itable s dp)\<lparr>addrs := ad, isize := of_nat (16 * max n (Suc j))\<rparr>) \<and>
    (\<forall>k < max n (Suc j). \<forall>x < 16. dirent d s1 dp k x = (if k = j then put_dirent nm (ucast i) e x else dirent d s dp k x))"
proof -
  have j: "j \<le> n" using free_slot_le assms(6) by simp
  obtain v e where v: "same_fs d s v" "kobj v = put_dirent nm (ucast i) e"
      "dirlink dp nm i s = do { (r, s) \<leftarrow> writei dp (Kobj 0) (of_nat (16 * j)) dirent_size v; Some (if r \<noteq> uint dirent_size then -1 else 0, s) }"
    using dirlink_steps [OF assms(2,4,5,6)] by blast
  note V = same_fs_tx [OF v(1)] same_fs_dir [OF v(1)]
  have iv: "itable v = itable s" using v(1) by (simp add: same_fs_def)
  obtain t ad where t: "in_tx d 2 t" "dir_ready d dp n t" "dir_mapped dp (max n (Suc j)) t" "kobj t = kobj v"
      "itable t = (itable v)(dp := (itable v dp)\<lparr>addrs := ad\<rparr>)" "\<And>k. k < n \<Longrightarrow> dirent d t dp k = dirent d v dp k"
      "writei dp (Kobj 0) (of_nat (16 * j)) dirent_size v = writei dp (Kobj 0) (of_nat (16 * j)) dirent_size t"
    using dir_space [of d v dp n j] V assms(1-3,7) j by auto
  have nd: "j < 64 * NDIRECT" "n < 64 * NDIRECT" using assms(3) j by (simp_all add: dir_blocks_def)
  obtain s1 where 1: "writei dp (Kobj 0) (of_nat (16 * j)) dirent_size t = Some (16, s1)" "in_tx d 0 s1"
      "itable s1 = (itable t)(dp := (itable t dp)\<lparr>isize := of_nat (16 * max n (Suc j))\<rparr>)"
      "\<And>k x. k < max n (Suc j) \<Longrightarrow> x < 16 \<Longrightarrow> dirent d s1 dp k x = (if k = j then kobj t x else dirent d t dp k x)"
    using writei_dirent [OF t(1-3) j nd(1)] by blast
  have "addrs (itable t dp) (k div 64) \<noteq> 0" if "k < max n (Suc j)" for k
    using t(3) le_less_trans [OF _ that, of "64 * (k div 64)"] by (simp add: dir_mapped_def)
  then have "dir_ready d dp (max n (Suc j)) s1"
    using 1(2,3) t(2) nd unfolding dir_ready_def in_tx_def by (auto simp: Suc_le_eq)
  moreover have "dirent d s1 dp k x = (if k = j then put_dirent nm (ucast i) e x else dirent d s dp k x)" if "k < max n (Suc j)" "x < 16" for k x
    using 1(4) [OF that] t(4,6) v(2) V(5) that j by (cases "k = j") (auto simp: less_max_iff_disj)
  moreover have "dirlink dp nm i s = Some (0, s1)" using v(3) t(7) 1(1) by (simp add: dirent_size_def del: of_nat_mult)
  moreover have "itable s1 = (itable s)(dp := (itable s dp)\<lparr>addrs := ad, isize := of_nat (16 * max n (Suc j))\<rparr>)"
    unfolding 1(3) t(5) iv by (simp del: of_nat_mult)
  ultimately show ?thesis by blast
qed

text \<open>
  C20: In a directory whose entries are in the direct blocks, \<open>dirlookup\<close> finds the first entry that is
  in use and has the name, compared up to 14 characters: it returns the inode with the number and
  the offset of that entry, or nothing when no entry has the name. It never panics while the table of inodes has
  room, and leaves the disk as it is.
\<close>
theorem dirlookup_first:
  fixes s :: "'a fsys_scheme"
  assumes "dir_ready d dp n s" "itype (itable s dp) = T_DIR" "iget_room s" "\<forall>k. 0 \<le> iref (itable s k)"
  shows "\<exists>r t. dirlookup dp nm s = Some (r, t) \<and> cur d t = cur d s \<and>
    (case find (\<lambda>j. named nm (dirent d s dp j)) [0..<n] of
       None \<Rightarrow> r = None \<and> itable t = itable s
     | Some j \<Rightarrow> (\<exists>ip. r = Some (ip, of_nat (16 * j)) \<and> ip < NINODE \<and> idev (itable t ip) = d \<and>
          inum (itable t ip) = ucast (de_inum (dirent d s dp j)) \<and> 0 < iref (itable t ip)))"
  by (rule dirlookup_spec [OF assms])

text \<open>The entry that \<open>dirlink\<close> has written is the one that \<open>dirlookup\<close> finds.\<close>

lemma linked_found:
  fixes s :: "'a fsys_scheme"
  assumes "dir_ready d dp m s" "itype (itable s dp) = T_DIR" "iget_room s" "\<forall>k. 0 \<le> iref (itable s k)" "0 < i" "i < 2 ^ 16" "j < m"
    and e: "\<And>x. x < 16 \<Longrightarrow> dirent d s dp j x = put_dirent nm (ucast (of_nat i :: u32)) e x"
    and old: "\<And>k. k < j \<Longrightarrow> \<not> named nm (dirent d s dp k)"
  shows "\<exists>ip t. dirlookup dp nm s = Some (Some (ip, of_nat (16 * j)), t) \<and> idev (itable t ip) = d \<and> inum (itable t ip) = of_nat i"
proof -
  obtain r t where r: "dirlookup dp nm s = Some (r, t)"
    "case find (\<lambda>j. named nm (dirent d s dp j)) [0..<m] of None \<Rightarrow> r = None \<and> itable t = itable s
     | Some j \<Rightarrow> (\<exists>ip. r = Some (ip, of_nat (16 * j)) \<and> ip < NINODE \<and> idev (itable t ip) = d \<and>
          inum (itable t ip) = ucast (de_inum (dirent d s dp j)) \<and> 0 < iref (itable t ip))"
    using dirlookup_spec [OF assms(1-4), of nm] by blast
  have i16: "unat (ucast (of_nat i :: u32) :: u16) = i"
    using assms(6) by (simp add: unsigned_ucast_eq unsigned_take_bit_eq unat_of_nat_small take_bit_nat_eq_self)
  have "de_inum (dirent d s dp j) = ucast (of_nat i :: u32)" using de_inum_cong [OF e] by (simp add: put_dirent_fields)
  moreover have "ucast (ucast (of_nat i :: u32) :: u16) = (of_nat i :: u32)"
    using i16 assms(6) by (intro unsigned_word_eqI [where ?'a = nat]) (simp add: unsigned_ucast_eq unsigned_take_bit_eq unat_of_nat_small take_bit_nat_eq_self)
  moreover have "find (\<lambda>j. named nm (dirent d s dp j)) [0..<m] = Some j"
  proof -
    have "(ucast (of_nat i :: u32) :: u16) \<noteq> 0" using i16 assms(5) by (metis less_irrefl unat_0)
    then have "named nm (dirent d s dp j)" using named_cong [OF e] by (simp add: named_def put_dirent_fields namecmp_def strncmp_eq_0)
    then show ?thesis using old assms(7) by (auto simp: find_Some_iff intro!: exI [of _ j])
  qed
  ultimately show ?thesis using r by auto
qed

lemma dirlink_no_room:
  fixes s :: "'a fsys_scheme"
  assumes "in_tx d 4 s" "dir_ready d dp n s" "dir_blocks d dp n s" "itype (itable s dp) = T_DIR"
    and "\<forall>j < n. \<not> named nm (dirent d s dp j)" "j = free_slot d s dp n" "\<not> dir_room d dp n j s"
  shows "\<exists>s1. dirlink dp nm i s = Some (-1, s1) \<and> itable s1 = itable s \<and> (\<forall>k < n. dirent d s1 dp k = dirent d s dp k)"
proof -
  have j: "j = n" using free_slot_le [of d s dp n] assms(6,7) by (auto simp: dir_room_def)
  obtain v where v: "same_fs d s v"
      "dirlink dp nm i s = do { (r, s) \<leftarrow> writei dp (Kobj 0) (of_nat (16 * n)) dirent_size v; Some (if r \<noteq> uint dirent_size then -1 else 0, s) }"
    using dirlink_steps [OF assms(2,4,5,6)] j by blast
  note V = same_fs_tx [OF v(1)] same_fs_dir [OF v(1)]
  have "itable v = itable s" using v(1) by (simp add: same_fs_def)
  moreover obtain t where "writei dp (Kobj 0) (of_nat (16 * n)) dirent_size v = Some (0, t)" "itable t = itable v" "\<forall>k < n. dirent d t dp k = dirent d v dp k"
    using writei_no_room [of d v dp n] V assms(1-3,7) j by auto
  ultimately show ?thesis using v(2) V(5) by (simp add: dirent_size_def del: of_nat_mult)
qed

text \<open>
  C6: A directory has \<open>n\<close> entries in its direct blocks, there is space for one more in them, and no entry has the
  name. Then \<open>dirlink\<close> puts the name into the first empty slot, or at the end, and returns 0, and \<open>dirlookup\<close> finds the
  name there, with the inode number it was linked to. When the end is in a block the directory does not have
  yet, the block is allocated, and only when there is no free block on the disk the call fails with -1 and the
  table of inodes is as before. In all cases every other entry stays as it is. The call is in a
  transaction with space for four more blocks.
\<close>
theorem dirlink_dirlookup:
  fixes s :: "'a fsys_scheme"
  assumes "in_tx d 4 s" "dir_ready d dp n s" "dir_blocks d dp n s" "itype (itable s dp) = T_DIR" "iget_room s" "\<forall>k. 0 \<le> iref (itable s k)"
    and "\<forall>j < n. \<not> named nm (dirent d s dp j)" "0 < i" "i < 2 ^ 16" "j = free_slot d s dp n"
  shows "\<exists>r s1. dirlink dp nm (of_nat i) s = Some (r, s1) \<and>
    r = (if j < n \<or> addrs (itable s dp) (n div 64) \<noteq> 0 \<or> free_blocks d s \<noteq> {} then 0 else -1) \<and>
    (\<forall>k < n. k \<noteq> j \<longrightarrow> (\<forall>x < 16. dirent d s1 dp k x = dirent d s dp k x)) \<and>
    (if r = 0
     then isize (itable s1 dp) = of_nat (16 * max n (Suc j)) \<and>
       (\<exists>ip s2. dirlookup dp nm s1 = Some (Some (ip, of_nat (16 * j)), s2) \<and> idev (itable s2 ip) = d \<and> inum (itable s2 ip) = of_nat i)
     else itable s1 = itable s)"
proof (cases "dir_room d dp n j s")
  case True
  have j: "j \<le> n" using free_slot_le assms(10) by simp
  obtain s1 e ad where 1: "dirlink dp nm (of_nat i) s = Some (0, s1)" "dir_ready d dp (max n (Suc j)) s1"
      "itable s1 = (itable s)(dp := (itable s dp)\<lparr>addrs := ad, isize := of_nat (16 * max n (Suc j))\<rparr>)"
      "\<And>k x. k < max n (Suc j) \<Longrightarrow> x < 16 \<Longrightarrow>
         dirent d s1 dp k x = (if k = j then put_dirent nm (ucast (of_nat i :: u32)) e x else dirent d s dp k x)"
    using dirlink_spec [OF assms(1-4,7,10) True, of "of_nat i"] by blast
  have "\<not> named nm (dirent d s1 dp k)" if "k < j" for k
    using named_cong [of "dirent d s1 dp k" "dirent d s dp k" nm] 1(4) [of k] assms(7) that j by simp
  moreover have "iref (itable s1 k) = iref (itable s k)" for k by (simp add: 1(3))
  ultimately have "\<exists>ip s2. dirlookup dp nm s1 = Some (Some (ip, of_nat (16 * j)), s2) \<and> idev (itable s2 ip) = d \<and> inum (itable s2 ip) = of_nat i"
    using assms(4-6) 1(4) by (intro linked_found [OF 1(2) _ _ _ assms(8,9), where e = e]) (auto simp: iget_room_def 1(3) simp del: fun_upd_apply, simp)
  moreover have "\<forall>k < n. k \<noteq> j \<longrightarrow> (\<forall>x < 16. dirent d s1 dp k x = dirent d s dp k x)" using 1(4) by simp
  ultimately show ?thesis
    using True 1(1,3) by (intro exI [of _ 0] exI [of _ s1]) (simp add: dir_room_def del: of_nat_mult)
next
  case False
  then show ?thesis using dirlink_no_room [OF assms(1-4,7,10) False, of "of_nat i"] by (auto simp: dir_room_def)
qed

text \<open>The names \<open>a\<close> and \<open>b\<close> in the directory of the example.\<close>

definition one_letter :: "u8 \<Rightarrow> bytes" where
  "one_letter c k = (if k = 0 then c else 0)"

abbreviation dir_fs :: fsys where
  "dir_fs \<equiv> boot_fs mkfs_log boot_inode"

lemma dir_fs_entries: "dirent 1 dir_fs 0 0 = boot_blocks 46" "dirent 1 dir_fs 0 1 = (\<lambda>k. boot_blocks 46 (16 + k))"
  unfolding dirent_def boot_fs_abs by (simp_all add: boot_inode_def)

lemma boot_entries:
  "de_inum (boot_blocks 46) = 0" "de_inum (\<lambda>k. boot_blocks 46 (16 + k)) = 7" "named (one_letter 97) (\<lambda>k. boot_blocks 46 (16 + k))"
  "\<not> named (one_letter 98) (\<lambda>k. boot_blocks 46 (16 + k))" "\<not> named nm (boot_blocks 46)"
proof -
  show z: "de_inum (boot_blocks 46) = 0" by code_simp
  then show "\<not> named nm (boot_blocks 46)" by (simp add: named_def)
qed code_simp+

lemma dir_fs_ready: "dir_ready 1 0 2 dir_fs" "iget_room dir_fs" "\<forall>k. 0 \<le> iref (itable dir_fs k)" "itype (itable dir_fs 0) = T_DIR"
  using boot_fs_ready [of mkfs_log 1 boot_inode]
  by (auto simp: dir_ready_def boot_inode_def no_inode_def NDIRECT_def iget_room_def T_DIR_def mkfs_log_def intro!: exI [of _ "Suc 0"])

text \<open>A directory that has no block yet.\<close>

abbreviation empty_fs :: fsys where
  "empty_fs \<equiv> boot_fs mkfs_log (boot_inode\<lparr>isize := 0, addrs := (\<lambda>_. 0)\<rparr>)"

lemma empty_fs_ready: "dir_ready 1 0 0 empty_fs" "iget_room empty_fs" "\<forall>k. 0 \<le> iref (itable empty_fs k)" "itype (itable empty_fs 0) = T_DIR"
  using boot_fs_ready [of mkfs_log 1]
  by (auto simp: dir_ready_def boot_inode_def no_inode_def NDIRECT_def iget_room_def T_DIR_def mkfs_log_def intro!: exI [of _ "Suc 0"])

lemma boot_in_use:
  assumes "uint b < 48" "32 \<le> uint b" "b \<noteq> 45"
  shows "in_use 1 (boot_fs mkfs_log x) b"
proof -
  have "BBLOCK (of_nat m) mkfs_sb \<noteq> b" if "m < 2000" for m using that assms(3) by (simp add: BBLOCK_of_nat BPB_def BSIZE_def mkfs_sb_def)
  moreover have "of_nat m \<noteq> b" if "48 \<le> m" "m < 2000" for m using that assms(1) by (auto simp: unsigned_of_nat take_bit_nat_eq_self)
  moreover have "\<not> in_log_area (boot_fs mkfs_log x) b" using assms(2) by (simp add: in_log_area_def in_log_def mkfs_log_def)
  ultimately show ?thesis by (simp add: in_use_def boot_fs_free, simp add: mkfs_sb_def)
qed

lemma boot_dir_blocks: "dir_blocks 1 0 2 dir_fs" "dir_blocks 1 0 0 empty_fs"
  using boot_in_use [of 32] boot_in_use [of 46]
  by (simp_all add: dir_blocks_def boot_fs_blocks boot_fs_free NDIRECT_def boot_inode_def IBLOCK_def mkfs_sb_def IPB_def BSIZE_def dinode_size_def)

theorem dirlookup_first_witness:
  "\<exists>ip t. dirlookup 0 (one_letter 97) dir_fs = Some (Some (ip, 16), t) \<and> inum (itable t ip) = 7"
proof -
  have "find (\<lambda>j. named (one_letter 97) (dirent 1 dir_fs 0 j)) [0..<2] = Some 1"
    using boot_entries by (simp add: numeral_2_eq_2 dir_fs_entries [simplified])
  then show ?thesis
    using dirlookup_first [OF dir_fs_ready(1,4,2,3), of "one_letter 97"] boot_entries(2) by (auto simp: dir_fs_entries [simplified])
qed

theorem dirlink_dirlookup_witness:
  "(\<exists>s1 ip s2. dirlink 0 (one_letter 98) 9 dir_fs = Some (0, s1) \<and> dirlookup 0 (one_letter 98) s1 = Some (Some (ip, 0), s2) \<and>
     inum (itable s2 ip) = 9) \<and>
   (\<exists>s1 ip s2. dirlink 0 (one_letter 98) 9 empty_fs = Some (0, s1) \<and> isize (itable s1 0) = 16 \<and>
     dirlookup 0 (one_letter 98) s1 = Some (Some (ip, 0), s2) \<and> inum (itable s2 ip) = 9)"
proof
  have "\<forall>j < 2. \<not> named (one_letter 98) (dirent 1 dir_fs 0 j)"
    using boot_entries by (auto simp: less_2_cases_iff dir_fs_entries [simplified])
  moreover have "0 = free_slot 1 dir_fs 0 2" using boot_entries by (simp add: free_slot_def numeral_2_eq_2 dir_fs_entries [simplified])
  ultimately show "\<exists>s1 ip s2. dirlink 0 (one_letter 98) 9 dir_fs = Some (0, s1) \<and>
      dirlookup 0 (one_letter 98) s1 = Some (Some (ip, 0), s2) \<and> inum (itable s2 ip) = 9"
    using dirlink_dirlookup [of 1 dir_fs 0 2 "one_letter 98" 9 0] dir_fs_ready boot_dir_blocks(1) boot_fs_tx [of 4] by fastforce
  have "0 = free_slot 1 empty_fs 0 0" by (simp add: free_slot_def)
  then show "\<exists>s1 ip s2. dirlink 0 (one_letter 98) 9 empty_fs = Some (0, s1) \<and> isize (itable s1 0) = 16 \<and>
      dirlookup 0 (one_letter 98) s1 = Some (Some (ip, 0), s2) \<and> inum (itable s2 ip) = 9"
    using dirlink_dirlookup [of 1 empty_fs 0 0 "one_letter 98" 9 0] empty_fs_ready boot_dir_blocks(2) boot_fs_tx [of 4] boot_fs_free by fastforce
qed

end
