(* ===== verification/Serial.thy ===== *)
theory Serial
  imports Console Ring Fs_Alloc
begin

text \<open>
  Progress and input editing on the serial port: \<^verbatim>\<open>kernel/uart.c\<close> and \<^verbatim>\<open>kernel/console.c\<close> under the
  assumption that the transmitter reports again and again that it is idle.
\<close>

section \<open>The transmit buffer is a queue\<close>

definition tx_items :: "txring \<Rightarrow> u8 list" where
  "tx_items q = ring_items 32 (uart_tx_buf q) (unat (uart_tx_r q)) (unat (uart_tx_w q - uart_tx_r q))"

definition tx_ok :: "txring \<Rightarrow> bool" where
  "tx_ok q \<longleftrightarrow> unat (uart_tx_w q - uart_tx_r q) \<le> 32"

lemma ring_position:
  fixes r w :: "'a::len word"
  assumes "N dvd 2 ^ LENGTH('a)"
  shows "unat w mod N = (unat r + unat (w - r)) mod N"
  using unat_mod_ring [OF assms, of r "unat (w - r)"] by simp

lemma unat_plus1:
  fixes r w :: "'a::len word"
  assumes "w - r \<noteq> - 1"
  shows "unat (w + 1 - r) = Suc (unat (w - r))"
proof -
  have "1 + (w - r) \<noteq> 0" using assms by (metis add.commute add_eq_0_iff2)
  then have "unat (1 + (w - r)) = Suc (unat (w - r))" by (rule unatSuc)
  then show ?thesis by (simp add: algebra_simps)
qed

lemma unat_minus1:
  fixes r w :: "'a::len word"
  assumes "w \<noteq> r"
  shows "unat (w - 1 - r) = unat (w - r) - 1" "unat (w - (r + 1)) = unat (w - r) - 1" "0 < unat (w - r)"
proof -
  have "w - r \<noteq> 0" using assms by simp
  then show "0 < unat (w - r)" by (simp add: unat_gt_0)
  have "unat (w - r - 1) = unat (w - r) - 1" using \<open>w - r \<noteq> 0\<close> by (rule unat_minus_one)
  then show "unat (w - 1 - r) = unat (w - r) - 1" "unat (w - (r + 1)) = unat (w - r) - 1" by (simp_all add: algebra_simps)
qed

lemma tx_put_items:
  assumes "tx_ok q" "uart_tx_w q \<noteq> uart_tx_r q + UART_TX_BUF_SIZE"
  shows "tx_items (tx_put x q) = tx_items q @ [x] \<and> tx_ok (tx_put x q)"
proof -
  let ?n = "unat (uart_tx_w q - uart_tx_r q)"
  have "?n \<noteq> 32"
  proof
    assume "?n = 32"
    then have "uart_tx_w q - uart_tx_r q = 32" by (metis of_nat_numeral of_nat_unat ucast_id)
    then show False using assms(2) by (simp add: UART_TX_BUF_SIZE_def algebra_simps)
  qed
  then have n: "?n < 32" using assms(1) by (simp add: tx_ok_def)
  then have "uart_tx_w q - uart_tx_r q \<noteq> - 1" by (auto simp: unsigned_minus_1_eq_mask mask_eq_exp_minus_1)
  then have s: "unat (uart_tx_w q + 1 - uart_tx_r q) = Suc ?n" by (rule unat_plus1)
  have "unat (uart_tx_w q mod 32) = (unat (uart_tx_r q) + ?n) mod 32"
    using ring_position [of 32 "uart_tx_w q" "uart_tx_r q"] by (simp add: unat_mod)
  then show ?thesis using s n ring_items_put [OF n, of "uart_tx_buf q" "unat (uart_tx_r q)" x]
    by (simp add: tx_items_def tx_put_def tx_ok_def UART_TX_BUF_SIZE_def)
qed

lemma tx_get_items:
  assumes "tx_ok q" "uart_tx_w q \<noteq> uart_tx_r q"
  shows "tx_items q = fst (tx_get q) # tx_items (snd (tx_get q)) \<and> tx_ok (snd (tx_get q))"
proof -
  note m = unat_minus1 [OF assms(2)]
  have "unat (uart_tx_r q + 1) mod 32 = Suc (unat (uart_tx_r q)) mod 32" using unat_mod_ring [of 32 "uart_tx_r q" 1] by simp
  then have "ring_items 32 (uart_tx_buf q) (unat (uart_tx_r q + 1)) k = ring_items 32 (uart_tx_buf q) (Suc (unat (uart_tx_r q))) k" for k
    by (rule ring_items_mod)
  then show ?thesis using assms(1) m ring_items_get [OF m(3), of 32 "uart_tx_buf q" "unat (uart_tx_r q)"]
    by (simp add: tx_items_def tx_get_def tx_ok_def UART_TX_BUF_SIZE_def unat_mod)
qed

lemma tx_empty: "uart_tx_w q = uart_tx_r q \<longleftrightarrow> tx_items q = []"
  by (auto simp: tx_items_def ring_items_def unat_eq_0 simp flip: length_0_conv)

interpretation tx_fifo: fifo tx_items tx_ok 32 tx_put tx_get
    "\<lambda>q. uart_tx_w q = uart_tx_r q + UART_TX_BUF_SIZE" "\<lambda>q. uart_tx_w q = uart_tx_r q"
proof
  fix q :: txring and x
  show "tx_ok q \<Longrightarrow> uart_tx_w q \<noteq> uart_tx_r q + UART_TX_BUF_SIZE \<Longrightarrow> tx_items (tx_put x q) = tx_items q @ [x] \<and> tx_ok (tx_put x q)"
    by (rule tx_put_items)
  show "tx_ok q \<Longrightarrow> uart_tx_w q \<noteq> uart_tx_r q \<Longrightarrow> tx_items q = fst (tx_get q) # tx_items (snd (tx_get q)) \<and> tx_ok (snd (tx_get q))"
    by (rule tx_get_items)
  show "tx_ok q \<Longrightarrow> (uart_tx_w q = uart_tx_r q + UART_TX_BUF_SIZE) = (length (tx_items q) = 32)"
  proof -
    have "uart_tx_w q = uart_tx_r q + 32 \<longleftrightarrow> uart_tx_w q - uart_tx_r q = 32" by (auto simp: diff_eq_eq)
    also have "\<dots> \<longleftrightarrow> unat (uart_tx_w q - uart_tx_r q) = 32" by (simp add: word_unat_eq_iff)
    finally show ?thesis by (simp add: tx_items_def UART_TX_BUF_SIZE_def)
  qed
qed (simp_all add: tx_empty tx_items_def tx_ok_def)

section \<open>Sending\<close>

text \<open>The transmitter is idle again and again.\<close>

definition tx_fair :: "'a uart_scheme \<Rightarrow> bool" where
  "tx_fair s \<longleftrightarrow> (\<forall>n. \<exists>m \<ge> n. lsr s m AND LSR_TX_IDLE \<noteq> 0)"

text \<open>One call of \<open>uartstart\<close> sends a first part of the buffer; it stops only at a status that is not idle.\<close>

lemma uartstart_sends:
  "tx_ok (tx s) \<Longrightarrow> \<exists>xs. tx_items (tx s) = xs @ tx_items (tx (uartstart s)) \<and> tx_ok (tx (uartstart s)) \<and>
     uart_writes (uartstart s) = uart_writes s @ map (Pair THR) xs \<and> lsr (uartstart s) = lsr s \<and> lsr_n s \<le> lsr_n (uartstart s) \<and>
     (tx_items (tx s) \<noteq> [] \<longrightarrow> (if lsr s (lsr_n s) AND LSR_TX_IDLE = 0 then lsr_n (uartstart s) = lsr_n s + 1 else xs \<noteq> []))"
proof (induction "unat (uart_tx_w (tx s) - uart_tx_r (tx s))" arbitrary: s rule: less_induct)
  case (less s)
  show ?case
  proof (cases "uart_tx_w (tx s) = uart_tx_r (tx s) \<or> lsr s (lsr_n s) AND LSR_TX_IDLE = 0")
    case True
    then show ?thesis using less.prems by (subst (1 2 3 4 5 6) uartstart.simps) (auto simp: ReadLSR_def tx_empty Let_def)
  next
    case False
    define c q where "c = fst (tx_get (tx s))" and "q = snd (tx_get (tx s))"
    define t where "t = WriteReg THR c (wakeup Ch_uart (s\<lparr>lsr_n := lsr_n s + 1, tx := q\<rparr>))"
    have u: "uartstart s = uartstart t"
      using False by (subst uartstart.simps) (simp add: ReadLSR_def Let_def c_def q_def t_def split: prod.splits)
    have t: "tx t = q" "lsr t = lsr s" "lsr_n t = lsr_n s + 1" "uart_writes t = uart_writes s @ [(THR, c)]"
      by (simp_all add: t_def WriteReg_def wakeup_eq)
    have g: "tx_items (tx s) = c # tx_items q" "tx_ok q" using tx_fifo.get [OF less.prems] False by (simp_all add: c_def q_def)
    obtain xs where "tx_items (tx t) = xs @ tx_items (tx (uartstart t))" "tx_ok (tx (uartstart t))"
        "uart_writes (uartstart t) = uart_writes t @ map (Pair THR) xs" "lsr (uartstart t) = lsr t" "lsr_n t \<le> lsr_n (uartstart t)"
      using less.hyps [of t] tx_distance_less [of "tx s"] False g(2) by (auto simp: t(1) q_def tx_get_def)
    then show ?thesis unfolding u using t g False by (intro exI [of _ "c # xs"]) auto
  qed
qed

lemma uartstart_progress:
  assumes "tx_ok (tx s)" "tx_items (tx s) \<noteq> []" "lsr s m AND LSR_TX_IDLE \<noteq> 0" "lsr_n s \<le> m"
  shows "\<exists>k xs. xs \<noteq> [] \<and> tx_items (tx s) = xs @ tx_items (tx ((uartstart ^^ k) s)) \<and> tx_ok (tx ((uartstart ^^ k) s)) \<and>
     uart_writes ((uartstart ^^ k) s) = uart_writes s @ map (Pair THR) xs \<and> lsr ((uartstart ^^ k) s) = lsr s"
  using assms
proof (induction "m - lsr_n s" arbitrary: s)
  case (0 s)
  then have "lsr_n s = m" by simp
  then show ?case using uartstart_sends [OF 0(2)] 0 by (auto intro!: exI [of _ 1])
next
  case (Suc n s)
  obtain xs where xs: "tx_items (tx s) = xs @ tx_items (tx (uartstart s))" "tx_ok (tx (uartstart s))"
      "uart_writes (uartstart s) = uart_writes s @ map (Pair THR) xs" "lsr (uartstart s) = lsr s"
      "if lsr s (lsr_n s) AND LSR_TX_IDLE = 0 then lsr_n (uartstart s) = lsr_n s + 1 else xs \<noteq> []"
    using uartstart_sends [OF Suc.prems(1)] Suc.prems(2) by blast
  show ?case
  proof (cases "xs = []")
    case False
    then show ?thesis using xs by (auto intro!: exI [of _ 1])
  next
    case True
    then have i: "lsr_n (uartstart s) = lsr_n s + 1" using xs(5) by (simp split: if_splits)
    have "Suc (lsr_n s) \<le> m" "n = m - Suc (lsr_n s)" using Suc.hyps(2) by auto
    with i obtain k ys where k: "ys \<noteq> []" "tx_items (tx (uartstart s)) = ys @ tx_items (tx ((uartstart ^^ k) (uartstart s)))"
        "tx_ok (tx ((uartstart ^^ k) (uartstart s)))" "uart_writes ((uartstart ^^ k) (uartstart s)) = uart_writes (uartstart s) @ map (Pair THR) ys"
        "lsr ((uartstart ^^ k) (uartstart s)) = lsr (uartstart s)"
      using Suc.hyps(1) [of "uartstart s"] Suc.hyps(2) Suc.prems xs True by auto
    have "(uartstart ^^ k) (uartstart s) = (uartstart ^^ Suc k) s" by (simp add: funpow_swap1)
    then show ?thesis using k xs True by (intro exI [of _ "Suc k"] exI [of _ ys]) simp
  qed
qed

lemma uartstart_drains:
  assumes "tx_ok (tx s)" "tx_fair s"
  shows "\<exists>k. uart_writes ((uartstart ^^ k) s) = uart_writes s @ map (Pair THR) (tx_items (tx s)) \<and> tx_items (tx ((uartstart ^^ k) s)) = []"
  using assms
proof (induction "length (tx_items (tx s))" arbitrary: s rule: less_induct)
  case less
  show ?case
  proof (cases "tx_items (tx s) = []")
    case True
    then show ?thesis by (intro exI [of _ 0]) simp
  next
    case False
    obtain m where m: "lsr_n s \<le> m" "lsr s m AND LSR_TX_IDLE \<noteq> 0" using less.prems(2) by (auto simp: tx_fair_def)
    obtain k xs where k: "xs \<noteq> []" "tx_items (tx s) = xs @ tx_items (tx ((uartstart ^^ k) s))" "tx_ok (tx ((uartstart ^^ k) s))"
        "uart_writes ((uartstart ^^ k) s) = uart_writes s @ map (Pair THR) xs" "lsr ((uartstart ^^ k) s) = lsr s"
      using uartstart_progress [OF less.prems(1) False m(2,1)] by blast
    have "length (tx_items (tx ((uartstart ^^ k) s))) < length (tx_items (tx s))" using k(1) by (simp add: k(2))
    moreover have "tx_fair ((uartstart ^^ k) s)" using less.prems(2) k(5) by (simp add: tx_fair_def)
    ultimately obtain j where j: "uart_writes ((uartstart ^^ j) ((uartstart ^^ k) s)) = uart_writes ((uartstart ^^ k) s) @ map (Pair THR) (tx_items (tx ((uartstart ^^ k) s)))"
        "tx_items (tx ((uartstart ^^ j) ((uartstart ^^ k) s))) = []"
      using less.hyps k(3) by blast
    have "(uartstart ^^ j) ((uartstart ^^ k) s) = (uartstart ^^ (j + k)) s" by (simp add: funpow_add)
    then show ?thesis using j k(2,4) by (intro exI [of _ "j + k"]) simp
  qed
qed

text \<open>
  C11: A character that \<open>uartputc\<close> takes is sent. When the transmitter is idle again and again, some
  number of calls of \<open>uartstart\<close>, which every interrupt of the device makes, writes all buffered
  characters and then this one to the transmit register, in order and each once.
\<close>
theorem uartputc_sends:
  assumes "tx_ok (tx s)" "tx_fair s" "uartputc c s = Some (Done (), s')"
  shows "\<exists>k. uart_writes ((uartstart ^^ k) s') = uart_writes s @ map (Pair THR) (tx_items (tx s) @ [c])"
proof -
  define t where "t = s\<lparr>tx := tx_put c (tx s)\<rparr>"
  have n: "uart_tx_w (tx s) \<noteq> uart_tx_r (tx s) + UART_TX_BUF_SIZE" and s': "s' = uartstart t"
    using assms(3) by (auto simp: uartputc_def uartputc_loop_def t_def split: if_splits bind_splits)
  have p: "tx_items (tx t) = tx_items (tx s) @ [c]" "tx_ok (tx t)" using tx_fifo.put [OF assms(1) n] by (simp_all add: t_def)
  obtain xs where xs: "tx_items (tx t) = xs @ tx_items (tx s')" "tx_ok (tx s')" "uart_writes s' = uart_writes t @ map (Pair THR) xs" "lsr s' = lsr t"
    using uartstart_sends [OF p(2)] unfolding s' by blast
  moreover have "tx_fair s'" using assms(2) xs(4) by (simp add: tx_fair_def t_def)
  ultimately obtain k where "uart_writes ((uartstart ^^ k) s') = uart_writes s' @ map (Pair THR) (tx_items (tx s'))" using uartstart_drains by blast
  then have "uart_writes ((uartstart ^^ k) s') = uart_writes t @ map (Pair THR) (tx_items (tx t))" using xs(1,3) by simp
  then show ?thesis unfolding p by (auto simp: t_def)
qed

section \<open>Echo\<close>

text \<open>The characters \<open>xs\<close> were sent with \<open>uartputc_sync\<close>, and nothing else changed but the record of the CPU.\<close>

definition sent :: "u8 list \<Rightarrow> 'a uart_scheme \<Rightarrow> 'a uart_scheme \<Rightarrow> bool" where
  "sent xs s t \<longleftrightarrow> (\<exists>k cp. noff cp = noff (mycpu s) \<and> cproc cp = cproc (mycpu s) \<and>
     t = s\<lparr>cpu_tab := (cpu_tab s)(hart s := cp), lsr_n := k, uart_writes := uart_writes s @ map (Pair THR) xs\<rparr>)"

definition serial_ok :: "'a uart_scheme \<Rightarrow> bool" where
  "serial_ok s \<longleftrightarrow> tx_fair s \<and> panicked s = 0 \<and> 0 \<le> noff (mycpu s) \<and> noff (mycpu s) < 2 ^ 31 - 1"

lemma sent_trans: "sent xs s t \<Longrightarrow> sent ys t u \<Longrightarrow> sent (xs @ ys) s u"
  unfolding sent_def by (auto simp: mycpu_def) blast

lemma sent_ok: "sent xs s t \<Longrightarrow> serial_ok s \<Longrightarrow> serial_ok t"
  by (auto simp: sent_def serial_ok_def tx_fair_def mycpu_def)

lemma tx_wait_returns:
  assumes "lsr s m AND LSR_TX_IDLE \<noteq> 0" "lsr_n s \<le> m"
  shows "\<exists>k. tx_wait s = Some (s\<lparr>lsr_n := k\<rparr>)"
  using assms
proof (induction "m - lsr_n s" arbitrary: s)
  case (0 s)
  then have "lsr s (lsr_n s) AND LSR_TX_IDLE \<noteq> 0" by simp
  then show ?case by (subst tx_wait.simps) (auto simp: ReadLSR_def)
next
  case (Suc n s)
  show ?case
  proof (cases "lsr s (lsr_n s) AND LSR_TX_IDLE = 0")
    case False
    then show ?thesis by (subst tx_wait.simps) (auto simp: ReadLSR_def)
  next
    case True
    then have "tx_wait s = tx_wait (s\<lparr>lsr_n := lsr_n s + 1\<rparr>)" by (subst tx_wait.simps) (simp add: ReadLSR_def)
    moreover have "n = m - (lsr_n s + 1)" "lsr_n s + 1 \<le> m" using Suc.hyps(2) by auto
    ultimately show ?thesis using Suc.hyps(1) [of "s\<lparr>lsr_n := lsr_n s + 1\<rparr>"] Suc.prems(1) by auto
  qed
qed

lemma uartputc_sync_sends:
  assumes "serial_ok s"
  shows "\<exists>t. uartputc_sync c s = Some t \<and> sent [c] s t"
proof -
  let ?s = "s\<lparr>cpu_tab := (cpu_tab s)(hart s := push_off (mycpu s))\<rparr>"
  obtain m where m: "lsr_n s \<le> m" "lsr s m AND LSR_TX_IDLE \<noteq> 0" using assms by (auto simp: serial_ok_def tx_fair_def)
  then obtain k where k: "tx_wait ?s = Some (?s\<lparr>lsr_n := k\<rparr>)" using tx_wait_returns [of ?s m] by auto
  have "\<exists>cp. pop_off (push_off (mycpu s)) = Some cp \<and> noff cp = noff (mycpu s) \<and> cproc cp = cproc (mycpu s)"
    using assms by (auto simp: serial_ok_def pop_off_def Let_def c_int_small) (auto simp: push_off_def Let_def)
  then obtain cp where cp: "pop_off (push_off (mycpu s)) = Some cp" "noff cp = noff (mycpu s)" "cproc cp = cproc (mycpu s)" by blast
  have "uartputc_sync c s = Some (s\<lparr>cpu_tab := (cpu_tab s)(hart s := cp), lsr_n := k, uart_writes := uart_writes s @ [(THR, c)]\<rparr>)"
    using assms k cp(1) by (simp add: uartputc_sync_def serial_ok_def Let_def mycpu_def WriteReg_def)
  then show ?thesis using cp(2,3) by (auto simp: sent_def)
qed

definition echo_of :: "int \<Rightarrow> u8 list" where
  "echo_of c = (if c = BACKSPACE then [8, 32, 8] else [of_int c])"

lemma consputc_sends:
  assumes "serial_ok s"
  shows "\<exists>t. consputc c s = Some t \<and> sent (echo_of c) s t"
proof (cases "c = BACKSPACE")
  case True
  obtain t1 where 1: "uartputc_sync 8 s = Some t1" "sent [8] s t1" using uartputc_sync_sends [OF assms] by blast
  obtain t2 where 2: "uartputc_sync 32 t1 = Some t2" "sent [32] t1 t2" using uartputc_sync_sends [OF sent_ok [OF 1(2) assms]] by blast
  obtain t3 where 3: "uartputc_sync 8 t2 = Some t3" "sent [8] t2 t3"
    using uartputc_sync_sends [OF sent_ok [OF 2(2) sent_ok [OF 1(2) assms]]] by blast
  show ?thesis using True 1 2 3 sent_trans [OF sent_trans [OF 1(2) 2(2)] 3(2)] by (simp add: consputc_def echo_of_def)
next
  case False
  then show ?thesis using uartputc_sync_sends [OF assms, of "of_int c"] by (simp add: consputc_def echo_of_def)
qed

section \<open>Printing\<close>

text \<open>A function that prints some characters and changes nothing else.\<close>

definition prints :: "('a uart_scheme \<Rightarrow> 'a uart_scheme option) \<Rightarrow> bool" where
  "prints f \<longleftrightarrow> (\<forall>s. serial_ok s \<longrightarrow> (\<exists>t xs. f s = Some t \<and> sent xs s t))"

lemma sent_Nil: "sent [] s s"
proof -
  have "s = s\<lparr>cpu_tab := (cpu_tab s)(hart s := mycpu s), lsr_n := lsr_n s, uart_writes := uart_writes s @ map (Pair THR) []\<rparr>" by (simp add: mycpu_def)
  then show ?thesis unfolding sent_def by blast
qed

lemma prints_cong: "(\<And>s. f s = g s) \<Longrightarrow> prints g \<Longrightarrow> prints f"
  by (simp add: prints_def)

lemma prints_Some: "prints Some"
  using sent_Nil by (auto simp: prints_def)

lemma prints_bind:
  assumes "prints f" "prints g"
  shows "prints (\<lambda>s. do { s \<leftarrow> f s; g s })"
  unfolding prints_def
proof (intro allI impI)
  fix s :: "'a uart_scheme"
  assume s: "serial_ok s"
  obtain t xs where t: "f s = Some t" "sent xs s t" using assms(1) s by (auto simp: prints_def)
  obtain u ys where "g t = Some u" "sent ys t u" using assms(2) sent_ok [OF t(2) s] by (auto simp: prints_def)
  then show "\<exists>u zs. do { s \<leftarrow> f s; g s } = Some u \<and> sent zs s u" using t sent_trans by fastforce
qed

lemma prints_consputc: "prints (consputc c)"
  using consputc_sends by (fastforce simp: prints_def)

lemma prints_consputs: "prints (consputs cs)"
proof (induction cs)
  case Nil
  then show ?case using prints_Some by (simp add: prints_def)
next
  case (Cons c cs)
  then show ?case using prints_bind [OF prints_consputc] by (simp add: prints_def)
qed

lemma prints_putstr: "str k = 0 \<Longrightarrow> i \<le> k \<Longrightarrow> prints (putstr str i)"
proof (induction "k - i" arbitrary: i)
  case 0
  then show ?case by (intro prints_cong [OF _ prints_Some]) (subst putstr.simps, simp)
next
  case (Suc n)
  show ?case
  proof (cases "str i = 0")
    case True
    then show ?thesis by (intro prints_cong [OF _ prints_Some]) (subst putstr.simps, simp)
  next
    case False
    then have "i + 1 \<le> k" using Suc.prems by (cases "i = k") auto
    moreover have "n = k - (i + 1)" using Suc.hyps(2) by simp
    ultimately show ?thesis using False Suc.prems(1)
      by (intro prints_cong [OF _ prints_bind [OF prints_consputc Suc.hyps(1) [of "i + 1"]]]) (subst putstr.simps, simp_all)
  qed
qed

lemma printint_loop_returns: "\<exists>cs. printint_loop 10 x = Some cs"
proof (induction "unat x" arbitrary: x rule: less_induct)
  case less
  show ?case
  proof (cases "x div 10 = 0")
    case True
    then show ?thesis by (subst printint_loop.simps) simp
  next
    case False
    then have "unat (x div 10) < unat x" by (cases "x = 0") (auto simp: unat_div unat_gt_0)
    then obtain cs where "printint_loop 10 (x div 10) = Some cs" using less by blast
    then show ?thesis using False by (subst printint_loop.simps) simp
  qed
qed

lemma prints_printint: "prints (printint x 10 sg)"
proof -
  obtain cs where cs: "printint_loop 10 (if sg \<and> sint x < 0 then - x else x) = Some cs" using printint_loop_returns by blast
  show ?thesis using cs
    by (intro prints_cong [OF _ prints_consputs [of "rev (if sg \<and> sint x < 0 then cs @ [45] else cs)"]])
      (simp add: printint_def printint_buf_def Let_def)
qed

lemma printf_newline: "printf [CHR 0x0A] [] s = consputc 10 s"
proof -
  let ?f = "cstring [CHR 0x0A]"
  have f: "?f 0 = 10" "?f (Suc 0) = 0" by (simp_all add: cstring_def)
  have "printf_from ?f (Suc 0) [] = (Some :: 'a uart_scheme \<Rightarrow> _)" by (rule ext, subst printf_from.simps) (simp add: f)
  then show ?thesis unfolding printf_def by (subst printf_from.simps) (simp add: f)
qed

text \<open>The line that \<open>procdump\<close> prints for a process.\<close>

lemma printf_proc:
  "printf ''%d %s %s'' [Num a, Str (Some x), Str (Some y)] s =
     do { s \<leftarrow> printint (ucast a) 10 True s; s \<leftarrow> consputc 32 s; s \<leftarrow> putstr x 0 s; s \<leftarrow> consputc 32 s; putstr y 0 s }"
proof -
  let ?f = "cstring ''%d %s %s''"
  have f: "?f 0 = 37" "?f (Suc 0) = 100" "?f 2 = 32" "?f 3 = 37" "?f 4 = 115" "?f 5 = 32" "?f 6 = 37" "?f 7 = 115" "?f 8 = 0"
    by (simp_all add: cstring_def)
  note P = printf_from.simps [of ?f]
  have 8: "printf_from ?f 8 [] = (Some :: 'a uart_scheme \<Rightarrow> _)" by (rule ext, subst P) (simp add: f)
  have 6: "printf_from ?f 6 [Str (Some y)] = (putstr y 0 :: 'a uart_scheme \<Rightarrow> _)" by (rule ext, subst P) (simp add: f 8 printf_conv_def)
  have 5: "printf_from ?f 5 [Str (Some y)] = (\<lambda>s :: 'a uart_scheme. do { s \<leftarrow> consputc 32 s; putstr y 0 s })"
    by (rule ext, subst P) (simp add: f 6)
  have 3: "printf_from ?f 3 [Str (Some x), Str (Some y)] = (\<lambda>s :: 'a uart_scheme. do { s \<leftarrow> putstr x 0 s; s \<leftarrow> consputc 32 s; putstr y 0 s })"
    by (rule ext, subst P) (simp add: f 5 printf_conv_def)
  have 2: "printf_from ?f 2 [Str (Some x), Str (Some y)] =
      (\<lambda>s :: 'a uart_scheme. do { s \<leftarrow> consputc 32 s; s \<leftarrow> putstr x 0 s; s \<leftarrow> consputc 32 s; putstr y 0 s })"
    by (rule ext, subst P) (simp add: f 3)
  show ?thesis unfolding printf_def by (subst P) (simp add: f 2 [unfolded numeral_2_eq_2] printf_conv_def)
qed

text \<open>The names of processes end with a zero, as \<open>safestrcpy\<close> leaves them.\<close>

definition names_ok :: "'a ptab_scheme \<Rightarrow> bool" where
  "names_ok s \<longleftrightarrow> (\<forall>p < NPROC. state (procs s p) \<noteq> UNUSED \<longrightarrow> (\<exists>k < 16. name (procs s p) k = 0))"

lemma prints_proc:
  assumes "y k = 0"
  shows "prints (\<lambda>s. do { s \<leftarrow> printf ''%d %s %s'' [Num a, Str (Some (cstring nm)), Str (Some y)] s; printf [CHR 0x0A] [] s })"
proof (rule prints_cong)
  show "do { s \<leftarrow> printf ''%d %s %s'' [Num a, Str (Some (cstring nm)), Str (Some y)] s; printf [CHR 0x0A] [] s } =
      do { s \<leftarrow> do { s \<leftarrow> printint (ucast a) 10 True s; do { s \<leftarrow> consputc 32 s; do { s \<leftarrow> putstr (cstring nm) 0 s;
        do { s \<leftarrow> consputc 32 s; putstr y 0 s } } } }; consputc 10 s }" for s :: "'a uart_scheme"
    unfolding printf_proc printf_newline ..
  show "prints (\<lambda>s. do { s \<leftarrow> do { s \<leftarrow> printint (ucast a) 10 True s; do { s \<leftarrow> consputc 32 s; do { s \<leftarrow> putstr (cstring nm) 0 s;
        do { s \<leftarrow> consputc 32 s; putstr y 0 s } } } }; consputc 10 s })"
    by (intro prints_bind prints_printint prints_consputc prints_putstr [of "cstring nm" "length nm"] prints_putstr [of y k, OF assms])
      (simp_all add: cstring_def)
qed

lemma procdump_from_sends:
  "serial_ok s \<Longrightarrow> names_ok s \<Longrightarrow> set ps \<subseteq> {..<NPROC} \<Longrightarrow> \<exists>t xs. procdump_from ps s = Some t \<and> sent xs s t"
proof (induction ps arbitrary: s)
  case Nil
  then show ?case using sent_Nil by auto
next
  case (Cons p ps)
  show ?case
  proof (cases "state (procs s p) = UNUSED")
    case True
    then show ?thesis using Cons by simp
  next
    case False
    then obtain k where k: "name (procs s p) k = 0" using Cons.prems(2,3) by (auto simp: names_ok_def)
    let ?f = "\<lambda>s'. do { s' \<leftarrow> printf ''%d %s %s'' [Num (of_int (pid (procs s p))), Str (Some (cstring (state_name (state (procs s p))))),
        Str (Some (name (procs s p)))] s'; printf [CHR 0x0A] [] s' }"
    obtain t xs where t: "?f s = Some t" "sent xs s t" using prints_proc [of "name (procs s p)", OF k] Cons.prems(1) unfolding prints_def by blast
    have "names_ok t" using Cons.prems(2) t(2) by (auto simp: names_ok_def sent_def)
    then obtain u ys where u: "procdump_from ps t = Some u" "sent ys t u" using Cons.IH [of t] sent_ok [OF t(2)] Cons.prems by auto
    have "procdump_from (p # ps) s = do { s \<leftarrow> ?f s; procdump_from ps s }" using False by simp
    then show ?thesis using t u sent_trans [OF t(2) u(2)] by auto
  qed
qed

lemma procdump_sends:
  assumes "serial_ok s" "names_ok s"
  shows "\<exists>t xs. procdump s = Some t \<and> sent xs s t"
proof -
  obtain t where t: "consputc 10 s = Some t" "sent (echo_of 10) s t" using consputc_sends [OF assms(1)] by blast
  have "names_ok t" using assms(2) t(2) by (auto simp: names_ok_def sent_def)
  then obtain u xs where "procdump_from [0..<NPROC] t = Some u" "sent xs t u"
    using procdump_from_sends [of t "[0..<NPROC]"] sent_ok [OF t(2) assms(1)] by (auto simp: lessThan_atLeast0)
  then show ?thesis using t sent_trans by (fastforce simp: procdump_def printf_newline)
qed

section \<open>Editing\<close>

text \<open>
  The input buffer as two lists: the committed input, which \<open>consoleread\<close> may take, and the line being edited.
\<close>

definition cons_all :: "consbuf \<Rightarrow> u8 list" where
  "cons_all q = ring_items 128 (cons_buf q) (unat (cons_r q)) (unat (cons_e q - cons_r q))"

definition committed :: "consbuf \<Rightarrow> u8 list" where
  "committed q = take (unat (cons_w q - cons_r q)) (cons_all q)"

definition edited :: "consbuf \<Rightarrow> u8 list" where
  "edited q = drop (unat (cons_w q - cons_r q)) (cons_all q)"

definition cons_ok :: "consbuf \<Rightarrow> bool" where
  "cons_ok q \<longleftrightarrow> unat (cons_w q - cons_r q) \<le> unat (cons_e q - cons_r q) \<and> unat (cons_e q - cons_r q) \<le> 128 \<and> 10 \<notin> set (edited q)"

text \<open>What a key does; control-P prints the list of processes.\<close>

definition edit_key :: "int \<Rightarrow> u8 list \<times> u8 list \<Rightarrow> u8 list \<times> u8 list" where
  "edit_key c x =
     (case x of (C, E) \<Rightarrow>
        if c = 16 then (C, E)
        else if c = 21 then (C, [])
        else if c = 8 \<or> c = 127 then (C, butlast E)
        else if c \<noteq> 0 \<and> length C + length E < 128
        then let c = (if c = 13 then 10 else c); E = E @ [of_int c]
          in if c = 10 \<or> c = 4 \<or> length C + length E = 128 then (C @ E, []) else (C, E)
        else (C, E))"

lemma cons_all_split: "cons_all q = committed q @ edited q"
  by (simp add: committed_def edited_def)

lemma cons_lengths:
  assumes "cons_ok q"
  shows "length (committed q) = unat (cons_w q - cons_r q)" "length (edited q) = unat (cons_e q - cons_r q) - unat (cons_w q - cons_r q)"
    "length (committed q) + length (edited q) = unat (cons_e q - cons_r q)" "cons_e q = cons_w q \<longleftrightarrow> edited q = []"
proof -
  show l: "length (committed q) = unat (cons_w q - cons_r q)" "length (edited q) = unat (cons_e q - cons_r q) - unat (cons_w q - cons_r q)"
    using assms by (simp_all add: committed_def edited_def cons_all_def cons_ok_def)
  show "length (committed q) + length (edited q) = unat (cons_e q - cons_r q)" using assms l by (simp add: cons_ok_def)
  have "cons_e q = cons_w q \<longleftrightarrow> unat (cons_e q - cons_r q) = unat (cons_w q - cons_r q)" by (metis diff_add_cancel unsigned_word_eqI)
  then show "cons_e q = cons_w q \<longleftrightarrow> edited q = []" using assms l(2) by (auto simp: cons_ok_def simp flip: length_0_conv)
qed

lemma ring_items_butlast: "ring_items N a r (n - Suc 0) = butlast (ring_items N a r n)"
  by (cases n) (simp_all add: ring_items_def)

lemma ring_items_last: "0 < n \<Longrightarrow> last (ring_items N a r n) = a ((r + (n - Suc 0)) mod N)"
  by (cases n) (simp_all add: ring_items_def)

text \<open>Erasing the last character.\<close>

lemma cons_erase:
  assumes "cons_ok q" "cons_e q \<noteq> cons_w q"
  defines "p \<equiv> q\<lparr>cons_e := cons_e q - 1\<rparr>"
  shows "cons_ok p" "committed p = committed q" "edited p = butlast (edited q)"
    "cons_buf q (unat ((cons_e q - 1) mod INPUT_BUF_SIZE)) = last (edited q)"
proof -
  let ?n = "unat (cons_e q - cons_r q)" and ?m = "unat (cons_w q - cons_r q)"
  have ne: "edited q \<noteq> []" using cons_lengths(4) [OF assms(1)] assms(2) by simp
  then have mn: "?m < ?n" using cons_lengths(2) [OF assms(1)] by (simp flip: length_greater_0_conv)
  then have er: "cons_e q \<noteq> cons_r q" by auto
  note u = unat_minus1 [OF er]
  have all: "cons_all p = butlast (cons_all q)" using u(1) by (simp add: cons_all_def p_def ring_items_butlast)
  show "committed p = committed q" using mn cons_lengths [OF assms(1)] all unfolding committed_def
    by (simp add: p_def cons_all_def take_butlast)
  show e: "edited p = butlast (edited q)" unfolding edited_def all by (simp add: p_def drop_butlast)
  show "cons_ok p" using assms(1) mn u(1) e unfolding cons_ok_def by (auto simp: p_def dest: in_set_butlastD)
  have "unat (cons_e q - 1) mod 128 = (unat (cons_r q) + (?n - 1)) mod 128"
    using ring_position [of 128 "cons_e q - 1" "cons_r q"] u(1) by simp
  then have "cons_buf q (unat ((cons_e q - 1) mod INPUT_BUF_SIZE)) = last (cons_all q)"
    using ring_items_last [OF u(3), of 128 "cons_buf q" "unat (cons_r q)"] by (simp add: INPUT_BUF_SIZE_def unat_mod cons_all_def)
  also have "\<dots> = last (edited q)" using ne by (simp add: cons_all_split)
  finally show "cons_buf q (unat ((cons_e q - 1) mod INPUT_BUF_SIZE)) = last (edited q)" .
qed

text \<open>Storing a character, and committing the line.\<close>

lemma cons_store:
  assumes "cons_ok q" "unat (cons_e q - cons_r q) < 128"
  shows "committed (cons_put c q) = committed q" "edited (cons_put c q) = edited q @ [c]" "c \<noteq> 10 \<Longrightarrow> cons_ok (cons_put c q)"
    "unat (cons_e (cons_put c q) - cons_r (cons_put c q)) = Suc (unat (cons_e q - cons_r q))"
    "cons_ok ((cons_put c q)\<lparr>cons_w := cons_e (cons_put c q)\<rparr>)"
    "committed ((cons_put c q)\<lparr>cons_w := cons_e (cons_put c q)\<rparr>) = committed q @ edited q @ [c]"
    "edited ((cons_put c q)\<lparr>cons_w := cons_e (cons_put c q)\<rparr>) = []"
proof -
  let ?n = "unat (cons_e q - cons_r q)"
  have "cons_e q - cons_r q \<noteq> - 1" using assms(2) by (auto simp: unsigned_minus_1_eq_mask mask_eq_exp_minus_1)
  then have s: "unat (cons_e q + 1 - cons_r q) = Suc ?n" by (rule unat_plus1)
  have "unat (cons_e q mod 128) = (unat (cons_r q) + ?n) mod 128"
    using ring_position [of 128 "cons_e q" "cons_r q"] by (simp add: unat_mod)
  then have all: "cons_all (cons_put c q) = cons_all q @ [c]"
    using ring_items_put [OF assms(2), of "cons_buf q" "unat (cons_r q)" c] s by (simp add: cons_all_def cons_put_def INPUT_BUF_SIZE_def)
  have l: "length (cons_all q) = ?n" by (simp add: cons_all_def)
  have m: "unat (cons_w q - cons_r q) \<le> ?n" using assms(1) by (simp add: cons_ok_def)
  show c: "committed (cons_put c q) = committed q" using m l by (simp add: committed_def all) (simp add: cons_put_def)
  show e: "edited (cons_put c q) = edited q @ [c]" using m l by (simp add: edited_def all) (simp add: cons_put_def)
  show "unat (cons_e (cons_put c q) - cons_r (cons_put c q)) = Suc ?n" using s by (simp add: cons_put_def)
  show "c \<noteq> 10 \<Longrightarrow> cons_ok (cons_put c q)" using assms s m unfolding cons_ok_def e by (simp add: cons_put_def)
  let ?p = "(cons_put c q)\<lparr>cons_w := cons_e (cons_put c q)\<rparr>"
  have p: "cons_all ?p = cons_all q @ [c]" using all by (simp add: cons_all_def)
  have w: "unat (cons_w ?p - cons_r ?p) = Suc ?n" using s by (simp add: cons_put_def)
  have "take (Suc ?n) (cons_all q @ [c]) = cons_all q @ [c]" using l by simp
  then show "committed ?p = committed q @ edited q @ [c]" unfolding committed_def [of ?p] p w using cons_all_split [of q] by simp
  show z: "edited ?p = []" unfolding edited_def p w using l by simp
  show "cons_ok ?p" unfolding cons_ok_def z w using s assms(2) by (simp add: cons_put_def)
qed

lemma sent_cons: "sent xs s t \<Longrightarrow> cons t = cons s"
  by (auto simp: sent_def)

lemma serial_ok_cons [simp]: "serial_ok (s\<lparr>cons := q\<rparr>) = serial_ok s"
  by (simp add: serial_ok_def tx_fair_def mycpu_def)

lemma cons_kill_line_clears:
  "cons_ok (cons s) \<Longrightarrow> serial_ok s \<Longrightarrow>
     \<exists>t. cons_kill_line s = Some t \<and> serial_ok t \<and> cons_ok (cons t) \<and> committed (cons t) = committed (cons s) \<and> edited (cons t) = []"
proof (induction "length (edited (cons s))" arbitrary: s)
  case 0
  then have "cons_e (cons s) = cons_w (cons s)" using cons_lengths(4) by simp
  then show ?case using 0 by (subst cons_kill_line.simps) simp
next
  case (Suc n)
  then have ne: "edited (cons s) \<noteq> []" by auto
  then have ew: "cons_e (cons s) \<noteq> cons_w (cons s)" using cons_lengths(4) [OF Suc.prems(1)] by simp
  note E = cons_erase [OF Suc.prems(1) ew]
  have "last (edited (cons s)) \<noteq> 10" using last_in_set [OF ne] Suc.prems(1) by (auto simp: cons_ok_def)
  then have nl: "cons_buf (cons s) (unat ((cons_e (cons s) - 1) mod INPUT_BUF_SIZE)) \<noteq> 10" using E(4) by simp
  let ?p = "upd_cons (\<lambda>x. x\<lparr>cons_e := cons_e x - 1\<rparr>) s"
  obtain t where t: "consputc BACKSPACE ?p = Some t" "sent (echo_of BACKSPACE) ?p t" using consputc_sends [of ?p] Suc.prems(2) by auto
  have c: "cons t = cons ?p" by (rule sent_cons [OF t(2)])
  have "n = length (edited (cons t))" using E(3) Suc.hyps(2) by (simp add: c)
  moreover have "cons_ok (cons t)" "serial_ok t" using E(1) sent_ok [OF t(2)] Suc.prems(2) by (simp_all add: c)
  moreover have "cons_kill_line s = cons_kill_line t" using ew nl t(1) by (subst cons_kill_line.simps) simp
  ultimately show ?case using Suc.hyps(1) [of t] E(2) by (simp add: c)
qed

lemma of_int_u8_eq: "0 \<le> c \<Longrightarrow> c < 256 \<Longrightarrow> (of_int c :: u8) = 10 \<longleftrightarrow> c = 10"
proof -
  assume "0 \<le> c" "c < 256"
  then have "uint (of_int c :: u8) = c" by (simp add: unsigned_of_int take_bit_int_eq_self)
  then show ?thesis by (simp add: word_uint_eq_iff)
qed

lemma sent_myproc: "sent xs s t \<Longrightarrow> myproc t = myproc s"
  by (auto simp: sent_def myproc_def mycpu_def)

text \<open>A key is handled; when it commits input, no other process stays asleep waiting for input.\<close>

lemma consoleintr_edits:
  assumes "cons_ok (cons s)" "serial_ok s" "0 \<le> c" "c < 256" "c = 16 \<longrightarrow> names_ok s"
  shows "\<exists>t. consoleintr c s = Some t \<and> cons_ok (cons t) \<and> (committed (cons t), edited (cons t)) = edit_key c (committed (cons s), edited (cons s)) \<and>
    (committed (cons t) \<noteq> committed (cons s) \<longrightarrow> (\<forall>q. asleep_on Ch_cons t q \<longrightarrow> myproc s = Some q))"
proof -
  note L = cons_lengths [OF assms(1)]
  consider (0) "c = 16" | (1) "c = 21" | (2) "c = 8 \<or> c = 127" | (3) "c \<noteq> 16" "c \<noteq> 21" "c \<noteq> 8" "c \<noteq> 127" by blast
  then show ?thesis
  proof cases
    case 0
    then obtain t xs where t: "procdump s = Some t" "sent xs s t" using procdump_sends [OF assms(2)] assms(5) by blast
    then show ?thesis using 0 assms(1) sent_cons [OF t(2)] by (simp add: consoleintr_def edit_key_def)
  next
    case 1
    then show ?thesis using cons_kill_line_clears [OF assms(1,2)] by (auto simp: consoleintr_def edit_key_def)
  next
    case 2
    show ?thesis
    proof (cases "cons_e (cons s) = cons_w (cons s)")
      case True
      then show ?thesis using 2 L(4) assms(1) by (auto simp: consoleintr_def edit_key_def)
    next
      case False
      note E = cons_erase [OF assms(1) False]
      let ?p = "upd_cons (\<lambda>x. x\<lparr>cons_e := cons_e x - 1\<rparr>) s"
      obtain t where t: "consputc BACKSPACE ?p = Some t" "sent (echo_of BACKSPACE) ?p t" using consputc_sends [of ?p] assms(2) by auto
      then show ?thesis using 2 False E sent_cons [OF t(2)] by (auto simp: consoleintr_def edit_key_def)
    qed
  next
    case 3
    define x where "x = (if c = 13 then 10 else c)"
    have room: "cons_e (cons s) - cons_r (cons s) < INPUT_BUF_SIZE \<longleftrightarrow> length (committed (cons s)) + length (edited (cons s)) < 128"
      unfolding L(3) by (simp add: word_less_nat_alt INPUT_BUF_SIZE_def)
    show ?thesis
    proof (cases "c \<noteq> 0 \<and> cons_e (cons s) - cons_r (cons s) < INPUT_BUF_SIZE")
      case False
      then show ?thesis using 3 room assms(1) by (auto simp: consoleintr_def edit_key_def)
    next
      case True
      then have r: "unat (cons_e (cons s) - cons_r (cons s)) < 128" using room L(3) by simp
      obtain t where t: "consputc x s = Some t" "sent (echo_of x) s t" using consputc_sends [OF assms(2)] by blast
      note S = cons_store [OF assms(1) r, of "of_int x"] and ct = sent_cons [OF t(2)]
      let ?q = "cons_put (of_int x) (cons s)"
      have full: "cons_e ?q - cons_r ?q = INPUT_BUF_SIZE \<longleftrightarrow> length (committed (cons s)) + length (edited (cons s) @ [of_int x :: u8]) = 128"
        using S(4) L(3) by (simp add: INPUT_BUF_SIZE_def word_unat_eq_iff)
      have x10: "(of_int x :: u8) = 10 \<longleftrightarrow> x = 10" using of_int_u8_eq [of x] assms(3,4) by (auto simp: x_def)
      have "consoleintr c s = Some (if x = 10 \<or> x = 4 \<or> cons_e ?q - cons_r ?q = INPUT_BUF_SIZE
          then wakeup Ch_cons (t\<lparr>cons := ?q\<lparr>cons_w := cons_e ?q\<rparr>\<rparr>) else t\<lparr>cons := ?q\<rparr>)"
        using 3 True t(1) ct by (simp add: consoleintr_def Let_def x_def [symmetric])
      moreover have "edit_key c (committed (cons s), edited (cons s)) =
          (if x = 10 \<or> x = 4 \<or> cons_e ?q - cons_r ?q = INPUT_BUF_SIZE then (committed (cons s) @ edited (cons s) @ [of_int x], []) else (committed (cons s), edited (cons s) @ [of_int x]))"
        using 3 True room full by (simp add: edit_key_def Let_def x_def)
      moreover have "asleep_on Ch_cons (wakeup Ch_cons (t\<lparr>cons := q\<rparr>)) p \<Longrightarrow> myproc s = Some p" for p q
        using sent_myproc [OF t(2)] by (simp add: asleep_wakeup myproc_def mycpu_def)
      ultimately show ?thesis using S x10 by (auto simp: wakeup_eq)
    qed
  qed
qed

section \<open>Reading\<close>

lemma cons_take:
  assumes "cons_ok q" "cons_r q \<noteq> cons_w q"
  defines "p \<equiv> q\<lparr>cons_r := cons_r q + 1\<rparr>"
  shows "cons_ok p" "committed p = tl (committed q)" "edited p = edited q" "committed q \<noteq> []"
    "hd (committed q) = cons_buf q (unat (cons_r q mod INPUT_BUF_SIZE))"
proof -
  let ?n = "unat (cons_e q - cons_r q)" and ?m = "unat (cons_w q - cons_r q)"
  have wr: "cons_w q \<noteq> cons_r q" using assms(2) by simp
  note w = unat_minus1 [OF wr]
  have mn: "?m \<le> ?n" using assms(1) by (simp add: cons_ok_def)
  then have "cons_e q \<noteq> cons_r q" using w(3) by auto
  note e = unat_minus1 [OF this]
  have "unat (cons_r q + 1) mod 128 = Suc (unat (cons_r q)) mod 128" using unat_mod_ring [of 128 "cons_r q" 1] by simp
  then have "ring_items 128 (cons_buf q) (unat (cons_r q + 1)) k = ring_items 128 (cons_buf q) (Suc (unat (cons_r q))) k" for k
    by (rule ring_items_mod)
  then have all: "cons_all p = tl (cons_all q)"
    using e ring_items_get [OF e(3), of 128 "cons_buf q" "unat (cons_r q)"] by (simp add: cons_all_def p_def)
  have "hd (cons_all q) = cons_buf q (unat (cons_r q) mod 128)"
    using ring_items_get [OF e(3), of 128 "cons_buf q" "unat (cons_r q)"] by (simp add: cons_all_def)
  then show "hd (committed q) = cons_buf q (unat (cons_r q mod INPUT_BUF_SIZE))"
    using w(3) by (simp add: committed_def hd_take unat_mod INPUT_BUF_SIZE_def)
  show "committed q \<noteq> []" using cons_lengths(1) [OF assms(1)] w(3) by auto
  show "committed p = tl (committed q)" unfolding committed_def all using w(2,3) by (simp add: p_def tl_take)
  show ed: "edited p = edited q" unfolding edited_def all using w(2,3) by (simp add: p_def drop_Suc [symmetric])
  show "cons_ok p" using assms(1) w e mn ed unfolding cons_ok_def by (simp add: p_def, linarith)
qed

text \<open>
  The bytes \<open>ds\<close> that a call of \<open>consoleread\<close> for \<open>n\<close> bytes delivers, of the committed input \<open>C\<close>: up to the \<open>n\<close>-th
  byte, a newline, a control-D, the end of the input, or an address that is not writable.
\<close>

definition line_taken :: "int \<Rightarrow> u8 list \<Rightarrow> u8 list \<Rightarrow> bool \<Rightarrow> bool" where
  "line_taken n C ds fault \<longleftrightarrow>
     ds = take (length ds) C \<and> int (length ds) \<le> max 0 n \<and> 4 \<notin> set ds \<and> 10 \<notin> set (butlast ds) \<and>
     (int (length ds) = max 0 n \<or> (ds \<noteq> [] \<and> last ds = 10) \<or> length ds = length C \<or> C ! length ds = 4 \<or> fault)"

text \<open>
  How the call ends, and the committed input that it leaves: a control-D after other bytes stays for the next call, and a
  byte that could not be stored is lost. \<open>target\<close> is the number of bytes asked for in the beginning.
\<close>

definition line_read :: "bool \<Rightarrow> int \<Rightarrow> int \<Rightarrow> u8 list \<Rightarrow> u8 list \<Rightarrow> int outcome \<times> u8 list" where
  "line_read kl n target C ds =
     (let k = length ds; r = Done (target - n + int k)
      in if int k = max 0 n \<or> (ds \<noteq> [] \<and> last ds = 10) then (r, drop k C)
         else if k = length C then (if kl then Done (-1) else Sleep Ch_cons, [])
         else if C ! k = 4 then (r, if n - int k < target then drop k C else drop (Suc k) C)
         else (r, drop (Suc k) C))"

lemma line_read_Cons:
  assumes "0 < n" "c \<noteq> 4" "c \<noteq> 10"
  shows "line_taken n (c # C) (c # ds) f = line_taken (n - 1) C ds f"
    "line_read kl n target (c # C) (c # ds) = line_read kl (n - 1) target C ds"
proof -
  have m: "int (Suc k) = max 0 n \<longleftrightarrow> int k = max 0 (n - 1)" "int (Suc k) \<le> max 0 n \<longleftrightarrow> int k \<le> max 0 (n - 1)" for k using assms(1) by auto
  show "line_taken n (c # C) (c # ds) f = line_taken (n - 1) C ds f"
    using assms(2,3) m [of "length ds"] by (cases "ds = []") (auto simp: line_taken_def)
  show "line_read kl n target (c # C) (c # ds) = line_read kl (n - 1) target C ds"
    using assms(3) m(1) [of "length ds"] by (simp add: line_read_def Let_def algebra_simps)
qed

text \<open>\<open>consoleread\<close> of process \<open>p\<close> into the memory of its user, from the head of its loop on.\<close>

definition reads_line :: "nat \<Rightarrow> u64 \<Rightarrow> u64 \<Rightarrow> int \<Rightarrow> int \<Rightarrow> 'a console_scheme \<Rightarrow> bool" where
  "reads_line p pt va n target s \<longleftrightarrow>
     (\<exists>ds q m. line_taken n (committed (cons s)) ds (ubyte (mem s) pt (va + of_nat (length ds)) = None) \<and>
        cons_ok q \<and> edited q = edited (cons s) \<and> user_bytes m pt va ds \<and>
        (\<forall>vb. \<not> unat (vb - va) < length ds \<longrightarrow> ubyte m pt vb = ubyte (mem s) pt vb) \<and>
        (case line_read (is_killed p s) n target (committed (cons s)) ds of (out, rst) \<Rightarrow> committed q = rst \<and>
          consoleread_loop (User va) n target s = Some (out, n - int (length ds),
            (if out = Sleep Ch_cons then sleep_enter p Ch_cons else (\<lambda>x. x)) (s\<lparr>cons := q, mem := m\<rparr>))))"

text \<open>A byte that is stored, and the rest of the loop.\<close>

lemma reads_line_step:
  fixes s :: "'a console_scheme"
  assumes C: "committed (cons s) = c # committed q0" "edited q0 = edited (cons s)" "0 < n" "n < 2 ^ 31" "c \<noteq> 4" "c \<noteq> 10"
    and m1: "ubyte (mem s) pt va \<noteq> None" "\<forall>vb. ubyte m1 pt vb = (if vb = va then Some c else ubyte (mem s) pt vb)"
    and eq: "consoleread_loop (User va) n target s = consoleread_loop (User (va + 1)) (n - 1) target (s\<lparr>cons := q0, mem := m1\<rparr>)"
    and IH: "reads_line p pt (va + 1) (n - 1) target (s\<lparr>cons := q0, mem := m1\<rparr>)"
  shows "reads_line p pt va n target s"
proof -
  let ?t = "s\<lparr>cons := q0, mem := m1\<rparr>"
  have sel: "cons ?t = q0" "mem ?t = m1" "is_killed p ?t = is_killed p s" by (simp_all add: is_killed_def)
  obtain ds q m where ds: "line_taken (n - 1) (committed q0) ds (ubyte m1 pt (va + 1 + of_nat (length ds)) = None)"
      "cons_ok q" "edited q = edited q0" "user_bytes m pt (va + 1) ds"
      "\<forall>vb. \<not> unat (vb - (va + 1)) < length ds \<longrightarrow> ubyte m pt vb = ubyte m1 pt vb"
      "case line_read (is_killed p s) (n - 1) target (committed q0) ds of (out, rst) \<Rightarrow> committed q = rst \<and>
        consoleread_loop (User (va + 1)) (n - 1) target ?t = Some (out, n - 1 - int (length ds),
          (if out = Sleep Ch_cons then sleep_enter p Ch_cons else (\<lambda>x. x)) (?t\<lparr>cons := q, mem := m\<rparr>))"
    using IH unfolding reads_line_def sel by (elim exE conjE) (rule that; assumption)
  have k: "length ds < 2 ^ 63" using ds(1) assms(3,4) by (simp add: line_taken_def)
  have fr: "ubyte m pt vb = ubyte (mem s) pt vb" if "\<not> unat (vb - va) < Suc (length ds)" for vb
    using that ds(5) [rule_format, of vb] m1(2) range_Suc [OF k, of vb va] by simp
  have "ubyte m pt va = Some c" using ds(5) [rule_format, of va] m1(2) not_in_next_range [OF k, of va] by simp
  then have ub: "user_bytes m pt va (c # ds)" using ds(4) by (simp add: user_bytes_Cons)
  have nx: "(ubyte m1 pt (va + 1 + of_nat (length ds)) = None) = (ubyte (mem s) pt (va + of_nat (length (c # ds))) = None)"
  proof -
    have "(ubyte m1 pt x = None) = (ubyte (mem s) pt x = None)" for x using m1 by auto
    moreover have "va + 1 + of_nat (length ds) = va + of_nat (length (c # ds))" by simp
    ultimately show ?thesis by metis
  qed
  note R = line_read_Cons [OF assms(3,5,6)]
  show ?thesis
    unfolding reads_line_def C using ds(1-3,6) eq fr ub C(2) unfolding nx R(1) [symmetric] R(2) [symmetric]
    by (intro exI [of _ "c # ds"] exI [of _ q] exI [of _ m]) (auto simp: algebra_simps split: prod.splits if_splits)
qed

lemma consoleread_loop_spec:
  fixes s :: "'a console_scheme"
  assumes "cons_ok (cons s)" "myproc s = Some p" "user_inv s pt ps" "pagetable (procs s p) = pt" "n < 2 ^ 31"
  shows "reads_line p pt va n target s"
  using assms
proof (induction "nat n" arbitrary: n va s rule: less_induct)
  case less
  note ok = less.prems(1) and p = less.prems(2) and inv = less.prems(3) and pt = less.prems(4)
  let ?c = "cons_buf (cons s) (unat (cons_r (cons s) mod INPUT_BUF_SIZE))" and ?q = "(cons s)\<lparr>cons_r := cons_r (cons s) + 1\<rparr>"
  let ?s = "s\<lparr>cons := ?q\<rparr>"
  note D = reads_line_def line_taken_def line_read_def Let_def and U = consoleread_loop.simps [of "User va" n target s]
  show ?case
  proof (cases "0 < n \<and> cons_r (cons s) \<noteq> cons_w (cons s)")
    case False
    have "cons_r (cons s) = cons_w (cons s) \<Longrightarrow> committed (cons s) = []" by (simp add: committed_def)
    then show ?thesis unfolding D U using False ok p
      by (intro exI [of _ "[]"] exI [of _ "cons s"] exI [of _ "mem s"]) (cases "0 < n"; simp)
  next
    case True
    then have n: "0 < n" and T: "cons_r (cons s) \<noteq> cons_w (cons s)" by simp_all
    note T = T cons_take [OF ok T]
    have C: "committed (cons s) = ?c # committed ?q" unfolding T(3) T(6) [symmetric] using T(5) by simp
    have "user_inv ?s pt ps" using inv by (subst user_inv_same [of _ s]) simp_all
    from copyout_byte [OF this, of va ?c] obtain m1 where m1: "user_inv (?s\<lparr>mem := m1\<rparr>) pt ps"
        "copyout pt va (\<lambda>_. ?c) 1 ?s = Some (if ubyte (mem s) pt va = None then -1 else 0, ?s\<lparr>mem := m1\<rparr>)"
        "\<forall>vb. ubyte m1 pt vb = (if vb = va \<and> ubyte (mem s) pt va \<noteq> None then Some ?c else ubyte (mem s) pt vb)" by auto
    have my: "myproc ?s = Some p" using p by (simp add: myproc_def mycpu_def)
    have e: "either_copyout (User va) (\<lambda>_. ?c) 1 ?s = Some (if ubyte (mem s) pt va = None then -1 else 0, ?s\<lparr>mem := m1\<rparr>)"
      using m1(2) my pt by (simp add: either_copyout_def)
    consider (eof) "?c = 4" | (fault) "?c \<noteq> 4" "ubyte (mem s) pt va = None"
      | (nl) "?c = 10" "ubyte (mem s) pt va \<noteq> None" | (go) "?c \<noteq> 4" "?c \<noteq> 10" "ubyte (mem s) pt va \<noteq> None" by auto
    then show ?thesis
    proof cases
      case eof
      then have "committed (cons s) ! 0 = 4" "committed (cons s) \<noteq> []" by (simp_all add: C)
      then show ?thesis unfolding D using n p ok T eof U
        by (intro exI [of _ "[]"] exI [of _ "if n < target then cons s else ?q"] exI [of _ "mem s"]) (simp add: drop_Suc Let_def)
    next
      case fault
      then show ?thesis unfolding D using n p T U e m1(3) C
        by (intro exI [of _ "[]"] exI [of _ ?q] exI [of _ m1]) (simp add: Let_def)
    next
      case nl
      have "unat (vb - va) < Suc 0 \<longleftrightarrow> vb = va" for vb using one_byte [of vb va] by simp
      then show ?thesis unfolding D using n p T U e m1(3) C nl
        by (intro exI [of _ "[?c]"] exI [of _ ?q] exI [of _ m1]) (auto simp: user_bytes_Cons Let_def)
    next
      case go
      have "reads_line p pt (va + 1) (n - 1) target (?s\<lparr>mem := m1\<rparr>)"
        using n T(2) my pt m1(1) less.prems(5) by (intro less.hyps) (simp_all add: myproc_def mycpu_def)
      then show ?thesis
        using reads_line_step [OF C T(4) n less.prems(5) go(1,2,3), of m1 target p] go m1(3) n p T U e by (simp add: Let_def)
    qed
  qed
qed

text \<open>
  C13: The console is a line editor over a buffer of 128 characters, and its three counters stay in
  order whatever they wrap around to. While the transmitter is idle again and again, every key is handled: delete
  erases the last character of the line being edited and never input that is already committed, control-U erases the line,
  control-P prints the processes, whose names must end with a zero, and leaves the input alone, a newline, control-D or a full
  buffer commits the line and wakes the readers, and any other key is appended. \<open>consoleread\<close> into user memory delivers the
  committed input up to \<open>n\<close> bytes, a newline or a control-D, in order and nothing else, and leaves the line being edited alone. A
  control-D is taken when it comes first and stays for the next call otherwise; a byte whose address is not writable is
  lost. The call sleeps, or fails when the caller is killed, exactly when the committed input ends before that.
\<close>
theorem console_type:
  fixes s :: "'a console_scheme"
  assumes "cons_ok (cons s)" "serial_ok s" "0 \<le> c" "c < 256" "c = 16 \<longrightarrow> names_ok s"
  shows "(\<exists>t. consoleintr c s = Some t \<and> cons_ok (cons t) \<and>
      (committed (cons t), edited (cons t)) = edit_key c (committed (cons s), edited (cons s)) \<and>
      (committed (cons t) \<noteq> committed (cons s) \<longrightarrow> (\<forall>q. asleep_on Ch_cons t q \<longrightarrow> myproc s = Some q))) \<and>
    (\<forall>p pt ps va n. myproc s = Some p \<and> pagetable (procs s p) = pt \<and> user_inv s pt ps \<and> n < 2 ^ 31 \<longrightarrow>
      (\<exists>ds q m. line_taken n (committed (cons s)) ds (ubyte (mem s) pt (va + of_nat (length ds)) = None) \<and>
        cons_ok q \<and> edited q = edited (cons s) \<and> user_bytes m pt va ds \<and>
        (\<forall>vb. \<not> unat (vb - va) < length ds \<longrightarrow> ubyte m pt vb = ubyte (mem s) pt vb) \<and>
        (case line_read (is_killed p s) n n (committed (cons s)) ds of (out, rst) \<Rightarrow> committed q = rst \<and>
          consoleread (User va) n s = Some (out, n - int (length ds),
            (if out = Sleep Ch_cons then sleep_enter p Ch_cons else (\<lambda>x. x)) (s\<lparr>cons := q, mem := m\<rparr>)))))"
proof (intro conjI allI impI)
  fix p pt ps va and n :: int
  assume "myproc s = Some p \<and> pagetable (procs s p) = pt \<and> user_inv s pt ps \<and> n < 2 ^ 31"
  then have "myproc s = Some p" "user_inv s pt ps" "pagetable (procs s p) = pt" "n < 2 ^ 31" by simp_all
  then show "\<exists>ds q m. line_taken n (committed (cons s)) ds (ubyte (mem s) pt (va + of_nat (length ds)) = None) \<and>
        cons_ok q \<and> edited q = edited (cons s) \<and> user_bytes m pt va ds \<and>
        (\<forall>vb. \<not> unat (vb - va) < length ds \<longrightarrow> ubyte m pt vb = ubyte (mem s) pt vb) \<and>
        (case line_read (is_killed p s) n n (committed (cons s)) ds of (out, rst) \<Rightarrow> committed q = rst \<and>
          consoleread (User va) n s = Some (out, n - int (length ds),
            (if out = Sleep Ch_cons then sleep_enter p Ch_cons else (\<lambda>x. x)) (s\<lparr>cons := q, mem := m\<rparr>)))"
    unfolding consoleread_def by (rule consoleread_loop_spec [OF assms(1), unfolded reads_line_def])
qed (rule consoleintr_edits [OF assms])

text \<open>A console with an idle transmitter, on which \<open>ab\<close> was typed.\<close>

definition boot_console :: console where
  "boot_console =
     (uart.extend (fsys.extend (boot_fs mkfs_log boot_inode)
        (uart.fields \<lparr>uart_tx_buf = (\<lambda>_. 0), uart_tx_w = 0, uart_tx_r = 0\<rparr> 0 (\<lambda>_. 32) 0 (\<lambda>_. 0) 0 []))
        (console.fields \<lparr>cons_buf = (\<lambda>k. if k = 0 then 97 else 98), cons_r = 0, cons_w = 0, cons_e = 2\<rparr> (\<lambda>_. \<lparr>dread = None, dwrite = None\<rparr>)))
     \<lparr>cpu_tab := (\<lambda>_. \<lparr>cproc = Some 0, ccontext = \<lparr>c_ra = 0, c_sp = 0, c_s = (\<lambda>_. 0)\<rparr>, noff = 0, intena = False, sie = False\<rparr>)\<rparr>"

lemma boot_console_sel:
  "tx boot_console = \<lparr>uart_tx_buf = (\<lambda>_. 0), uart_tx_w = 0, uart_tx_r = 0\<rparr>" "panicked boot_console = 0" "lsr boot_console = (\<lambda>_. 32)"
  "uart_writes boot_console = []" "cons boot_console = \<lparr>cons_buf = (\<lambda>k. if k = 0 then 97 else 98), cons_r = 0, cons_w = 0, cons_e = 2\<rparr>"
  "noff (mycpu boot_console) = 0"
  by (simp_all add: boot_console_def mycpu_def uart.defs fsys.defs console.defs)

lemma boot_console_ok: "tx_ok (tx boot_console)" "tx_fair boot_console" "serial_ok boot_console" "cons_ok (cons boot_console)"
  "committed (cons boot_console) = []" "edited (cons boot_console) = [97, 98]" "tx_items (tx boot_console) = []"
  by (auto simp: tx_ok_def tx_fair_def serial_ok_def boot_console_sel LSR_TX_IDLE_def cons_ok_def committed_def edited_def cons_all_def
    ring_items_def tx_items_def upt_rec)

theorem uartputc_sends_witness:
  "\<exists>s' k. uartputc 65 boot_console = Some (Done (), s') \<and> uart_writes ((uartstart ^^ k) s') = [(0, 65)]"
proof -
  let ?s = "uartstart (boot_console\<lparr>tx := tx_put 65 (tx boot_console)\<rparr>)"
  have "uartputc 65 boot_console = Some (Done (), ?s)" by (simp add: uartputc_def uartputc_loop_def boot_console_sel UART_TX_BUF_SIZE_def)
  then show ?thesis using uartputc_sends [OF boot_console_ok(1,2), of 65 ?s] by (auto simp: boot_console_sel(4) boot_console_ok THR_def)
qed

text \<open>The console over the memory of a user, with \<open>a\<close> and a control-D committed.\<close>

definition user_console :: "kmem \<Rightarrow> u64 \<Rightarrow> console" where
  "user_console s pt = boot_console\<lparr>mem := mem s, k_end := k_end s, freelist := freelist s,
     procs := (\<lambda>_. no_proc)(0 := no_proc\<lparr>pagetable := pt\<rparr>),
     cons := \<lparr>cons_buf = (\<lambda>k. if k = 0 then 97 else 4), cons_r = 0, cons_w = 2, cons_e = 2\<rparr>\<rparr>"

lemma user_console:
  "mem (user_console s pt) = mem s" "myproc (user_console s pt) = Some 0" "pagetable (procs (user_console s pt) 0) = pt"
  "serial_ok (user_console s pt)" "names_ok (user_console s pt)" "cons_ok (cons (user_console s pt))"
  "committed (cons (user_console s pt)) = [97, 4]" "user_inv s pt ps \<Longrightarrow> user_inv (user_console s pt) pt ps"
proof -
  show "mem (user_console s pt) = mem s" "pagetable (procs (user_console s pt) 0) = pt" by (simp_all add: user_console_def)
  show "myproc (user_console s pt) = Some 0" by (simp add: user_console_def myproc_def mycpu_def boot_console_def)
  show "serial_ok (user_console s pt)" using boot_console_ok(3) by (simp add: user_console_def serial_ok_def tx_fair_def mycpu_def)
  show "names_ok (user_console s pt)" by (auto simp: names_ok_def user_console_def no_proc_def)
  show "cons_ok (cons (user_console s pt))" "committed (cons (user_console s pt)) = [97, 4]"
    by (simp_all add: user_console_def cons_ok_def committed_def edited_def cons_all_def ring_items_def upt_rec)
  have eq: "mem (user_console s pt) = mem s" "k_end (user_console s pt) = k_end s" "freelist (user_console s pt) = freelist s"
    by (simp_all add: user_console_def)
  assume "user_inv s pt ps"
  then show "user_inv (user_console s pt) pt ps" unfolding user_inv_def vm_inv_def kmem_pool_def kpage_def eq .
qed

theorem console_type_witness:
  "(\<exists>t. consoleintr 127 boot_console = Some t \<and> edited (cons t) = [97] \<and> committed (cons t) = []) \<and>
   (\<exists>(s :: console) t u. consoleintr 16 s = Some u \<and> consoleread (User 0) 10 s = Some (Done 1, 9, t) \<and> committed (cons t) = [4])"
proof
  show "\<exists>t. consoleintr 127 boot_console = Some t \<and> edited (cons t) = [97] \<and> committed (cons t) = []"
    using console_type [OF boot_console_ok(4,3), of 127] by (auto simp: boot_console_ok edit_key_def)
  obtain s :: kmem and pt ps where s: "user_inv s pt ps" "\<forall>vb < 4096. ubyte (mem s) pt vb = Some (if unat vb < 3 then 65 else 0)"
    using boot_mapped by blast
  let ?s = "user_console s pt"
  have n: "16 = 16 \<longrightarrow> names_ok ?s" by (simp add: user_console)
  have "myproc ?s = Some 0 \<and> pagetable (procs ?s 0) = pt \<and> user_inv ?s pt ps \<and> 10 < (2 :: int) ^ 31"
    using user_console(2,3) user_console(8) [OF s(1)] by simp
  from conjunct2 [OF console_type [OF user_console(6,4) _ _ n], rule_format, OF _ _ this, of 0, unfolded user_console(1,7)]
  obtain ds q m where ds: "line_taken 10 [97, 4] ds (ubyte (mem s) pt (0 + of_nat (length ds)) = None)"
      "case line_read (is_killed 0 ?s) 10 10 [97, 4] ds of (out, rst) \<Rightarrow> committed q = rst \<and>
        consoleread (User 0) 10 ?s = Some (out, 10 - int (length ds),
          (if out = Sleep Ch_cons then sleep_enter 0 Ch_cons else (\<lambda>x. x)) (?s\<lparr>cons := q, mem := m\<rparr>))"
    by auto
  have "ds \<noteq> []" using ds(1) s(2) by (auto simp: line_taken_def)
  moreover have "length ds \<le> 1" using ds(1) by (auto simp: line_taken_def numeral_2_eq_2 take_Cons' split: if_splits)
  ultimately have "ds = [97]" using ds(1) by (cases ds) (auto simp: line_taken_def)
  then have "consoleread (User 0) 10 ?s = Some (Done 1, 9, ?s\<lparr>cons := q, mem := m\<rparr>)" "committed q = [4]"
    using ds(2) by (simp_all add: line_read_def)
  moreover have "\<exists>u. consoleintr 16 ?s = Some u" using conjunct1 [OF console_type [OF user_console(6,4) _ _ n]] by auto
  ultimately show "\<exists>(s :: console) t u. consoleintr 16 s = Some u \<and> consoleread (User 0) 10 s = Some (Done 1, 9, t) \<and> committed (cons t) = [4]" by fastforce
qed

end
