(* ===== verification/Boot.thy ===== *)
theory Boot
  imports Trap
begin

text \<open>
  Start-up: the registers that \<^verbatim>\<open>kernel/riscv.h\<close> accesses, the machine-mode code of \<^verbatim>\<open>kernel/start.c\<close>, and
  \<open>main\<close> of \<^verbatim>\<open>kernel/main.c\<close> up to the scheduler. A control register is a cell of 64 bits; that some
  of their bits are fixed by the hardware or shared between registers is not part of the model.
  Lock initialisation has no effect on the state, and so \<open>printfinit\<close>, \<open>trapinit\<close> and \<open>fileinit\<close>
  do not appear.
\<close>

section \<open>Registers\<close>

record csrs =
  csr_mhartid :: u64
  csr_mstatus :: u64
  csr_mepc :: u64
  csr_sstatus :: u64
  csr_sip :: u64
  csr_sie :: u64
  csr_mie :: u64
  csr_sepc :: u64
  csr_medeleg :: u64
  csr_mideleg :: u64
  csr_stvec :: u64
  csr_mtvec :: u64
  csr_pmpcfg0 :: u64
  csr_pmpaddr0 :: u64
  csr_satp :: u64
  csr_mscratch :: u64
  csr_scause :: u64
  csr_stval :: u64
  csr_mcounteren :: u64
  csr_time :: u64
  reg_sp :: u64
  reg_tp :: u64
  reg_ra :: u64

definition MSTATUS_MPP_MASK :: u64 where "MSTATUS_MPP_MASK = push_bit 11 3"
definition MSTATUS_MPP_M :: u64 where "MSTATUS_MPP_M = push_bit 11 3"
definition MSTATUS_MPP_S :: u64 where "MSTATUS_MPP_S = push_bit 11 1"
definition MSTATUS_MPP_U :: u64 where "MSTATUS_MPP_U = push_bit 11 0"
definition MSTATUS_MIE :: u64 where "MSTATUS_MIE = push_bit 3 1"
definition SSTATUS_UPIE :: u64 where "SSTATUS_UPIE = push_bit 4 1"
definition SSTATUS_SIE :: u64 where "SSTATUS_SIE = push_bit 1 1"
definition SSTATUS_UIE :: u64 where "SSTATUS_UIE = push_bit 0 1"
definition SIE_SEIE :: u64 where "SIE_SEIE = push_bit 9 1"
definition SIE_STIE :: u64 where "SIE_STIE = push_bit 5 1"
definition SIE_SSIE :: u64 where "SIE_SSIE = push_bit 1 1"
definition MIE_MEIE :: u64 where "MIE_MEIE = push_bit 11 1"
definition MIE_MTIE :: u64 where "MIE_MTIE = push_bit 7 1"
definition MIE_MSIE :: u64 where "MIE_MSIE = push_bit 3 1"

definition r_mhartid :: "'a csrs_scheme \<Rightarrow> u64" where "r_mhartid h = csr_mhartid h"
definition r_mstatus :: "'a csrs_scheme \<Rightarrow> u64" where "r_mstatus h = csr_mstatus h"
definition w_mstatus :: "u64 \<Rightarrow> 'a csrs_scheme \<Rightarrow> 'a csrs_scheme" where "w_mstatus x h = h\<lparr>csr_mstatus := x\<rparr>"
definition w_mepc :: "u64 \<Rightarrow> 'a csrs_scheme \<Rightarrow> 'a csrs_scheme" where "w_mepc x h = h\<lparr>csr_mepc := x\<rparr>"
definition r_sstatus :: "'a csrs_scheme \<Rightarrow> u64" where "r_sstatus h = csr_sstatus h"
definition w_sstatus :: "u64 \<Rightarrow> 'a csrs_scheme \<Rightarrow> 'a csrs_scheme" where "w_sstatus x h = h\<lparr>csr_sstatus := x\<rparr>"
definition r_sip :: "'a csrs_scheme \<Rightarrow> u64" where "r_sip h = csr_sip h"
definition w_sip :: "u64 \<Rightarrow> 'a csrs_scheme \<Rightarrow> 'a csrs_scheme" where "w_sip x h = h\<lparr>csr_sip := x\<rparr>"
definition r_sie :: "'a csrs_scheme \<Rightarrow> u64" where "r_sie h = csr_sie h"
definition w_sie :: "u64 \<Rightarrow> 'a csrs_scheme \<Rightarrow> 'a csrs_scheme" where "w_sie x h = h\<lparr>csr_sie := x\<rparr>"
definition r_mie :: "'a csrs_scheme \<Rightarrow> u64" where "r_mie h = csr_mie h"
definition w_mie :: "u64 \<Rightarrow> 'a csrs_scheme \<Rightarrow> 'a csrs_scheme" where "w_mie x h = h\<lparr>csr_mie := x\<rparr>"
definition w_sepc :: "u64 \<Rightarrow> 'a csrs_scheme \<Rightarrow> 'a csrs_scheme" where "w_sepc x h = h\<lparr>csr_sepc := x\<rparr>"
definition r_sepc :: "'a csrs_scheme \<Rightarrow> u64" where "r_sepc h = csr_sepc h"
definition r_medeleg :: "'a csrs_scheme \<Rightarrow> u64" where "r_medeleg h = csr_medeleg h"
definition w_medeleg :: "u64 \<Rightarrow> 'a csrs_scheme \<Rightarrow> 'a csrs_scheme" where "w_medeleg x h = h\<lparr>csr_medeleg := x\<rparr>"
definition r_mideleg :: "'a csrs_scheme \<Rightarrow> u64" where "r_mideleg h = csr_mideleg h"
definition w_mideleg :: "u64 \<Rightarrow> 'a csrs_scheme \<Rightarrow> 'a csrs_scheme" where "w_mideleg x h = h\<lparr>csr_mideleg := x\<rparr>"
definition w_stvec :: "u64 \<Rightarrow> 'a csrs_scheme \<Rightarrow> 'a csrs_scheme" where "w_stvec x h = h\<lparr>csr_stvec := x\<rparr>"
definition r_stvec :: "'a csrs_scheme \<Rightarrow> u64" where "r_stvec h = csr_stvec h"
definition w_mtvec :: "u64 \<Rightarrow> 'a csrs_scheme \<Rightarrow> 'a csrs_scheme" where "w_mtvec x h = h\<lparr>csr_mtvec := x\<rparr>"
definition w_pmpcfg0 :: "u64 \<Rightarrow> 'a csrs_scheme \<Rightarrow> 'a csrs_scheme" where "w_pmpcfg0 x h = h\<lparr>csr_pmpcfg0 := x\<rparr>"
definition w_pmpaddr0 :: "u64 \<Rightarrow> 'a csrs_scheme \<Rightarrow> 'a csrs_scheme" where "w_pmpaddr0 x h = h\<lparr>csr_pmpaddr0 := x\<rparr>"
definition w_satp :: "u64 \<Rightarrow> 'a csrs_scheme \<Rightarrow> 'a csrs_scheme" where "w_satp x h = h\<lparr>csr_satp := x\<rparr>"
definition r_satp :: "'a csrs_scheme \<Rightarrow> u64" where "r_satp h = csr_satp h"
definition w_mscratch :: "u64 \<Rightarrow> 'a csrs_scheme \<Rightarrow> 'a csrs_scheme" where "w_mscratch x h = h\<lparr>csr_mscratch := x\<rparr>"
definition r_scause :: "'a csrs_scheme \<Rightarrow> u64" where "r_scause h = csr_scause h"
definition r_stval :: "'a csrs_scheme \<Rightarrow> u64" where "r_stval h = csr_stval h"
definition w_mcounteren :: "u64 \<Rightarrow> 'a csrs_scheme \<Rightarrow> 'a csrs_scheme" where "w_mcounteren x h = h\<lparr>csr_mcounteren := x\<rparr>"
definition r_mcounteren :: "'a csrs_scheme \<Rightarrow> u64" where "r_mcounteren h = csr_mcounteren h"
definition r_time :: "'a csrs_scheme \<Rightarrow> u64" where "r_time h = csr_time h"
definition intr_on :: "'a csrs_scheme \<Rightarrow> 'a csrs_scheme" where "intr_on h = w_sstatus (r_sstatus h OR SSTATUS_SIE) h"
definition intr_off :: "'a csrs_scheme \<Rightarrow> 'a csrs_scheme" where "intr_off h = w_sstatus (r_sstatus h AND NOT SSTATUS_SIE) h"
definition intr_get :: "'a csrs_scheme \<Rightarrow> bool" where "intr_get h \<longleftrightarrow> r_sstatus h AND SSTATUS_SIE \<noteq> 0"
definition r_sp :: "'a csrs_scheme \<Rightarrow> u64" where "r_sp h = reg_sp h"
definition r_tp :: "'a csrs_scheme \<Rightarrow> u64" where "r_tp h = reg_tp h"
definition w_tp :: "u64 \<Rightarrow> 'a csrs_scheme \<Rightarrow> 'a csrs_scheme" where "w_tp x h = h\<lparr>reg_tp := x\<rparr>"
definition r_ra :: "'a csrs_scheme \<Rightarrow> u64" where "r_ra h = reg_ra h"

lemmas csr_defs = r_mhartid_def r_mstatus_def w_mstatus_def w_mepc_def r_sstatus_def w_sstatus_def r_sie_def w_sie_def r_mie_def w_mie_def
  w_medeleg_def w_mideleg_def w_mtvec_def w_pmpcfg0_def w_pmpaddr0_def w_satp_def w_mscratch_def w_tp_def

lemma intr_on_off: "intr_get (intr_on h)" "\<not> intr_get (intr_off h)" "csrs.more (intr_on h) = csrs.more h"
  "bit (csr_sstatus (intr_on h)) i \<longleftrightarrow> i = 1 \<or> bit (csr_sstatus h) i" "bit (csr_sstatus (intr_off h)) i \<longleftrightarrow> i \<noteq> 1 \<and> bit (csr_sstatus h) i"
proof -
  have s: "SSTATUS_SIE = 2 ^ 1" by (simp add: SSTATUS_SIE_def)
  have m: "bit SSTATUS_SIE i \<longleftrightarrow> i = 1" for i unfolding s bit_exp_iff by auto
  show on: "bit (csr_sstatus (intr_on h)) i \<longleftrightarrow> i = 1 \<or> bit (csr_sstatus h) i" for i
    by (auto simp: intr_on_def csr_defs bit_or_iff m)
  show off: "bit (csr_sstatus (intr_off h)) i \<longleftrightarrow> i \<noteq> 1 \<and> bit (csr_sstatus h) i" for i
    by (auto simp: intr_off_def csr_defs bit_and_iff bit_not_iff m dest: bit_imp_le_length)
  show "intr_get (intr_on h)" "\<not> intr_get (intr_off h)"
    using on [of 1] off [of 1] unfolding intr_get_def r_sstatus_def s and_exp_eq_0_iff_not_bit by simp_all
qed (simp add: intr_on_def csr_defs)

section \<open>Machine mode\<close>

text \<open>
  What else \<open>start\<close> uses: the timer, the scratch areas of the timer interrupts, and the addresses of
  \<open>main\<close>, \<open>timervec\<close> and \<open>timer_scratch\<close>. \<open>priv\<close> and \<open>pc\<close> are what \<open>mret\<close> sets.
\<close>

record mmode = csrs +
  mtime :: u64
  mtimecmp :: "u64 \<Rightarrow> u64"
  timer_scratch :: "nat \<Rightarrow> nat \<Rightarrow> u64"
  k_main :: u64
  k_timervec :: u64
  k_timer_scratch :: u64
  priv :: u64
  pcreg :: u64

definition CLINT :: u64 where "CLINT = 0x2000000"
definition CLINT_MTIMECMP :: "u64 \<Rightarrow> u64" where "CLINT_MTIMECMP h = CLINT + 0x4000 + 8 * h"

definition timerinit :: "'a mmode_scheme \<Rightarrow> 'a mmode_scheme" where
  "timerinit h =
     (let id = scast (ucast (r_mhartid h) :: u32) :: u64;
          h = h\<lparr>mtimecmp := (mtimecmp h)(CLINT_MTIMECMP id := mtime h + 1000000)\<rparr>;
          h = h\<lparr>timer_scratch := (timer_scratch h)(unat id := (timer_scratch h (unat id))(3 := CLINT_MTIMECMP id, 4 := 1000000))\<rparr>;
          h = w_mscratch (k_timer_scratch h + 40 * id) h;
          h = w_mtvec (k_timervec h) h;
          h = w_mstatus (r_mstatus h OR MSTATUS_MIE) h
      in w_mie (r_mie h OR MIE_MTIE) h)"

text \<open>\<open>mret\<close> goes to the address in \<open>mepc\<close> in the mode that \<open>mstatus\<close> names.\<close>

definition mret :: "'a mmode_scheme \<Rightarrow> 'a mmode_scheme" where
  "mret h = h\<lparr>priv := drop_bit 11 (r_mstatus h) AND 3, pcreg := csr_mepc h\<rparr>"

definition start :: "'a mmode_scheme \<Rightarrow> 'a mmode_scheme" where
  "start h =
     (let x = r_mstatus h AND NOT MSTATUS_MPP_MASK OR MSTATUS_MPP_S;
          h = w_mstatus x h;
          h = w_mepc (k_main h) h;
          h = w_satp 0 h;
          h = w_medeleg 0xffff h;
          h = w_mideleg 0xffff h;
          h = w_sie (r_sie h OR SIE_SEIE OR SIE_STIE OR SIE_SSIE) h;
          h = w_pmpaddr0 0x3fffffffffffff h;
          h = w_pmpcfg0 0xf h;
          h = timerinit h;
          id = ucast (r_mhartid h) :: u32;
          h = w_tp (scast id) h
      in mret h)"

lemma start_enters_main:
  "priv (start h) = 1" "pcreg (start h) = k_main h" "csr_satp (start h) = 0" "csr_mtvec (start h) = k_timervec h"
  "csr_mhartid h < 2 ^ 31 \<Longrightarrow> reg_tp (start h) = csr_mhartid h"
proof -
  have m: "(3 :: u64) = mask 2" by (simp add: mask_eq_exp_minus_1)
  have mm: "bit MSTATUS_MPP_MASK (11 + i) \<longleftrightarrow> i < 2" for i
    unfolding MSTATUS_MPP_MASK_def m by (auto simp: bit_push_bit_iff bit_mask_iff)
  have ms: "bit MSTATUS_MPP_S (11 + i) \<longleftrightarrow> i = 0" and mi: "\<not> bit MSTATUS_MIE (11 + i)" for i
    unfolding MSTATUS_MPP_S_def MSTATUS_MIE_def bit_push_bit_iff by (auto simp: bit_1_iff)
  have p: "priv (start h) = drop_bit 11 ((csr_mstatus h AND NOT MSTATUS_MPP_MASK OR MSTATUS_MPP_S) OR MSTATUS_MIE) AND mask 2"
    by (simp add: start_def timerinit_def mret_def csr_defs Let_def m)
  show "priv (start h) = 1"
    unfolding p by (rule bit_word_eqI) (auto simp: bit_and_iff bit_or_iff bit_not_iff bit_drop_bit_eq bit_mask_iff mm ms mi bit_1_iff)
  assume "csr_mhartid h < 2 ^ 31"
  then have u: "uint (csr_mhartid h) < 2 ^ 31" by (simp add: word_less_def)
  have "uint (ucast (csr_mhartid h) :: u32) = uint (csr_mhartid h)" using u by (simp add: unsigned_ucast_eq take_bit_int_eq_self)
  then have "sint (ucast (csr_mhartid h) :: u32) = uint (csr_mhartid h)"
    using u signed_take_bit_int_eq_self [of 31 "uint (csr_mhartid h)"] order_trans [of "- (2 ^ 31)" 0 "uint (csr_mhartid h)"]
    by (simp add: sint_uint del: unsigned_ucast_eq)
  moreover have "(scast w :: u64) = of_int (sint w)" for w :: u32 by simp
  ultimately have "(scast (ucast (csr_mhartid h) :: u32) :: u64) = csr_mhartid h" by (simp only: of_int_uint) simp
  then show "reg_tp (start h) = csr_mhartid h" by (simp add: start_def timerinit_def mret_def csr_defs Let_def)
qed (simp_all add: start_def timerinit_def mret_def csr_defs Let_def)

section \<open>main\<close>

definition booting :: "'a traps_scheme \<Rightarrow> 'a traps_scheme option" where
  "booting s = do { s \<leftarrow> printf ''\<newline>'' [] s; s \<leftarrow> printf ''xv6 kernel is booting\<newline>'' [] s; printf ''\<newline>'' [] s }"

text \<open>\<open>main\<close> on the first CPU, up to \<open>started = 1\<close>, and on the others once it is set.\<close>

definition kmain_first :: "'a traps_scheme \<Rightarrow> 'a traps_scheme option" where
  "kmain_first s =
     do {
       s \<leftarrow> booting (consoleinit s);
       s \<leftarrow> kinit s;
       s \<leftarrow> kvminit s;
       let s = kvminithart s;
       let s = procinit s;
       let s = trapinithart s;
       let s = plicinithart (plicinit s);
       let s = iinit (binit s);
       s \<leftarrow> virtio_disk_init s;
       userinit (k_forkret s) namei s
     }"

definition kmain_other :: "'a traps_scheme \<Rightarrow> 'a traps_scheme option" where
  "kmain_other s =
     do {
       s \<leftarrow> printf ''hart %d starting\<newline>'' [Num (of_nat (hart s))] s;
       Some (plicinithart (trapinithart (kvminithart s)))
     }"

end
