(* ===== verification/Mkfs.thy ===== *)
theory Mkfs
  imports Fs_Alloc
begin

text \<open>
  The program that builds a file system image, \<^verbatim>\<open>mkfs/mkfs.c\<close>. The image is a function from sectors to
  their bytes; the calls that open, read and write files of the host succeed, and a failed
  assertion is \<open>None\<close>. A file to be added is its name on the command line and the pieces in which
  \<open>read\<close> returns its contents.
\<close>

section \<open>State\<close>

record mkfs =
  image :: "u32 \<Rightarrow> bytes"
  msb :: superblock
  freeinode :: u32
  freeblock :: u32

definition NINODES :: nat where "NINODES = 200"
definition nbitmap :: nat where "nbitmap = FSSIZE div (BSIZE * 8) + 1"
definition ninodeblocks :: nat where "ninodeblocks = NINODES div IPB + 1"
definition nlog :: nat where "nlog = LOGSIZE"
definition nmeta :: nat where "nmeta = 2 + nlog + ninodeblocks + nbitmap"
definition nblocks :: nat where "nblocks = FSSIZE - nmeta"

text \<open>The byte order of the image, on a host that is little-endian itself.\<close>

definition xshort :: "u16 \<Rightarrow> u16" where
  "xshort x = le16 (byte_of 0 x) (byte_of 1 x)"

definition xint :: "u32 \<Rightarrow> u32" where
  "xint x = le32 (byte_of 0 x) (byte_of 1 x) (byte_of 2 x) (byte_of 3 x)"

section \<open>Sectors and inodes\<close>

definition wsect :: "u32 \<Rightarrow> bytes \<Rightarrow> mkfs \<Rightarrow> mkfs" where
  "wsect sec buf s = s\<lparr>image := (image s)(sec := buf)\<rparr>"

definition rsect :: "u32 \<Rightarrow> mkfs \<Rightarrow> bytes" where
  "rsect sec s = image s sec"

text \<open>A \<open>struct dinode\<close> is an inode whose other fields have no meaning.\<close>

definition zero_dinode :: inode where
  "zero_dinode = \<lparr>idev = 0, inum = 0, iref = 0, ivalid = False, itype = 0, imajor = 0, iminor = 0, nlink = 0, isize = 0, addrs = (\<lambda>_. 0)\<rparr>"

definition winode :: "u32 \<Rightarrow> inode \<Rightarrow> mkfs \<Rightarrow> mkfs" where
  "winode i ip s = (let bn = IBLOCK i (msb s) in wsect bn (put_dinode ip (dinode_off i) (rsect bn s)) s)"

definition rinode :: "u32 \<Rightarrow> mkfs \<Rightarrow> inode" where
  "rinode i s = get_dinode (rsect (IBLOCK i (msb s)) s) (dinode_off i) zero_dinode"

definition mk_ialloc :: "u16 \<Rightarrow> mkfs \<Rightarrow> u32 \<times> mkfs" where
  "mk_ialloc ty s =
     (let i = freeinode s;
          din = zero_dinode\<lparr>itype := xshort ty, nlink := xshort 1, isize := xint 0\<rparr>
      in (i, winode i din (s\<lparr>freeinode := i + 1\<rparr>)))"

definition mk_balloc :: "nat \<Rightarrow> mkfs \<Rightarrow> mkfs option" where
  "mk_balloc used s =
     (if used < BSIZE * 8
      then Some (wsect (sb_bmapstart (msb s))
        (fold (\<lambda>i buf. buf(i div 8 := buf (i div 8) OR push_bit (i mod 8) 1)) [0..<used] (\<lambda>_. 0)) s)
      else None)"

section \<open>Appending\<close>

text \<open>The next free block.\<close>

definition take_block :: "mkfs \<Rightarrow> u32 \<times> mkfs" where
  "take_block s = (freeblock s, s\<lparr>freeblock := freeblock s + 1\<rparr>)"

text \<open>The block of the file for its block number \<open>fbn\<close>; a new one where there is none.\<close>

definition file_block :: "nat \<Rightarrow> inode \<Rightarrow> mkfs \<Rightarrow> u32 \<times> inode \<times> mkfs" where
  "file_block fbn din s =
     (if fbn < NDIRECT
      then let (din, s) = (if xint (addrs din fbn) = 0
             then let (b, s) = take_block s in (din\<lparr>addrs := (addrs din)(fbn := xint b)\<rparr>, s) else (din, s))
        in (xint (addrs din fbn), din, s)
      else let (din, s) = (if xint (addrs din NDIRECT) = 0
             then let (b, s) = take_block s in (din\<lparr>addrs := (addrs din)(NDIRECT := xint b)\<rparr>, s) else (din, s));
               ind = xint (addrs din NDIRECT);
               indirect = rsect ind s;
               (indirect, s) = (if get32 indirect (4 * (fbn - NDIRECT)) = 0
             then let (b, s) = take_block s; indirect = put32 indirect (4 * (fbn - NDIRECT)) (xint b) in (indirect, wsect ind indirect s)
             else (indirect, s))
        in (xint (get32 indirect (4 * (fbn - NDIRECT))), din, s))"

definition piece :: "u32 \<Rightarrow> nat \<Rightarrow> nat" where
  "piece off n = min n (unat ((off div of_nat BSIZE + 1) * of_nat BSIZE - off))"

lemma piece_pos: "0 < n \<Longrightarrow> 0 < piece off n"
proof -
  assume "0 < n"
  have "(off div 1024 + 1) * 1024 - off = 1024 - off mod (1024 :: u32)"
    using word_mod_div_equality [of off 1024] by (simp add: algebra_simps)
  moreover have "off mod 1024 < (1024 :: u32)" by (rule word_mod_less_divisor) simp
  then have "0 < 1024 - off mod (1024 :: u32)" by (simp add: word_gt_0)
  ultimately have "0 < unat ((off div 1024 + 1) * 1024 - off)" by (simp only: unat_gt_0 word_gt_0)
  then show ?thesis unfolding piece_def BSIZE_def using \<open>0 < n\<close> by (simp only: of_nat_numeral min_less_iff_conj)
qed

function iappend_loop :: "bytes \<Rightarrow> nat \<Rightarrow> u32 \<Rightarrow> inode \<Rightarrow> mkfs \<Rightarrow> (u32 \<times> inode \<times> mkfs) option" where
  "iappend_loop p n off din s =
     (if 0 < n
      then let fbn = unat (off div of_nat BSIZE)
        in if fbn < MAXFILE
           then let (x, din, s) = file_block fbn din s;
                    n1 = piece off n;
                    pos = unat off - fbn * BSIZE;
                    buf = (\<lambda>k. if pos \<le> k \<and> k < pos + n1 then p (k - pos) else rsect x s k)
             in iappend_loop (\<lambda>k. p (k + n1)) (n - n1) (off + of_nat n1) din (wsect x buf s)
           else None
      else Some (off, din, s))"
  by pat_completeness auto
termination
  by (relation "measure (\<lambda>(_, n, _, _, _). n)") (auto simp: piece_pos)

declare iappend_loop.simps [simp del]

definition iappend :: "u32 \<Rightarrow> bytes \<Rightarrow> nat \<Rightarrow> mkfs \<Rightarrow> mkfs option" where
  "iappend i xp n s =
     do {
       let din = rinode i s;
       (off, din, s) \<leftarrow> iappend_loop xp n (xint (isize din)) din s;
       Some (winode i (din\<lparr>isize := xint off\<rparr>) s)
     }"

section \<open>The program\<close>

definition make_sb :: superblock where
  "make_sb = \<lparr>sb_magic = FSMAGIC, sb_size = xint (of_nat FSSIZE), sb_nblocks = xint (of_nat nblocks), sb_ninodes = xint (of_nat NINODES),
     sb_nlog = xint (of_nat nlog), sb_logstart = xint 2, sb_inodestart = xint (2 + of_nat nlog),
     sb_bmapstart = xint (2 + of_nat nlog + of_nat ninodeblocks)\<rparr>"

definition put_superblock :: "superblock \<Rightarrow> bytes \<Rightarrow> bytes" where
  "put_superblock b d =
     put32 (put32 (put32 (put32 (put32 (put32 (put32 (put32 d 0 (sb_magic b)) 4 (sb_size b)) 8 (sb_nblocks b)) 12 (sb_ninodes b))
       16 (sb_nlog b)) 20 (sb_logstart b)) 24 (sb_inodestart b)) 28 (sb_bmapstart b)"

definition dirent_of :: "u32 \<Rightarrow> bytes \<Rightarrow> bytes" where
  "dirent_of i nm = put16 (\<lambda>k. if 2 \<le> k \<and> k < 2 + DIRSIZ then nm (k - 2) else 0) 0 (xshort (ucast i))"

text \<open>The name of a file without \<open>user/\<close>, which must not contain a further slash, and without a leading underscore.\<close>

definition shortname :: "bytes \<Rightarrow> bytes option" where
  "shortname arg =
     (let nm = (if strncmp arg (\<lambda>k. if k < 5 then [117, 115, 101, 114, 47] ! k else 0) 5 = 0 then (\<lambda>k. arg (k + 5)) else arg)
      in do {
        n \<leftarrow> ulib_strlen nm;
        if \<exists>k \<in> set [0..<n]. nm k = 47 then None
        else Some (if nm 0 = 95 then (\<lambda>k. nm (k + 1)) else nm)
      })"

fun append_all :: "u32 \<Rightarrow> u8 list list \<Rightarrow> mkfs \<Rightarrow> mkfs option" where
  "append_all i [] s = Some s"
| "append_all i (x # xs) s =
     (if x = [] then Some s else do { s \<leftarrow> iappend i (\<lambda>k. x ! k) (length x) s; append_all i xs s })"

fun add_files :: "u32 \<Rightarrow> (bytes \<times> u8 list list) list \<Rightarrow> mkfs \<Rightarrow> mkfs option" where
  "add_files rootino [] s = Some s"
| "add_files rootino ((arg, pieces) # fs) s =
     do {
       nm \<leftarrow> shortname arg;
       let (i, s) = mk_ialloc T_FILE s;
       s \<leftarrow> iappend rootino (dirent_of i (strncpy (\<lambda>_. 0) nm (int DIRSIZ))) 16 s;
       s \<leftarrow> append_all i pieces s;
       add_files rootino fs s
     }"

definition mkfs_main :: "(bytes \<times> u8 list list) list \<Rightarrow> mkfs option" where
  "mkfs_main files =
     do {
       let s = \<lparr>image = (\<lambda>_ _. 0), msb = make_sb, freeinode = 1, freeblock = of_nat nmeta\<rparr>;
       let s = wsect 1 (put_superblock (msb s) (\<lambda>_. 0)) s;
       let (rootino, s) = mk_ialloc T_DIR s;
       if rootino \<noteq> ROOTINO then None
       else do {
         s \<leftarrow> iappend rootino (dirent_of rootino (\<lambda>k. if k = 0 then 46 else 0)) 16 s;
         s \<leftarrow> iappend rootino (dirent_of rootino (\<lambda>k. if k < 2 then 46 else 0)) 16 s;
         s \<leftarrow> add_files rootino files s;
         let din = rinode rootino s;
         let off = xint (isize din);
         let off = (off div of_nat BSIZE + 1) * of_nat BSIZE;
         let s = winode rootino (din\<lparr>isize := xint off\<rparr>) s;
         mk_balloc (unat (freeblock s)) s
       }
     }"

section \<open>What the kernel finds\<close>

lemma xint_id [simp]: "xint x = x"
  using get32_put32 [of "\<lambda>_. 0" 0 x] by (simp add: xint_def get32_def put32_def)

lemma xshort_id [simp]: "xshort x = x"
  using get16_put16 [of "\<lambda>_. 0" 0 x] by (simp add: xshort_def get16_def put16_def)

text \<open>The kernel reads the superblock back, and it is the one that the examples of the kernel theories use.\<close>

lemma get_put_superblock: "get_superblock (put_superblock b d) = b"
  by (simp add: get_superblock_def put_superblock_def get32_put32_other)

lemma make_sb_eq: "make_sb = mkfs_sb"
  by (simp add: make_sb_def mkfs_sb_def FSMAGIC_def nblocks_def nmeta_def nbitmap_def nlog_def ninodeblocks_def NINODES_def IPB_def BSIZE_def dinode_size_def)

text \<open>The bitmap has the first blocks in use and all others free.\<close>

lemma mk_balloc_bitmap:
  assumes "mk_balloc used s = Some s'"
  shows "bmap_clear (image s' (sb_bmapstart (msb s))) i \<longleftrightarrow> used \<le> i"
proof -
  have f: "(\<lambda>i buf. buf(i div 8 := buf (i div 8) OR push_bit (i mod 8) 1)) = bmap_set"
    by (intro ext) (simp only: bmap_set_def bit_mask_def)
  have "bmap_clear (fold bmap_set [0..<n] (\<lambda>_. 0)) i \<longleftrightarrow> n \<le> i" for n
    by (induction n) (simp add: bmap_clear_def, auto simp: bmap_clear_set)
  moreover have "image s' (sb_bmapstart (msb s)) = fold bmap_set [0..<used] (\<lambda>_. 0)"
    using assms unfolding mk_balloc_def f by (auto simp: wsect_def split: if_splits)
  ultimately show ?thesis by simp
qed

text \<open>An inode that was written is read back.\<close>

lemma rinode_winode:
  "rinode i (winode i ip s) = zero_dinode\<lparr>itype := itype ip, imajor := imajor ip, iminor := iminor ip, nlink := nlink ip, isize := isize ip,
     addrs := (\<lambda>k. if k < NDIRECT + 1 then addrs ip k else 0)\<rparr>"
  by (simp add: rinode_def winode_def wsect_def rsect_def Let_def get_put_dinode) (simp add: zero_dinode_def cong: if_cong)

end
