(* ===== verification/Umalloc.thy ===== *)
theory Umalloc
  imports Prelude
begin

text \<open>
  The allocator of user programs, \<^verbatim>\<open>user/umalloc.c\<close>: a circular list of free blocks. A block starts
  with a header of 16 bytes at its address; memory is the two fields of the headers at every address.
  \<open>sbrk\<close> is the system call, on a state of its own; it returns the largest word when it fails.
  A search that never ends is \<open>None\<close>.
\<close>

record mheap =
  hptr :: "u64 \<Rightarrow> u64"
  hsize :: "u64 \<Rightarrow> u32"
  freep :: u64
  hbase :: u64

abbreviation set_ptr :: "u64 \<Rightarrow> u64 \<Rightarrow> mheap \<Rightarrow> mheap" where
  "set_ptr p x h \<equiv> h\<lparr>hptr := (hptr h)(p := x)\<rparr>"

abbreviation set_size :: "u64 \<Rightarrow> u32 \<Rightarrow> mheap \<Rightarrow> mheap" where
  "set_size p x h \<equiv> h\<lparr>hsize := (hsize h)(p := x)\<rparr>"

text \<open>\<open>p + n\<close> for a pointer to headers.\<close>

definition hdr_add :: "u64 \<Rightarrow> u32 \<Rightarrow> u64" where
  "hdr_add p n = p + 16 * ucast n"

text \<open>The loop of \<open>free\<close>: the block after which \<open>bp\<close> belongs.\<close>

partial_function (option) free_find :: "mheap \<Rightarrow> u64 \<Rightarrow> u64 \<Rightarrow> u64 option" where
  "free_find h bp p =
     (if p < bp \<and> bp < hptr h p then Some p
      else if hptr h p \<le> p \<and> (p < bp \<or> bp < hptr h p) then Some p
      else free_find h bp (hptr h p))"

definition free :: "u64 \<Rightarrow> mheap \<Rightarrow> mheap option" where
  "free ap h =
     do {
       let bp = ap - 16;
       p \<leftarrow> free_find h bp (freep h);
       let nx = hptr h p;
       let h = (if hdr_add bp (hsize h bp) = nx
         then let h = set_size bp (hsize h bp + hsize h nx) h in set_ptr bp (hptr h nx) h
         else set_ptr bp nx h);
       let h = (if hdr_add p (hsize h p) = bp
         then let h = set_size p (hsize h p + hsize h bp) h in set_ptr p (hptr h bp) h
         else set_ptr p bp h);
       Some (h\<lparr>freep := p\<rparr>)
     }"

text \<open>The argument of \<open>sbrk\<close> is an \<open>int\<close>.\<close>

definition morecore :: "(int \<Rightarrow> 's \<Rightarrow> u64 \<times> 's) \<Rightarrow> u32 \<Rightarrow> mheap \<Rightarrow> 's \<Rightarrow> (u64 \<times> mheap \<times> 's) option" where
  "morecore sbrk nu h s =
     (let nu = (if nu < 4096 then 4096 else nu);
          (p, s) = sbrk (sint (ucast (ucast nu * 16 :: u64) :: u32)) s
      in if p = - 1 then Some (0, h, s)
         else do {
           h \<leftarrow> free (p + 16) (set_size p nu h);
           Some (freep h, h, s)
         })"

partial_function (option) malloc_loop ::
    "(int \<Rightarrow> 's \<Rightarrow> u64 \<times> 's) \<Rightarrow> u32 \<Rightarrow> u64 \<Rightarrow> u64 \<Rightarrow> mheap \<Rightarrow> 's \<Rightarrow> (u64 \<times> mheap \<times> 's) option" where
  "malloc_loop sbrk nunits prevp p h s =
     (if nunits \<le> hsize h p
      then let (p, h) = (if hsize h p = nunits then (p, set_ptr prevp (hptr h p) h)
             else let h = set_size p (hsize h p - nunits) h; q = hdr_add p (hsize h p) in (q, set_size q nunits h))
        in Some (p + 16, h\<lparr>freep := prevp\<rparr>, s)
      else if p = freep h
      then do {
        (p, h, s) \<leftarrow> morecore sbrk nunits h s;
        if p = 0 then Some (0, h, s) else malloc_loop sbrk nunits p (hptr h p) h s
      }
      else malloc_loop sbrk nunits p (hptr h p) h s)"

definition units_of :: "u32 \<Rightarrow> u32" where
  "units_of nbytes = ucast ((ucast nbytes + 16 - 1) div 16 + 1 :: u64)"

definition malloc :: "(int \<Rightarrow> 's \<Rightarrow> u64 \<times> 's) \<Rightarrow> u32 \<Rightarrow> mheap \<Rightarrow> 's \<Rightarrow> (u64 \<times> mheap \<times> 's) option" where
  "malloc sbrk nbytes h s =
     (let h = (if freep h = 0 then set_size (hbase h) 0 (set_ptr (hbase h) (hbase h) (h\<lparr>freep := hbase h\<rparr>)) else h)
      in malloc_loop sbrk (units_of nbytes) (freep h) (hptr h (freep h)) h s)"

section \<open>The first allocation\<close>

text \<open>The units of a request: the bytes rounded up, and one for the header. The \<open>uint\<close> does not overflow.\<close>

lemma unat_units_of: "unat (units_of n) = (unat n + 15) div 16 + 1"
proof -
  have b: "unat n < 2 ^ 32" using unsigned_less [of n, where ?'a = nat] by simp
  have "unat (ucast n + 15 :: u64) = unat n + 15" using b by (simp add: unat_word_ariths unsigned_ucast_eq take_bit_eq_mod)
  then have "unat ((ucast n + 15) div 16 :: u64) = (unat n + 15) div 16" by (simp add: unat_div_distrib)
  then have "unat ((ucast n + 15) div 16 + 1 :: u64) = (unat n + 15) div 16 + 1" using b by (simp add: unat_word_ariths)
  moreover have "(ucast n + 16 - 1 :: u64) = ucast n + 15" by simp
  ultimately show ?thesis using b unfolding units_of_def by (simp only: unsigned_ucast_eq take_bit_eq_mod) simp
qed

lemma units_of_pos: "units_of n \<noteq> 0"
  using unat_units_of [of n] by auto

text \<open>The first block that \<open>sbrk\<close> gives becomes the free list, after the empty block \<open>base\<close>.\<close>

lemma morecore_first:
  assumes "freep h = b" "hptr h b = b" "hsize h b = 0" "b < p" "p \<noteq> - 1"
    and "nu = max 4096 n" "sbrk (sint (ucast (ucast nu * 16 :: u64) :: u32)) s = (p, s')" "hdr_add p nu \<noteq> b"
  shows "morecore sbrk n h s = Some (b, h\<lparr>hsize := (hsize h)(p := nu), hptr := (hptr h)(p := b, b := p)\<rparr>, s')"
proof -
  have pb: "p \<noteq> b" using assms(4) by auto
  have nu: "nu = (if n < 4096 then 4096 else n)" using assms(6) by (auto simp: max_def)
  have "free_find (set_size p nu h) p b = Some b" using assms(2,4) by (subst free_find.simps) simp
  then have "free (p + 16) (set_size p nu h) = Some (h\<lparr>hsize := (hsize h)(p := nu), hptr := (hptr h)(p := b, b := p), freep := b\<rparr>)"
    using assms(1,2,3,8) pb by (simp add: free_def Let_def hdr_add_def)
  moreover have "h\<lparr>hsize := (hsize h)(p := nu), hptr := (hptr h)(p := b, b := p), freep := b\<rparr> =
      h\<lparr>hsize := (hsize h)(p := nu), hptr := (hptr h)(p := b, b := p)\<rparr>" using assms(1) by simp
  ultimately show ?thesis using assms(1,5,7) unfolding morecore_def nu [symmetric] Let_def by simp
qed

text \<open>The heap once the first block of \<open>nu\<close> units at \<open>p\<close> is on the free list.\<close>

definition grown :: "u64 \<Rightarrow> u32 \<Rightarrow> mheap \<Rightarrow> mheap" where
  "grown p nu h = h\<lparr>freep := hbase h, hsize := (hsize h)(hbase h := 0, p := nu),
     hptr := (hptr h)(hbase h := p, p := hbase h)\<rparr>"

lemma malloc_grow:
  assumes "freep h = 0" "hbase h < p" "p \<noteq> - 1" "hbase h \<noteq> 0" "nu = max 4096 (units_of nbytes)"
    and "sbrk (sint (ucast (ucast nu * 16 :: u64) :: u32)) s = (p, s')" "hdr_add p nu \<noteq> hbase h"
  shows "malloc sbrk nbytes h s = malloc_loop sbrk (units_of nbytes) (hbase h) p (grown p nu h) s'"
proof -
  define b where "b = hbase h"
  define h0 where "h0 = set_size b 0 (set_ptr b b (h\<lparr>freep := b\<rparr>))"
  have pb: "p \<noteq> b" "b \<noteq> 0" "b < p" using assms(2,4) by (auto simp: b_def)
  have g: "h0\<lparr>hsize := (hsize h0)(p := nu), hptr := (hptr h0)(p := b, b := p)\<rparr> = grown p nu h"
    using pb(1) by (simp add: h0_def grown_def b_def fun_upd_twist)
  have "morecore sbrk (units_of nbytes) h0 s = Some (b, grown p nu h, s')"
    unfolding g [symmetric]
    by (rule morecore_first [where sbrk = sbrk and s = s and s' = s', OF _ _ _ pb(3) assms(3,5,6)]) (use assms(7) in \<open>simp_all add: h0_def b_def\<close>)
  moreover have "hptr (grown p nu h) b = p" using pb(1) by (simp add: grown_def b_def)
  moreover have "malloc sbrk nbytes h s = malloc_loop sbrk (units_of nbytes) b b h0 s"
    using assms(1) by (simp add: malloc_def h0_def b_def Let_def)
  ultimately show ?thesis
    unfolding b_def [symmetric] using pb(2) units_of_pos [of nbytes]
    by (subst (asm) malloc_loop.simps) (simp add: h0_def)
qed

text \<open>The first call takes its block from the end of what \<open>sbrk\<close> gave and leaves the rest on the free list.\<close>

lemma malloc_first:
  assumes "freep h = 0" "hbase h < p" "p \<noteq> - 1" "hbase h \<noteq> 0"
    and n: "units_of nbytes < 4096" and "sbrk 65536 s = (p, s')" "p + 65536 \<noteq> hbase h"
  shows "\<exists>h'. malloc sbrk nbytes h s = Some (hdr_add p (4096 - units_of nbytes) + 16, h', s') \<and>
    hptr h' (hbase h) = p \<and> freep h' = hbase h"
proof -
  have "malloc sbrk nbytes h s = malloc_loop sbrk (units_of nbytes) (hbase h) p (grown p 4096 h) s'"
    by (rule malloc_grow) (use assms in \<open>simp_all add: hdr_add_def max_absorb1 less_imp_le\<close>)
  then show ?thesis
    using assms(2) less_imp_le [OF n] less_imp_neq [OF n]
    by (subst (asm) malloc_loop.simps) (auto simp: grown_def Let_def)
qed

text \<open>
  The size that \<open>morecore\<close> asks for is cut to an \<open>int\<close>: a request for as many bytes as a
  \<open>uint\<close> can count asks \<open>sbrk\<close> for 16 bytes, and the program gets a block of which only the header exists.
\<close>

lemma units_of_max: "units_of (- 1) = 268435457"
  by (rule unsigned_word_eqI [where ?'a = nat]) (simp add: unat_units_of unsigned_minus_1_eq_mask mask_eq_exp_minus_1)

lemma malloc_truncates:
  assumes "freep h = 0" "hbase h < p" "p \<noteq> - 1" "hbase h \<noteq> 0"
    and "sbrk 16 s = (p, s')" "hdr_add p (units_of (- 1)) \<noteq> hbase h"
  shows "\<exists>h'. malloc sbrk (- 1) h s = Some (p + 16, h', s')"
proof -
  have k: "sbrk (sint (ucast (ucast (units_of (- 1)) * 16 :: u64) :: u32)) s = (p, s')"
    using assms(5) by (simp add: units_of_max)
  have m: "units_of (- 1) = max 4096 (units_of (- 1))" by (simp add: units_of_max max_def)
  have "malloc sbrk (- 1) h s = malloc_loop sbrk (units_of (- 1)) (hbase h) p (grown p (units_of (- 1)) h) s'"
    by (rule malloc_grow [where sbrk = sbrk and s = s, OF assms(1-4) m k assms(6)])
  moreover have "hsize (grown p (units_of (- 1)) h) p = units_of (- 1)" by (simp add: grown_def)
  ultimately show ?thesis by (simp add: malloc_loop.simps [of _ _ _ p])
qed

end
