(* ===== verification/Spec2Isabelle.thy ===== *)
theory Spec2Isabelle
  imports CString Spinlock Trap Utils Sh_Run Fs_Dir Serial Boot Mkfs Umalloc
begin

text \<open>
  A verification of the xv6 operating system for RISC-V: the kernel (\<^verbatim>\<open>src/kernel\<close>), the user library and
  several user programs (\<^verbatim>\<open>src/user\<close>), and the builder of file system images (\<^verbatim>\<open>src/mkfs\<close>). The C functions
  are translated into functions of HOL under their own names; where a name was taken, a prefix or suffix was added
  (\<open>ulib_strlen\<close>, \<open>mk_balloc\<close>).

  \<^bold>\<open>The program and its model.\<close> The kernel is built in layers, and so is its state: a chain of
  extensible records, each adding the variables of a layer,
  \<open>machine\<close>, \<open>kmem\<close>, \<open>vm\<close>, \<open>ptab\<close>, \<open>ptabp\<close>, \<open>slp\<close>, \<open>bio\<close>, \<open>logged\<close>, \<open>fsys\<close>, \<open>uart\<close>, \<open>console\<close>, \<open>files\<close>, \<open>vio\<close>, \<open>traps\<close>.
  A function takes the state of its layer, and what it does holds in every extension of it.

  \<^item> \<open>Prelude\<close> has the machine integers, C arrays, little-endian storage and flat memory; \<open>CString\<close> the string
    routines of \<^verbatim>\<open>kernel/string.c\<close> and \<^verbatim>\<open>user/ulib.c\<close>; \<open>Layout\<close> the constants and address macros.
  \<^item> \<open>Kalloc\<close> is the page allocator (\<^verbatim>\<open>kalloc.c\<close>), whose free list lies in the free pages themselves. The contract
    of an allocator is the locale \<open>page_allocator\<close>.
  \<^item> \<open>Vm\<close> is \<^verbatim>\<open>vm.c\<close>, on page tables stored in the same memory; \<open>Vm_Walk\<close> relates them to the map from addresses
    to entries they stand for, \<open>Vm_User\<close> to the memory a process sees, and \<open>Vm_Frame\<close> says what they leave alone.
  \<^item> \<open>Spinlock\<close> (\<^verbatim>\<open>spinlock.c\<close>) interleaves the atomic actions of any number of CPUs. The mutual exclusion proved
    there is the reason why a critical section is a single step in all other theories.
  \<^item> \<open>Proc\<close> is the process table (\<^verbatim>\<open>proc.c\<close>), with sleep and wakeup; \<open>Pipe\<close> is \<^verbatim>\<open>pipe.c\<close>. The contract of a queue is the
    locale \<open>fifo\<close> of \<open>Ring\<close>, met by pipes and by the transmit buffer of the serial port.
  \<^item> \<open>Bio\<close> has sleep locks and the buffer cache (\<^verbatim>\<open>sleeplock.c\<close>, \<^verbatim>\<open>bio.c\<close>) and shows that it is a \<open>block_cache\<close>, the
    locale of \<open>Cache\<close>. \<open>Log\<close> is the write-ahead log (\<^verbatim>\<open>log.c\<close>) on top of it, and \<open>Fs\<close> the file system (\<^verbatim>\<open>fs.c\<close>), with
    its properties in \<open>Fs_Alloc\<close> and \<open>Fs_Dir\<close>.
  \<^item> \<open>Console\<close> is \<^verbatim>\<open>uart.c\<close>, \<^verbatim>\<open>printf.c\<close> and \<^verbatim>\<open>console.c\<close>, with its properties in \<open>Serial\<close>; \<open>Virtio\<close> is the disk driver
    (\<^verbatim>\<open>virtio_disk.c\<close>).
  \<^item> \<open>File\<close> (\<^verbatim>\<open>file.c\<close>), \<open>Args\<close> and \<open>Syscall\<close> (\<^verbatim>\<open>syscall.c\<close>, \<^verbatim>\<open>sysproc.c\<close>, and \<open>fork\<close> and \<open>exit\<close> of \<^verbatim>\<open>proc.c\<close>), \<open>Exec\<close> (\<^verbatim>\<open>exec.c\<close>),
    \<open>Sysfile\<close> (\<^verbatim>\<open>sysfile.c\<close>), \<open>Trap\<close> (\<^verbatim>\<open>trap.c\<close>, \<^verbatim>\<open>plic.c\<close>) and \<open>Boot\<close> (\<^verbatim>\<open>riscv.h\<close>, \<^verbatim>\<open>start.c\<close>, \<^verbatim>\<open>main.c\<close>) compose the layers into the
    handlers of system calls and traps and the start of the system.
  \<^item> \<open>Mkfs\<close> is the image builder \<^verbatim>\<open>mkfs.c\<close>; \<open>Grep\<close>, \<open>Utils\<close> (\<^verbatim>\<open>printf.c\<close>, \<open>wc\<close>, \<open>cat\<close>, \<open>echo\<close>), \<open>Sh\<close> and \<open>Sh_Run\<close> (the shell), and
    \<open>Umalloc\<close> (\<^verbatim>\<open>umalloc.c\<close>) are user programs and their allocator.
\<close>

text \<open>
  \<^bold>\<open>Results of operations.\<close> \<open>None\<close> is a panic, a failed assertion or a loop that never ends; error codes are values, as
  in the code. A function that may sleep is split at the sleep: the model runs to the return or to the sleep,
  and continues from there when the process is woken. The functions of the log and the file system that take
  sleep locks are modelled for the runs in which these are free.

  \<^bold>\<open>What is shown.\<close>
  \<^item> Crash safety: a crash after any number of the disk writes of a commit, or of a recovery, leaves a disk from which
    recovery gives the old or the new contents. A logged update changes the cache and not the disk.
  \<^item> File system: allocation of blocks takes the lowest free block and zeroes it; inodes and directory entries that
    were written are found again. The buffer cache refines \<open>block_cache\<close> and recycles the least recently used buffer.
  \<^item> Memory: the free list holds every page once; \<open>mappages\<close> and \<open>uvmalloc\<close> extend the address space by exactly the pages
    asked for; \<open>copyout\<close>, \<open>copyin\<close> and \<open>copyinstr\<close> move the bytes that a process sees.
  \<^item> Concurrency: spin locks exclude each other under every interleaving; pipes lose no wakeup; \<open>wait\<close>, \<open>wakeup\<close> and
    \<open>allocproc\<close> do what their callers rely on.
  \<^item> Devices: every character given to \<open>uartputc\<close> is sent in the end; the console is a line editor.
  \<^item> Start-up and images, as lemmas: \<open>start\<close> enters \<open>main\<close> in supervisor mode; the superblock that \<open>mkfs\<close> writes is
    the one the kernel reads, its bitmap has exactly the blocks in use, and its inodes are read back.
  \<^item> Programs: \<open>grep\<close> decides the language of its pattern and selects lines however \<open>read\<close> cuts the input; \<open>wc\<close>
    counts; the parser of the shell ends on every line, and \<open>runcmd\<close> connects the programs as the line says.
  \<^item> Defects: \<open>kill(0)\<close>, a killed writer of a pipe, the reservation of \<open>begin_op\<close>, reading a hole of a file, and a
    request to \<open>malloc\<close> that does not fit an \<open>int\<close> (\<open>malloc_truncates\<close>).
\<close>

text \<open>
  \<^bold>\<open>Bounds and fuel.\<close> Only the parser of the shell takes fuel: \<open>parse_fuel n = 5 * n + 6\<close> for a line of \<open>n\<close> characters.
  A chain of calls has at most five members for each character it consumes, so this is enough for every line;
  a property of \<open>Sh\<close> shows it, and that more fuel changes nothing. All other loops
  are structural, have a measure, or are \<open>partial_function (option)\<close>; where a property says that such a loop returns,
  it is proved. The sequences of values that a device returns are part of the state; progress of the serial
  port assumes that the transmitter reports again and again that it is idle.

  \<^bold>\<open>Not modelled.\<close>
  \<^item> The assembly files (\<^verbatim>\<open>entry.S\<close>, \<^verbatim>\<open>swtch.S\<close>, \<^verbatim>\<open>kernelvec.S\<close>, \<^verbatim>\<open>trampoline.S\<close>, \<^verbatim>\<open>initcode.S\<close>), which would need a semantics of
    the instruction set; the model of a trap ends and begins at their labels.
  \<^item> Caches and weak memory: memory is sequentially consistent, and \<open>sfence_vma\<close> has no effect.
  \<^item> The devices themselves, which are parameters, and text printed by messages of the file system.
  \<^item> \<^verbatim>\<open>ramdisk.c\<close>, which is not linked; \<^verbatim>\<open>init.c\<close>, \<^verbatim>\<open>ls.c\<close>, \<^verbatim>\<open>kill.c\<close>, \<^verbatim>\<open>ln.c\<close>, \<^verbatim>\<open>mkdir.c\<close>, \<^verbatim>\<open>rm.c\<close>, \<^verbatim>\<open>zombie.c\<close>, the main loop of the shell and the
    \<open>main\<close> functions of \<open>cat\<close>, \<open>wc\<close> and \<open>grep\<close>, which only issue system calls; the test programs \<^verbatim>\<open>usertests.c\<close>, \<^verbatim>\<open>grind.c\<close>,
    \<^verbatim>\<open>forktest.c\<close> and \<^verbatim>\<open>stressfs.c\<close>; build files and scripts.
\<close>

end
